(* ===== verification/Prelude.thy ===== *)
theory Prelude
  imports "HOL-Library.Word" "HOL-Library.Sublist"
begin

text \<open>
  Shared vocabulary of the development: the machine integers of the platform the code is
  built for (x86-64, little endian, \<^verbatim>\<open>size_t\<close> of 64 bits), the result type in which every
  \<^verbatim>\<open>assert\<close>, out-of-bounds access and null dereference of the C sources is a value, memory
  buffers as byte lists with checked reads and writes, and the functions of \<^verbatim>\<open><string.h>\<close>
  the sources use.
\<close>

unbundle bit_operations_syntax

section \<open>Machine integers\<close>

type_synonym byte = "8 word"
type_synonym u16 = "16 word"
type_synonym u32 = "32 word"
type_synonym u64 = "64 word"
type_synonym c_size = "64 word"

text \<open>A string literal of the sources, as the bytes of its characters.\<close>

definition bytes_of :: "string \<Rightarrow> byte list" where
  "bytes_of s = map of_char s"

lemma bytes_of_simps [simp]:
  "bytes_of [] = []"
  "bytes_of (c # cs) = of_char c # bytes_of cs"
  by (simp_all add: bytes_of_def)

lemma length_bytes_of [simp]: "length (bytes_of s) = length s"
  by (simp add: bytes_of_def)

lemma bit_byte_high [simp]: "8 \<le> n \<Longrightarrow> \<not> bit (b :: byte) n"
  using bit_imp_le_length [of b n] by auto

lemma bit_u32_high [simp]: "32 \<le> n \<Longrightarrow> \<not> bit (x :: u32) n"
  using bit_imp_le_length [of x n] by auto

section \<open>Results: faults as values\<close>

text \<open>
  \<^item> \<open>AssertFail\<close>: an \<^verbatim>\<open>assert\<close> of the source fails and the process aborts;
  \<^item> \<open>OutOfBounds\<close>: a read or write outside an array;
  \<^item> \<open>HeapOverflow\<close>: a write past the end of a block from \<^verbatim>\<open>malloc\<close>;
  \<^item> \<open>NullDeref\<close>: pointer arithmetic on or access through a null pointer;
  \<^item> \<open>UseAfterFree\<close>: an access through a pointer whose object has been released;
  \<^item> \<open>SignedOverflow\<close>: an arithmetic overflow on \<^verbatim>\<open>int\<close>;
  \<^item> \<open>NoReturn\<close>: a loop of the source that does not end.
\<close>

datatype fault = AssertFail | OutOfBounds | HeapOverflow | NullDeref | UseAfterFree |
  SignedOverflow | NoReturn

type_synonym 'a result = "fault + 'a"

definition bind_r :: "'a result \<Rightarrow> ('a \<Rightarrow> 'b result) \<Rightarrow> 'b result" where
  "bind_r m f = (case m of Inl e \<Rightarrow> Inl e | Inr x \<Rightarrow> f x)"

lemma bind_r_simps [simp]:
  "bind_r (Inl e) f = Inl e"
  "bind_r (Inr x) f = f x"
  by (simp_all add: bind_r_def)

lemma bind_r_eq_Inr: "bind_r m f = Inr y \<longleftrightarrow> (\<exists>x. m = Inr x \<and> f x = Inr y)"
  by (cases m) auto

lemma bind_r_eq_Inl:
  "bind_r m f = Inl e \<longleftrightarrow> m = Inl e \<or> (\<exists>x. m = Inr x \<and> f x = Inl e)"
  by (cases m) auto

lemma bind_r_cong [fundef_cong]:
  "m = m' \<Longrightarrow> (\<And>x. m' = Inr x \<Longrightarrow> f x = f' x) \<Longrightarrow> bind_r m f = bind_r m' f'"
  by (cases m) auto

lemma bind_r_assoc: "bind_r (bind_r m f) g = bind_r m (\<lambda>x. bind_r (f x) g)"
  by (cases m) auto

definition assert_c :: "bool \<Rightarrow> unit result" where
  "assert_c b = (if b then Inr () else Inl AssertFail)"

lemma assert_c_simps [simp]:
  "assert_c True = Inr ()"
  "assert_c False = Inl AssertFail"
  by (simp_all add: assert_c_def)

lemma assert_c_eq_Inr [simp]: "assert_c b = Inr u \<longleftrightarrow> b"
  by (simp add: assert_c_def)

section \<open>Memory buffers\<close>

text \<open>
  A C array is the list of its bytes; an access outside it is a fault. A \<^verbatim>\<open>memcpy\<close> of
  \<open>n\<close> bytes is one checked block read or write.
\<close>

definition read_at :: "'a list \<Rightarrow> nat \<Rightarrow> 'a result" where
  "read_at buf i = (if i < length buf then Inr (buf ! i) else Inl OutOfBounds)"

definition read_bytes :: "'a list \<Rightarrow> nat \<Rightarrow> nat \<Rightarrow> 'a list result" where
  "read_bytes buf i n =
     (if i + n \<le> length buf then Inr (take n (drop i buf)) else Inl OutOfBounds)"

definition write_at :: "'a list \<Rightarrow> nat \<Rightarrow> 'a \<Rightarrow> 'a list result" where
  "write_at buf i b = (if i < length buf then Inr (buf[i := b]) else Inl OutOfBounds)"

definition write_bytes :: "'a list \<Rightarrow> nat \<Rightarrow> 'a list \<Rightarrow> 'a list result" where
  "write_bytes buf i bs =
     (if i + length bs \<le> length buf then Inr (take i buf @ bs @ drop (i + length bs) buf)
      else Inl OutOfBounds)"

named_theorems mem_ok \<open>accesses inside the buffer succeed\<close>

lemma read_at_ok [mem_ok]: "i < length buf \<Longrightarrow> read_at buf i = Inr (buf ! i)"
  by (simp add: read_at_def)

lemma read_bytes_ok [mem_ok]:
  "i + n \<le> length buf \<Longrightarrow> read_bytes buf i n = Inr (take n (drop i buf))"
  by (simp add: read_bytes_def)

lemma write_at_ok [mem_ok]: "i < length buf \<Longrightarrow> write_at buf i b = Inr (buf[i := b])"
  by (simp add: write_at_def)

lemma write_bytes_ok [mem_ok]:
  "i + length bs \<le> length buf \<Longrightarrow>
   write_bytes buf i bs = Inr (take i buf @ bs @ drop (i + length bs) buf)"
  by (simp add: write_bytes_def)

lemma read_at_eq_Inr: "read_at buf i = Inr b \<longleftrightarrow> i < length buf \<and> b = buf ! i"
  by (auto simp: read_at_def)

lemma read_bytes_eq_Inr:
  "read_bytes buf i n = Inr bs \<longleftrightarrow> i + n \<le> length buf \<and> bs = take n (drop i buf)"
  by (auto simp: read_bytes_def)

lemma write_at_eq_Inr: "write_at buf i b = Inr buf' \<longleftrightarrow> i < length buf \<and> buf' = buf[i := b]"
  by (auto simp: write_at_def)

lemma write_bytes_eq_Inr:
  "write_bytes buf i bs = Inr buf' \<longleftrightarrow>
   i + length bs \<le> length buf \<and> buf' = take i buf @ bs @ drop (i + length bs) buf"
  by (auto simp: write_bytes_def)

lemmas mem_eq_Inr = read_at_eq_Inr read_bytes_eq_Inr write_at_eq_Inr write_bytes_eq_Inr

lemma length_write_bytes: "write_bytes buf i bs = Inr buf' \<Longrightarrow> length buf' = length buf"
  by (auto simp: write_bytes_eq_Inr)

text \<open>A buffer whose first \<open>k\<close> bytes have been replaced.\<close>

lemma take_pre: "length pre = k \<Longrightarrow> take k (pre @ xs) = pre"
  by simp

lemma drop_pre: "length pre = k \<Longrightarrow> drop (k + n) (pre @ drop k xs) = drop (k + n) xs"
  by (simp add: add.commute)

section \<open>Byte order\<close>

text \<open>
  A word in memory: \<open>load_le\<close> and \<open>store_le\<close> are what a \<^verbatim>\<open>memcpy\<close> between a word and
  memory does on the little-endian host; \<open>be_bytes\<close> is network byte order.
\<close>

primrec load_le :: "byte list \<Rightarrow> nat" where
  "load_le [] = 0"
| "load_le (b # bs) = unat b + 256 * load_le bs"

primrec store_le :: "nat \<Rightarrow> nat \<Rightarrow> byte list" where
  "store_le 0 v = []"
| "store_le (Suc n) v = word_of_nat (v mod 256) # store_le n (v div 256)"

definition load_be :: "byte list \<Rightarrow> nat" where
  "load_be bs = load_le (rev bs)"

definition store_be :: "nat \<Rightarrow> nat \<Rightarrow> byte list" where
  "store_be n v = rev (store_le n v)"

lemma length_store_le [simp]: "length (store_le n v) = n"
  by (induction n arbitrary: v) auto

lemma length_store_be [simp]: "length (store_be n v) = n"
  by (simp add: store_be_def)

lemma unat_byte_bound: "unat (b :: byte) < 256"
  using unsigned_less [of b] by simp

lemma unat_byte_of_mod [simp]: "unat (word_of_nat (v mod 256) :: byte) = v mod 256"
  by (simp add: unat_of_nat)

lemma load_store_le: "load_le (store_le n v) = v mod 256 ^ n"
proof (induction n arbitrary: v)
  case 0
  show ?case by simp
next
  case (Suc n)
  have "load_le (store_le (Suc n) v) = v mod 256 + 256 * (v div 256 mod 256 ^ n)"
    by (simp add: Suc)
  also have "\<dots> = v mod (256 * 256 ^ n)"
    by (simp add: mod_mult2_eq)
  finally show ?case by simp
qed

lemma load_store_be: "load_be (store_be n v) = v mod 256 ^ n"
  by (simp add: load_be_def store_be_def load_store_le)

lemma load_le_bound: "load_le bs < 256 ^ length bs"
proof (induction bs)
  case Nil
  show ?case by simp
next
  case (Cons b bs)
  have "unat b < 256" by (rule unat_byte_bound)
  with Cons show ?case by simp
qed

lemma store_load_le: "store_le (length bs) (load_le bs) = bs"
proof (induction bs)
  case Nil
  show ?case by simp
next
  case (Cons b bs)
  have b: "unat b < 256" by (rule unat_byte_bound)
  then have "(unat b + 256 * load_le bs) mod 256 = unat b"
    by simp
  moreover from b have "(unat b + 256 * load_le bs) div 256 = load_le bs"
    by simp
  ultimately show ?case using Cons by simp
qed

section \<open>C strings\<close>

text \<open>
  The functions of \<^verbatim>\<open><string.h>\<close> the sources call. A C string is the part of a buffer
  before the first zero byte; a result pointer is the offset from the start of the argument.
\<close>

definition cstr :: "byte list \<Rightarrow> byte list" where
  "cstr buf = takeWhile (\<lambda>b. b \<noteq> 0) buf"

fun find_sub :: "byte list \<Rightarrow> byte list \<Rightarrow> nat option" where
  "find_sub [] pat = (if pat = [] then Some 0 else None)"
| "find_sub (b # bs) pat =
     (if prefix pat (b # bs) then Some 0 else map_option Suc (find_sub bs pat))"

definition strstr :: "byte list \<Rightarrow> byte list \<Rightarrow> nat option" where
  "strstr buf pat = find_sub (cstr buf) pat"

definition strchr :: "byte list \<Rightarrow> byte \<Rightarrow> nat option" where
  "strchr buf c = find_sub (cstr buf) [c]"

definition memcmp_eq :: "byte list \<Rightarrow> byte list \<Rightarrow> bool" where
  "memcmp_eq buf pat = prefix pat buf"

definition tolower :: "byte \<Rightarrow> byte" where
  "tolower b = (if 65 \<le> b \<and> b \<le> 90 then b + 32 else b)"

definition isspace :: "byte \<Rightarrow> bool" where
  "isspace b \<longleftrightarrow> b = 32 \<or> (9 \<le> b \<and> b \<le> 13)"

lemma find_sub_Some:
  "find_sub s pat = Some i \<Longrightarrow> i + length pat \<le> length s \<and> prefix pat (drop i s)"
proof (induction s arbitrary: i)
  case Nil
  then show ?case by (auto split: if_splits)
next
  case (Cons b bs)
  then show ?case
    by (auto split: if_splits dest: prefix_length_le)
qed

lemma find_sub_least: "find_sub s pat = Some i \<Longrightarrow> j < i \<Longrightarrow> \<not> prefix pat (drop j s)"
proof (induction s arbitrary: i j)
  case Nil
  then show ?case by (auto split: if_splits)
next
  case (Cons b bs)
  then show ?case
    by (cases j) (auto split: if_splits)
qed

lemma find_sub_occurs: "prefix pat (drop j s) \<Longrightarrow> j \<le> length s \<Longrightarrow> \<exists>i \<le> j. find_sub s pat = Some i"
proof (induction s arbitrary: j)
  case Nil
  then show ?case by simp
next
  case (Cons b bs)
  show ?case
  proof (cases "prefix pat (b # bs)")
    case True
    then show ?thesis by simp
  next
    case False
    with Cons.prems obtain j' where j: "j = Suc j'" by (cases j) auto
    with Cons obtain i where "i \<le> j'" "find_sub bs pat = Some i" by auto
    with False j show ?thesis by auto
  qed
qed

lemma find_sub_None: "find_sub s pat = None \<Longrightarrow> j \<le> length s \<Longrightarrow> \<not> prefix pat (drop j s)"
  using find_sub_occurs by fastforce

lemma cstr_no_zero: "b \<in> set (cstr buf) \<Longrightarrow> b \<noteq> 0"
  unfolding cstr_def by (auto dest: set_takeWhileD)

lemma length_cstr: "length (cstr buf) \<le> length buf"
  by (simp add: cstr_def length_takeWhile_le)

lemma cstr_prefix: "prefix (cstr buf) buf"
  by (simp add: cstr_def takeWhile_is_prefix)

lemma cstr_append_zero: "0 \<notin> set bs \<Longrightarrow> cstr (bs @ 0 # rest) = bs"
  by (auto simp: cstr_def takeWhile_append)

lemma cstr_id: "0 \<notin> set bs \<Longrightarrow> cstr bs = bs"
  by (auto simp: cstr_def takeWhile_eq_all_conv)

lemma drop_cstr: "i \<le> length (cstr buf) \<Longrightarrow> cstr (drop i buf) = drop i (cstr buf)"
proof (induction buf arbitrary: i)
  case Nil
  then show ?case by (simp add: cstr_def)
next
  case (Cons b bs)
  then show ?case
    by (cases i) (auto simp: cstr_def split: if_splits)
qed

end
