(* ===== verification/Sha1.thy ===== *)
theory Sha1
  imports Prelude
begin

text \<open>
  The SHA-1 implementation of \<^verbatim>\<open>cwebsocket/sha1.c\<close>: the context, the compression of one
  block with its rolling window of sixteen schedule words, the padding of the last block and
  the whole-message loop. Memory accesses to the message are checked.
\<close>

section \<open>The context and the inner functions\<close>

record sha1_ctx =
  h :: "u32 list"
  len_bits :: u64

definition sha1_init :: sha1_ctx where
  "sha1_init = \<lparr>h = [0x67452301, 0xefcdab89, 0x98badcfe, 0x10325476, 0xc3d2e1f0],
     len_bits = 0\<rparr>"

definition rotl32 :: "u32 \<Rightarrow> nat \<Rightarrow> u32" where
  "rotl32 n bits = push_bit bits n OR drop_bit (32 - bits) n"

definition change_endian32 :: "u32 \<Rightarrow> u32" where
  "change_endian32 x =
     push_bit 24 x OR drop_bit 24 x OR push_bit 8 (x AND 0x0000ff00) OR
     drop_bit 8 (x AND 0x00ff0000)"

definition ch :: "u32 \<Rightarrow> u32 \<Rightarrow> u32 \<Rightarrow> u32" where
  "ch x y z = (x AND y) XOR (NOT x AND z)"

definition maj :: "u32 \<Rightarrow> u32 \<Rightarrow> u32 \<Rightarrow> u32" where
  "maj x y z = (x AND y) XOR (x AND z) XOR (y AND z)"

definition parity :: "u32 \<Rightarrow> u32 \<Rightarrow> u32 \<Rightarrow> u32" where
  "parity x y z = (x XOR y) XOR z"

section \<open>One block\<close>

definition MASK :: nat where
  "MASK = 0x0000000f"

definition f_table :: "(u32 \<Rightarrow> u32 \<Rightarrow> u32 \<Rightarrow> u32) list" where
  "f_table = [ch, parity, maj, parity]"

definition k_table :: "u32 list" where
  "k_table = [0x5a827999, 0x6ed9eba1, 0x8f1bbcdc, 0xca62c1d6]"

text \<open>A word of the block as the host loads it: four bytes, least significant first.\<close>

definition load_u32 :: "byte list \<Rightarrow> nat \<Rightarrow> u32" where
  "load_u32 bs t = word_of_nat (load_le (take 4 (drop (4 * t) bs)))"

definition load_w :: "byte list \<Rightarrow> u32 list" where
  "load_w block = map (\<lambda>t. change_endian32 (load_u32 block t)) [0..<16]"

text \<open>The local variables of the round loop; \<open>va\<close> is the array \<^verbatim>\<open>a[5]\<close>.\<close>

record round_vars =
  va :: "u32 list"
  vw :: "u32 list"
  vfi :: nat
  vfib :: nat

definition next_w :: "nat \<Rightarrow> u32 list \<Rightarrow> u32 list" where
  "next_w t w =
     (let s = t AND MASK in
      if t \<ge> 16
      then w[s := rotl32 (w ! ((s + 13) AND MASK) XOR w ! ((s + 8) AND MASK) XOR
                          w ! ((s + 2) AND MASK) XOR w ! s) 1]
      else w)"

definition round_step :: "nat \<Rightarrow> round_vars \<Rightarrow> round_vars" where
  "round_step t v =
     (let s = t AND MASK;
          w = next_w t (vw v);
          a = va v;
          temp = rotl32 (a ! 0) 5 + (f_table ! vfi v) (a ! 1) (a ! 2) (a ! 3) + a ! 4 +
                 k_table ! vfi v + w ! s;
          a1 = [temp, a ! 0, a ! 1, a ! 2, a ! 3];
          a2 = a1[2 := rotl32 (a1 ! 2) 30];
          fib = vfib v + 1
      in \<lparr>va = a2, vw = w,
          vfi = (if fib = 20 then (vfi v + 1) mod 4 else vfi v),
          vfib = (if fib = 20 then 0 else fib)\<rparr>)"

definition sha1_nextBlock :: "sha1_ctx \<Rightarrow> byte list \<Rightarrow> sha1_ctx" where
  "sha1_nextBlock state block =
     (let v0 = \<lparr>va = h state, vw = load_w block, vfi = 0, vfib = 0\<rparr>;
          v = fold round_step [0..<80] v0
      in \<lparr>h = map (\<lambda>t. h state ! t + va v ! t) [0..<5], len_bits = len_bits state + 512\<rparr>)"

section \<open>The last block and the whole message\<close>

text \<open>
  The pointer into the message is an offset, and \<^verbatim>\<open>length\<close> the number of bits left, a
  \<^verbatim>\<open>uint16_t\<close> in \<open>sha1_lastBlock\<close> and a \<^verbatim>\<open>uint32_t\<close> in \<open>sha1\<close>.
\<close>

function lastBlock_loop :: "sha1_ctx \<Rightarrow> byte list \<Rightarrow> nat \<Rightarrow> u16 \<Rightarrow> (sha1_ctx \<times> nat \<times> u16) result" where
  "lastBlock_loop state msg p len =
     (if len \<ge> 512
      then bind_r (read_bytes msg p 64) (\<lambda>block.
           lastBlock_loop (sha1_nextBlock state block) msg (p + 64) (len - 512))
      else Inr (state, p, len))"
  by pat_completeness auto
termination
  by (relation "measure (\<lambda>(state, msg, p, len). unat len)")
    (auto simp: word_le_nat_alt unat_sub)

definition store_length :: "byte list \<Rightarrow> u64 \<Rightarrow> byte list" where
  "store_length lb n = fold (\<lambda>i lb. lb[56 + i := store_le 8 (unat n) ! (7 - i)]) [0..<8] lb"

definition sha1_lastBlock :: "sha1_ctx \<Rightarrow> byte list \<Rightarrow> nat \<Rightarrow> u16 \<Rightarrow> sha1_ctx result" where
  "sha1_lastBlock state0 msg p0 len0 =
     bind_r (lastBlock_loop state0 msg p0 len0) (\<lambda>(state1, p, len).
     let state2 = state1\<lparr>len_bits := len_bits state1 + ucast len\<rparr>;
         nbytes = (unat len + 7) div 8 in
     bind_r (read_bytes msg p nbytes) (\<lambda>part.
     bind_r (write_bytes (replicate 64 0) 0 part) (\<lambda>lb0.
     let i = unat len div 8;
         lb1 = lb0[i := lb0 ! i OR drop_bit (unat (len AND 7)) 0x80];
         (state3, lb2) =
           (if len > 512 - 64 - 1
            then (let st = sha1_nextBlock state2 lb1
                  in (st\<lparr>len_bits := len_bits st - 512\<rparr>, replicate 64 0))
            else (state2, lb1))
     in Inr (sha1_nextBlock state3 (store_length lb2 (len_bits state3))))))"

definition sha1_ctx2hash :: "sha1_ctx \<Rightarrow> byte list" where
  "sha1_ctx2hash state =
     concat (map (\<lambda>i. store_le 4 (unat (change_endian32 (h state ! i)))) [0..<5])"

lemma and_not_511: "(len :: u32) AND NOT 0x1ff = 0 \<longleftrightarrow> len < 512"
proof -
  have m: "(mask 9 :: u32) = 0x1ff" by (simp add: mask_eq_decr_exp)
  have "len AND NOT m = 0 \<longleftrightarrow> len AND m = len" for m :: u32
  proof
    assume z: "len AND NOT m = 0"
    show "len AND m = len"
    proof (rule bit_word_eqI)
      fix n assume n: "n < LENGTH(32)"
      have "\<not> bit (len AND NOT m) n" by (simp only: z bit_0_eq bot_apply) simp
      with n show "bit (len AND m) n \<longleftrightarrow> bit len n" by (auto simp: bit_simps)
    qed
  next
    assume "len AND m = len"
    then have "len AND NOT m = (len AND m) AND NOT m" by simp
    then show "len AND NOT m = 0" by (simp add: and.assoc)
  qed
  then have "len AND NOT 0x1ff = 0 \<longleftrightarrow> len AND 0x1ff = len" .
  also have "\<dots> \<longleftrightarrow> len < 512"
  proof
    assume "len AND 0x1ff = len"
    then have "len \<le> 0x1ff" by (metis word_and_le1)
    then show "len < 512" by (simp add: word_le_nat_alt word_less_nat_alt)
  next
    assume "len < 512"
    then show "len AND 0x1ff = len" using less_mask_eq [of len 9] by (simp add: m)
  qed
  finally show ?thesis .
qed

function sha1_loop :: "sha1_ctx \<Rightarrow> byte list \<Rightarrow> nat \<Rightarrow> u32 \<Rightarrow> (sha1_ctx \<times> nat \<times> u32) result" where
  "sha1_loop state msg p len =
     (if len AND NOT 0x0001ff \<noteq> 0
      then bind_r (read_bytes msg p 64) (\<lambda>block.
           sha1_loop (sha1_nextBlock state block) msg (p + 64) (len - 512))
      else Inr (state, p, len))"
  by pat_completeness auto
termination
proof (relation "measure (\<lambda>(state, msg, p, len). unat len)", goal_cases)
  case 1
  show ?case by simp
next
  case (2 state msg p len block)
  then have "512 \<le> len" by (simp only: and_not_511 not_less)
  then show ?case by (auto simp: word_le_nat_alt unat_sub)
qed

definition sha1 :: "byte list \<Rightarrow> u32 \<Rightarrow> byte list result" where
  "sha1 msg len =
     bind_r (sha1_loop sha1_init msg 0 len) (\<lambda>(state, p, len').
     bind_r (sha1_lastBlock state msg p (ucast len')) (\<lambda>state'.
     Inr (sha1_ctx2hash state')))"

declare lastBlock_loop.simps [simp del] sha1_loop.simps [simp del]

end
