(* ===== verification/Fips180.thy ===== *)
theory Fips180
  imports Prelude
begin

text \<open>
  SHA-1 as FIPS 180-4 states it for messages of whole bytes: padding, the schedule of
  eighty words, the rounds on five working variables and the chaining of the blocks. It is
  the reference the rolling implementation of theory \<^verbatim>\<open>Sha1\<close> is compared with, and shares
  no definition with it.
\<close>

section \<open>Functions and constants\<close>

definition fips_f :: "nat \<Rightarrow> u32 \<Rightarrow> u32 \<Rightarrow> u32 \<Rightarrow> u32" where
  "fips_f t x y z =
     (if t < 20 then (x AND y) XOR (NOT x AND z)
      else if t < 40 then x XOR y XOR z
      else if t < 60 then (x AND y) XOR (x AND z) XOR (y AND z)
      else x XOR y XOR z)"

definition fips_K :: "nat \<Rightarrow> u32" where
  "fips_K t =
     (if t < 20 then 0x5a827999 else if t < 40 then 0x6ed9eba1
      else if t < 60 then 0x8f1bbcdc else 0xca62c1d6)"

definition fips_H0 :: "u32 list" where
  "fips_H0 = [0x67452301, 0xefcdab89, 0x98badcfe, 0x10325476, 0xc3d2e1f0]"

section \<open>Schedule and compression\<close>

text \<open>Big-endian words of a block, and the schedule grown one word at a time.\<close>

definition fips_words :: "byte list \<Rightarrow> u32 list" where
  "fips_words block = map (\<lambda>t. word_of_nat (load_be (take 4 (drop (4 * t) block)))) [0..<16]"

definition fips_next_word :: "u32 list \<Rightarrow> u32" where
  "fips_next_word ws =
     (let t = length ws in
      word_rotl 1 (ws ! (t - 3) XOR ws ! (t - 8) XOR ws ! (t - 14) XOR ws ! (t - 16)))"

primrec fips_extend :: "nat \<Rightarrow> u32 list \<Rightarrow> u32 list" where
  "fips_extend 0 ws = ws"
| "fips_extend (Suc n) ws = (let ws' = fips_extend n ws in ws' @ [fips_next_word ws'])"

definition fips_schedule :: "byte list \<Rightarrow> u32 list" where
  "fips_schedule block = fips_extend 64 (fips_words block)"

definition fips_round :: "u32 list \<Rightarrow> nat \<Rightarrow> u32 list \<Rightarrow> u32 list" where
  "fips_round W t s =
     (case s of [a, b, c, d, e] \<Rightarrow>
        [word_rotl 5 a + fips_f t b c d + e + fips_K t + W ! t, a, word_rotl 30 b, c, d]
      | _ \<Rightarrow> s)"

definition fips_compress :: "u32 list \<Rightarrow> byte list \<Rightarrow> u32 list" where
  "fips_compress H block = map2 (+) H (fold (fips_round (fips_schedule block)) [0..<80] H)"

section \<open>Padding and the hash\<close>

definition fips_pad :: "byte list \<Rightarrow> byte list" where
  "fips_pad msg =
     msg @ [0x80] @ replicate ((119 - length msg mod 64) mod 64) 0 @ store_be 8 (8 * length msg)"

function fips_blocks :: "u32 list \<Rightarrow> byte list \<Rightarrow> u32 list" where
  "fips_blocks H bs =
     (if length bs < 64 then H else fips_blocks (fips_compress H (take 64 bs)) (drop 64 bs))"
  by pat_completeness auto
termination
  by (relation "measure (\<lambda>(H, bs). length bs)") auto

declare fips_blocks.simps [simp del]

definition fips_sha1 :: "byte list \<Rightarrow> byte list" where
  "fips_sha1 msg = concat (map (\<lambda>w. store_be 4 (unat w)) (fips_blocks fips_H0 (fips_pad msg)))"

section \<open>Facts about the reference\<close>

lemma length_fips_words [simp]: "length (fips_words block) = 16"
  by (simp add: fips_words_def)

lemma length_fips_extend [simp]: "length (fips_extend n ws) = length ws + n"
  by (induction n) (simp_all add: Let_def)

lemma fips_extend_prefix: "t < length ws + n \<Longrightarrow> fips_extend (n + m) ws ! t = fips_extend n ws ! t"
  by (induction m) (auto simp: Let_def nth_append)

lemma fips_schedule_word:
  assumes "16 \<le> t" and "t < 80"
  shows "fips_schedule block ! t =
    word_rotl 1 (fips_schedule block ! (t - 3) XOR fips_schedule block ! (t - 8) XOR
                 fips_schedule block ! (t - 14) XOR fips_schedule block ! (t - 16))"
proof -
  define ws where "ws = fips_words block"
  define n where "n = t - 16"
  have t: "t = 16 + n" "n < 64" using assms by (simp_all add: n_def)
  have sch: "fips_schedule block ! i = fips_extend n ws ! i" if "i < t" for i
    using fips_extend_prefix [of i ws n "64 - n"] that t by (simp add: fips_schedule_def ws_def)
  have "fips_schedule block ! t = fips_extend (Suc n) ws ! t"
    using fips_extend_prefix [of t ws "Suc n" "64 - Suc n"] t by (simp add: fips_schedule_def ws_def)
  also have "\<dots> = fips_next_word (fips_extend n ws)"
    using t by (simp add: Let_def nth_append ws_def)
  finally show ?thesis
    using t by (simp add: fips_next_word_def Let_def ws_def [symmetric] sch) (simp add: ws_def)
qed

lemma fips_schedule_first: "t < 16 \<Longrightarrow> fips_schedule block ! t = fips_words block ! t"
  using fips_extend_prefix [of t "fips_words block" 0 64] by (simp add: fips_schedule_def)

lemma length_fips_round [simp]: "length (fips_round W t s) = length s"
  by (simp add: fips_round_def split: list.split)

lemma length_fips_rounds [simp]: "length (fold (fips_round W) ts s) = length s"
  by (induction ts arbitrary: s) simp_all

lemma length_fips_compress [simp]: "length (fips_compress H block) = length H"
  by (simp add: fips_compress_def)

lemma length_fips_blocks [simp]: "length (fips_blocks H bs) = length H"
proof (induction H bs rule: fips_blocks.induct)
  case (1 H bs)
  then show ?case by (subst fips_blocks.simps) simp
qed

lemma fips_blocks_short: "length bs < 64 \<Longrightarrow> fips_blocks H bs = H"
  by (subst fips_blocks.simps) simp

lemma fips_blocks_Cons:
  "length b = 64 \<Longrightarrow> fips_blocks H (b @ bs) = fips_blocks (fips_compress H b) bs"
  by (subst fips_blocks.simps) simp

lemma length_fips_pad: "length (fips_pad msg) mod 64 = 0"
proof -
  have "(m + 9 + (119 - m mod 64) mod 64) mod 64 = 0" for m :: nat
  proof -
    define q r where "q = m div 64" and "r = m mod 64"
    then have m: "m = 64 * q + r" and r: "r < 64" by simp_all
    have "(r + 9 + (119 - r) mod 64) mod 64 = 0"
    proof (cases "r < 56")
      case True
      then have "(119 - r) mod 64 = 55 - r"
        using mod_add_self2 [of "55 - r" 64] by (simp add: mod_less)
      with True show ?thesis by simp
    next
      case False
      with r have "(119 - r) mod 64 = 119 - r" by simp
      with r show ?thesis by simp
    qed
    then show ?thesis by (simp add: m r mod_simps add.assoc)
  qed
  then show ?thesis by (simp add: fips_pad_def algebra_simps)
qed

lemma length_store_concat: "length (concat (map (\<lambda>w. store_be 4 (f w)) ws)) = 4 * length ws"
  by (induction ws) simp_all

lemma length_fips_sha1: "length (fips_sha1 msg) = 20"
  by (simp add: fips_sha1_def length_store_concat fips_H0_def)

end
