(* ===== verification/Sha1_Refines.thy ===== *)
theory Sha1_Refines
  imports Sha1 Fips180
begin

text \<open>
  The SHA-1 code computes FIPS 180-4: its byte order, its rolling schedule window, its round
  counters and its padding, against the reference of theory \<^verbatim>\<open>Fips180\<close>.
\<close>

section \<open>Byte order\<close>

lemma bit_load_le:
  "bit (load_le bs) i \<longleftrightarrow> i div 8 < length bs \<and> bit (bs ! (i div 8)) (i mod 8)"
proof (induction bs arbitrary: i)
  case Nil
  show ?case by simp
next
  case (Cons b bs)
  have split: "load_le (b # bs) = push_bit 8 (load_le bs) + take_bit 8 (unat b)"
    by (simp add: push_bit_eq_mult take_bit_nat_eq_self unat_byte_bound)
  show ?case
  proof (cases "i < 8")
    case True
    have "bit (load_le (b # bs)) i \<longleftrightarrow> bit (take_bit 8 (load_le (b # bs))) i"
      using True by (simp add: bit_take_bit_iff)
    also have "take_bit 8 (load_le (b # bs)) = unat b"
      using unat_byte_bound [of b] by (simp add: take_bit_eq_mod)
    finally show ?thesis using True by (simp add: bit_unsigned_iff)
  next
    case False
    then obtain j where j: "i = j + 8" by (metis le_add_diff_inverse2 not_less)
    have "bit (load_le (b # bs)) i \<longleftrightarrow> bit (drop_bit 8 (load_le (b # bs))) j"
      by (simp add: j bit_drop_bit_eq add.commute)
    also have "drop_bit 8 (load_le (b # bs)) = load_le bs"
      using unat_byte_bound [of b] by (simp add: drop_bit_eq_div)
    finally have "bit (load_le (b # bs)) i \<longleftrightarrow> bit (load_le bs) j" .
    moreover have "i div 8 = Suc (j div 8)" "i mod 8 = j mod 8" by (simp_all add: j)
    ultimately show ?thesis by (simp add: Cons)
  qed
qed

lemma bit_change_endian32:
  "i < 32 \<Longrightarrow> bit (change_endian32 x) i \<longleftrightarrow> bit x (8 * (3 - i div 8) + i mod 8)"
proof -
  assume i: "i < 32"
  have idx: "[0..<32] = [0, 1, 2, 3, 4, 5, 6, 7, 8, 9, 10, 11, 12, 13, 14, 15, 16, 17, 18, 19, 20, 21, 22, 23, 24, 25, 26, 27, 28, 29, 30, 31]"
    by code_simp
  have "\<forall>i \<in> set [0..<32]. bit (change_endian32 x) i \<longleftrightarrow> bit x (8 * (3 - i div 8) + i mod 8)"
    unfolding idx change_endian32_def
    by (simp add: bit_simps numeral_2_eq_2 [symmetric])
  with i show ?thesis by simp
qed

lemma change_endian32_load:
  assumes "length bs = 4"
  shows "change_endian32 (word_of_nat (load_le bs)) = word_of_nat (load_be bs)"
proof (rule bit_word_eqI)
  fix i assume "i < LENGTH(32)"
  then have i: "i < 32" by simp
  then have "i div 8 < 4" by simp
  moreover have "8 * (3 - i div 8) + i mod 8 < 32"
    using mod_less_divisor [of 8 i] by linarith
  ultimately show "bit (change_endian32 (word_of_nat (load_le bs))) i \<longleftrightarrow>
      bit (word_of_nat (load_be bs) :: u32) i"
    using i assms by (simp add: bit_change_endian32 bit_of_nat_iff bit_load_le load_be_def rev_nth)
qed

lemma store_change_endian32: "store_le 4 (unat (change_endian32 x)) = store_be 4 (unat x)"
proof -
  let ?bs = "store_be 4 (unat x)"
  have "load_be ?bs = unat x"
    using unsigned_less [of x, where ?'a = nat] by (simp add: load_store_be)
  then have "change_endian32 x = change_endian32 (word_of_nat (load_be ?bs))" by simp
  also have "\<dots> = word_of_nat (load_be (rev ?bs))"
    using change_endian32_load [of "rev ?bs"] by (simp add: load_be_def)
  finally have eq: "change_endian32 x = word_of_nat (load_le ?bs)"
    by (simp add: load_be_def)
  have "load_le ?bs < 2 ^ 32" using load_le_bound [of ?bs] by simp
  then have "unat (change_endian32 x) = load_le ?bs" by (simp add: eq unat_of_nat)
  then show ?thesis using store_load_le [of ?bs] by simp
qed

lemma load_w_words:
  assumes "length block = 64"
  shows "load_w block = fips_words block"
proof -
  have "length (take 4 (drop (4 * t) block)) = 4" if "t < 16" for t
    using that assms by simp
  then show ?thesis
    by (simp add: load_w_def fips_words_def load_u32_def change_endian32_load)
qed

section \<open>The rounds\<close>

lemma and_MASK: "t AND MASK = t mod 16"
proof -
  have "MASK = mask 4" by (simp add: MASK_def mask_eq_exp_minus_1)
  then have "t AND MASK = take_bit 4 t" by (simp only: take_bit_eq_mask)
  then show ?thesis by (simp add: take_bit_eq_mod)
qed

lemma rotl32_rotl:
  assumes "0 < k" and "k < 32"
  shows "rotl32 x k = word_rotl k x"
proof (rule bit_word_eqI)
  fix n assume "n < LENGTH(32)"
  then have n: "n < 32" by simp
  show "bit (rotl32 x k) n \<longleftrightarrow> bit (word_rotl k x) n"
  proof (cases "n < k")
    case True
    then have "(n + (32 - k)) mod 32 = 32 - k + n" using assms by simp
    then show ?thesis
      using True n assms by (simp add: rotl32_def bit_simps bit_word_rotl_iff add.commute [of n])
  next
    case False
    then have "n + (32 - k) = (n - k) + 32" using assms by simp
    then have "(n + (32 - k)) mod 32 = n - k" using n assms by (metis mod_add_self2 mod_less less_imp_diff_less)
    then show ?thesis
      using False n assms by (simp add: rotl32_def bit_simps bit_word_rotl_iff)
  qed
qed

lemma table_lookup:
  assumes "t < 80"
  shows "f_table ! (t div 20) = fips_f t" "k_table ! (t div 20) = fips_K t"
proof -
  from assms consider "t < 20" | "20 \<le> t \<and> t < 40" | "40 \<le> t \<and> t < 60" | "60 \<le> t \<and> t < 80"
    by linarith
  then have "f_table ! (t div 20) = fips_f t \<and> k_table ! (t div 20) = fips_K t"
  proof cases
    case 1
    then have "t div 20 = 0" by simp
    with 1 show ?thesis
      by (simp add: f_table_def k_table_def fips_K_def fips_f_def ch_def fun_eq_iff)
  next
    case 2
    then have "t div 20 = 1" by (intro div_nat_eqI) simp_all
    with 2 show ?thesis
      by (simp add: f_table_def k_table_def fips_K_def fips_f_def parity_def fun_eq_iff xor.assoc)
  next
    case 3
    then have "t div 20 = 2" by (intro div_nat_eqI) simp_all
    with 3 show ?thesis
      by (simp add: f_table_def k_table_def fips_K_def fips_f_def maj_def fun_eq_iff)
  next
    case 4
    then have "t div 20 = 3" by (intro div_nat_eqI) simp_all
    with 4 show ?thesis
      by (simp add: f_table_def k_table_def fips_K_def fips_f_def parity_def fun_eq_iff xor.assoc)
  qed
  then show "f_table ! (t div 20) = fips_f t" "k_table ! (t div 20) = fips_K t" by simp_all
qed

text \<open>The window: slot \<open>j mod 16\<close> holds schedule word \<open>j\<close> for the last sixteen words.\<close>

definition window :: "u32 list \<Rightarrow> nat \<Rightarrow> u32 list \<Rightarrow> bool" where
  "window W t w \<longleftrightarrow>
     length w = 16 \<and> (\<forall>j. t \<le> j + 16 \<and> j < max t 16 \<longrightarrow> w ! (j mod 16) = W ! j)"

lemma window_start: "window (fips_schedule block) 0 (fips_words block)"
  by (simp add: window_def fips_schedule_first)

lemma window_nth:
  assumes "window W t w" and "16 \<le> t" and "t \<le> j + 16" and "j < t"
  shows "w ! (j mod 16) = W ! j"
  using assms by (simp add: window_def)

lemma window_next:
  assumes w: "window (fips_schedule block) t w" and t: "t < 80"
  shows "window (fips_schedule block) (Suc t) (next_w t w) \<and>
    next_w t w ! (t mod 16) = fips_schedule block ! t"
proof (cases "16 \<le> t")
  case False
  then show ?thesis using w by (auto simp: next_w_def window_def and_MASK)
next
  case True
  let ?W = "fips_schedule block" and ?s = "t mod 16"
  have idx: "((t - 16) mod 16 + 13) mod 16 = (t - 3) mod 16" "((t - 16) mod 16 + 8) mod 16 = (t - 8) mod 16"
    "((t - 16) mod 16 + 2) mod 16 = (t - 14) mod 16" "?s = (t - 16) mod 16"
  proof -
    from True obtain k where k: "t = k + 16" by (metis le_add_diff_inverse2)
    then have sub: "t - 3 = k + 13" "t - 8 = k + 8" "t - 14 = k + 2" "t - 16 = k" "t mod 16 = k mod 16"
      by simp_all
    show "((t - 16) mod 16 + 13) mod 16 = (t - 3) mod 16" "((t - 16) mod 16 + 8) mod 16 = (t - 8) mod 16"
      "((t - 16) mod 16 + 2) mod 16 = (t - 14) mod 16" "?s = (t - 16) mod 16"
      unfolding sub by (rule mod_add_left_eq refl)+
  qed
  have len: "length w = 16" using w by (simp add: window_def)
  have new: "next_w t w = w[?s := ?W ! t]"
    using True fips_schedule_word [OF True t, of block]
      window_nth [OF w True, of "t - 3"] window_nth [OF w True, of "t - 8"]
      window_nth [OF w True, of "t - 14"] window_nth [OF w True, of "t - 16"]
    by (simp only: next_w_def Let_def and_MASK idx if_True) (simp add: rotl32_rotl)
  have "w[?s := ?W ! t] ! (j mod 16) = ?W ! j" if "Suc t \<le> j + 16" "j < Suc t" for j
  proof (cases "j = t")
    case False
    with that have "j < t" "t < j + 16" by simp_all
    then have "j mod 16 \<noteq> ?s"
      by (metis add_lessD1 less_imp_add_positive mod_eq_dvd_iff_nat nat_dvd_not_less
          less_or_eq_imp_le diff_is_0_eq not_le zero_less_diff less_diff_conv2 add.commute)
    with that w True \<open>j < t\<close> show ?thesis by (simp add: window_def)
  qed (simp add: len)
  then show ?thesis using True by (simp add: new len window_def)
qed

definition round_inv :: "u32 list \<Rightarrow> u32 list \<Rightarrow> nat \<Rightarrow> round_vars \<Rightarrow> bool" where
  "round_inv W H t v \<longleftrightarrow>
     va v = fold (fips_round W) [0..<t] H \<and> window W t (vw v) \<and>
     vfi v = (t div 20) mod 4 \<and> vfib v = t mod 20"

lemma length_5: "length s = 5 \<Longrightarrow> \<exists>a b c d e. s = [a, b, c, d, e]"
  by (auto simp: length_Suc_conv numeral_eq_Suc)

lemma round_step_inv:
  assumes inv: "round_inv (fips_schedule block) H t v" and t: "t < 80" and H: "length H = 5"
  shows "round_inv (fips_schedule block) H (Suc t) (round_step t v)"
proof -
  let ?W = "fips_schedule block"
  have "length (fold (fips_round ?W) [0..<t] H) = 5" by (simp add: H)
  then obtain a b c d e where abc: "fold (fips_round ?W) [0..<t] H = [a, b, c, d, e]"
    using length_5 by blast
  have fi: "vfi v = t div 20" using inv t by (simp add: round_inv_def)
  have win: "window ?W (Suc t) (next_w t (vw v))" "next_w t (vw v) ! (t mod 16) = ?W ! t"
    using window_next [of block t "vw v"] inv t by (auto simp: round_inv_def)
  have regs: "va (round_step t v) = fold (fips_round ?W) [0..<Suc t] H"
    using inv by (simp add: round_step_def Let_def round_inv_def abc and_MASK win(2) fi
        table_lookup [OF t] rotl32_rotl fips_round_def algebra_simps)
  have cnt: "vfi (round_step t v) = (Suc t div 20) mod 4 \<and> vfib (round_step t v) = Suc t mod 20"
    using inv t by (auto simp: round_step_def Let_def round_inv_def fi div_Suc mod_Suc)
  show ?thesis using regs cnt win(1) by (simp add: round_inv_def round_step_def Let_def)
qed

lemma rounds_inv:
  assumes "length H = 5" and "length block = 64" and "n \<le> 80"
  shows "round_inv (fips_schedule block) H n
    (fold round_step [0..<n] \<lparr>va = H, vw = load_w block, vfi = 0, vfib = 0\<rparr>)"
  using assms(3)
proof (induction n)
  case 0
  show ?case using assms by (simp add: round_inv_def load_w_words window_start)
next
  case (Suc n)
  then show ?case using assms by (auto intro: round_step_inv)
qed

lemma nextBlock_correct:
  assumes "length (h st) = 5" and "length block = 64"
  shows "sha1_nextBlock st block =
    \<lparr>h = fips_compress (h st) block, len_bits = len_bits st + 512\<rparr>"
proof -
  let ?v = "fold round_step [0..<80] \<lparr>va = h st, vw = load_w block, vfi = 0, vfib = 0\<rparr>"
  have va: "va ?v = fold (fips_round (fips_schedule block)) [0..<80] (h st)"
    using rounds_inv [OF assms, of 80] by (simp add: round_inv_def)
  have "map (\<lambda>t. h st ! t + va ?v ! t) [0..<5] = map2 (+) (h st) (va ?v)"
    using assms(1) unfolding va by (intro nth_equalityI) simp_all
  then show ?thesis
    by (simp add: sha1_nextBlock_def Let_def fips_compress_def va)
qed

section \<open>Padding and the message loop\<close>

lemma length_8: "length s = 8 \<Longrightarrow> \<exists>a b c d e f g i. s = [a, b, c, d, e, f, g, i]"
  by (auto simp: length_Suc_conv numeral_eq_Suc)

lemma store_length_correct:
  assumes "length lb = 64"
  shows "store_length lb n = take 56 lb @ store_be 8 (unat n)"
proof -
  obtain c0 c1 c2 c3 c4 c5 c6 c7
    where c8: "store_le 8 (unat n) = [c0, c1, c2, c3, c4, c5, c6, c7]"
    using length_8 [OF length_store_le] by blast
  have upt: "[0..<8] = [0, 1, 2, 3, 4, 5, 6, 7 :: nat]" by code_simp
  obtain lo hi where lb: "lb = lo @ hi" "length lo = 56" "length hi = 8"
    using that [of "take 56 lb" "drop 56 lb"] assms by simp
  then obtain d0 d1 d2 d3 d4 d5 d6 d7 where "hi = [d0, d1, d2, d3, d4, d5, d6, d7]"
    using length_8 by blast
  with lb(1,2) show ?thesis
    by (simp add: store_length_def store_be_def upt c8 list_update_append)
qed

lemma and_7_mult_8: "unat len = 8 * r \<Longrightarrow> (len :: u16) AND 7 = 0"
proof -
  assume r: "unat len = 8 * r"
  have "(7 :: u16) = mask 3" by (simp add: mask_eq_decr_exp)
  then have "unat (len AND 7) = take_bit 3 (unat len)"
    by (simp only: take_bit_eq_mask [symmetric] unsigned_take_bit_eq)
  also have "\<dots> = 0" by (simp add: r take_bit_eq_mod)
  finally show ?thesis by (simp only: unat_eq_zero)
qed

definition fips_tail :: "byte list \<Rightarrow> u64 \<Rightarrow> byte list" where
  "fips_tail part n =
     part @ [0x80] @ replicate ((119 - length part) mod 64) 0 @ store_be 8 (unat n)"

lemma fips_tail_short:
  "length part < 56 \<Longrightarrow> fips_tail part n =
   (part @ [0x80] @ replicate (55 - length part) 0) @ store_be 8 (unat n)"
proof -
  assume "length part < 56"
  then have "119 - length part = 55 - length part + 64" "55 - length part < 64" by simp_all
  then have "(119 - length part) mod 64 = 55 - length part" by (metis mod_add_self2 mod_less)
  then show ?thesis by (simp add: fips_tail_def)
qed

lemma fips_tail_long:
  assumes "56 \<le> length part" and "length part < 64"
  shows "fips_tail part n =
    (part @ [0x80] @ replicate (63 - length part) 0) @ replicate 56 0 @ store_be 8 (unat n)"
proof -
  have "(119 - length part) mod 64 = (63 - length part) + 56" using assms by simp
  then show ?thesis by (simp only: fips_tail_def replicate_add append.assoc)
qed

text \<open>The last block of \<open>r\<close> bytes with the bit after them, and what \<open>sha1_lastBlock\<close> hashes.\<close>

lemma lastBlock_steps:
  fixes msg :: "byte list" and p r :: nat and st :: sha1_ctx and len :: u16
  defines "lb1 \<equiv> take r (drop p msg) @ [0x80] @ replicate (63 - r) 0"
    and "n \<equiv> len_bits st + word_of_nat (8 * r)"
  assumes st: "length (h st) = 5" and len: "unat len = 8 * r" "r < 64" and msg: "p + r \<le> length msg"
  shows "length lb1 = 64" and "sha1_lastBlock st msg p len = Inr
    (if 56 \<le> r
     then sha1_nextBlock ((sha1_nextBlock (st\<lparr>len_bits := n\<rparr>) lb1)\<lparr>len_bits := n\<rparr>) (store_length (replicate 64 0) n)
     else sha1_nextBlock (st\<lparr>len_bits := n\<rparr>) (store_length lb1 n))"
proof -
  define part where "part = take r (drop p msg)"
  have part: "length part = r" using msg by (simp add: part_def)
  define st2 where "st2 = st\<lparr>len_bits := n\<rparr>"
  show lb1: "length lb1 = 64" using part len by (simp add: lb1_def part_def)
  have noloop: "lastBlock_loop st msg p len = Inr (st, p, len)"
    using len by (subst lastBlock_loop.simps) (simp add: word_le_nat_alt)
  have ucast: "ucast len = (word_of_nat (8 * r) :: u64)"
    by (simp add: len(1) [symmetric] del: of_nat_mult)
  have nbytes: "(8 * r + 7) div 8 = r" "8 * r div 8 = r" by simp_all
  have rd: "read_bytes msg p r = Inr part" using msg by (simp add: part_def mem_ok)
  have wr: "write_bytes (replicate 64 0) 0 part = Inr (part @ replicate (64 - r) 0)"
    using part len by (simp add: mem_ok)
  have split: "replicate (64 - r) (0 :: byte) = 0 # replicate (63 - r) 0"
    using len(2) by (simp add: Suc_diff_Suc [symmetric] flip: replicate_Suc)
  have setbit: "(part @ replicate (64 - r) 0)[r := (part @ replicate (64 - r) 0) ! r OR
      drop_bit (unat (len AND 7)) 0x80] = lb1"
    unfolding split and_7_mult_8 [OF len(1)] using part
    by (simp add: lb1_def part_def [symmetric] list_update_append nth_append)
  have big: "447 < len \<longleftrightarrow> 56 \<le> r"
    using len by (auto simp: word_less_nat_alt)
  show "sha1_lastBlock st msg p len = Inr
    (if 56 \<le> r
     then sha1_nextBlock ((sha1_nextBlock (st\<lparr>len_bits := n\<rparr>) lb1)\<lparr>len_bits := n\<rparr>) (store_length (replicate 64 0) n)
     else sha1_nextBlock (st\<lparr>len_bits := n\<rparr>) (store_length lb1 n))"
    using nextBlock_correct [of st2 lb1] st lb1
    by (simp add: sha1_lastBlock_def noloop len(1) nbytes rd wr setbit big ucast
        n_def [symmetric] st2_def [symmetric] Let_def del: of_nat_mult)
      (simp add: st2_def)
qed

lemma lastBlock_correct:
  assumes st: "length (h st) = 5" and len: "unat len = 8 * r" "r < 64"
    and msg: "p + r \<le> length msg"
  shows "\<exists>st'. sha1_lastBlock st msg p len = Inr st' \<and>
    h st' = fips_blocks (h st) (fips_tail (take r (drop p msg)) (len_bits st + word_of_nat (8 * r)))"
proof -
  define part where "part = take r (drop p msg)"
  have part: "length part = r" using msg by (simp add: part_def)
  define n where "n = len_bits st + word_of_nat (8 * r)"
  define lb1 where "lb1 = part @ [0x80 :: byte] @ replicate (63 - r) 0"
  note steps = lastBlock_steps [OF st len msg, folded part_def n_def, folded lb1_def]
  show ?thesis
  proof (cases "56 \<le> r")
    case True
    have "fips_tail part n = lb1 @ (replicate 56 0 @ store_be 8 (unat n)) @ []"
      using fips_tail_long [of part n] True part len by (simp add: lb1_def)
    then have "fips_blocks (h st) (fips_tail part n) =
        fips_compress (fips_compress (h st) lb1) (replicate 56 0 @ store_be 8 (unat n))"
      by (simp only: fips_blocks_Cons steps(1) length_append length_replicate length_store_be)
        (simp add: fips_blocks_Cons [of _ _ "[]", simplified] fips_blocks_short)
    with True st steps show ?thesis
      by (simp add: nextBlock_correct store_length_correct part_def n_def)
  next
    case False
    have "56 - r = Suc (55 - r)" using False by simp
    then have "fips_tail part n = (take 56 lb1 @ store_be 8 (unat n)) @ []"
      using fips_tail_short [of part n] False part len by (simp add: lb1_def)
    then have "fips_blocks (h st) (fips_tail part n) =
        fips_compress (h st) (take 56 lb1 @ store_be 8 (unat n))"
      using steps(1) by (simp add: fips_blocks_Cons [of _ _ "[]", simplified] fips_blocks_short)
    with False st steps show ?thesis
      by (simp add: nextBlock_correct store_length_correct part_def n_def)
  qed
qed

lemma sha1_loop_correct:
  assumes "length (h st) = 5" and "unat len = 8 * m" and "p + m \<le> length msg"
  shows "\<exists>st' k len'. sha1_loop st msg p len = Inr (st', p + 64 * k, len') \<and>
    length (h st') = 5 \<and> 64 * k \<le> m \<and> m < 64 * k + 64 \<and> unat len' = 8 * (m - 64 * k) \<and>
    len_bits st' = len_bits st + word_of_nat (512 * k) \<and>
    (\<forall>rest. fips_blocks (h st) (take (64 * k) (drop p msg) @ rest) = fips_blocks (h st') rest)"
  using assms
proof (induction m arbitrary: st p len rule: less_induct)
  case (less m)
  show ?case
  proof (cases "len < 512")
    case True
    then have "m < 64" using less.prems(2) by (simp add: word_less_nat_alt)
    with True less.prems show ?thesis
      by (intro exI [of _ st] exI [of _ 0] exI [of _ len])
        (simp add: sha1_loop.simps [of st msg p len] and_not_511 [simplified])
  next
    case False
    then have m: "64 \<le> m" using less.prems(2) by (simp add: word_less_nat_alt)
    define block where "block = take 64 (drop p msg)"
    have block: "length block = 64" using m less.prems(3) by (simp add: block_def)
    define st1 where "st1 = sha1_nextBlock st block"
    have st1: "h st1 = fips_compress (h st) block" "len_bits st1 = len_bits st + 512"
      by (simp_all add: st1_def nextBlock_correct less.prems(1) block)
    have len1: "unat (len - 512) = 8 * (m - 64)"
      using False less.prems(2) m by (simp add: unat_sub word_le_nat_alt not_less)
    have "length (h st1) = 5" "p + 64 + (m - 64) \<le> length msg"
      using less.prems m by (simp_all add: st1)
    from less.IH [OF _ this(1) len1 this(2)] m obtain st' k len' where IH:
      "sha1_loop st1 msg (p + 64) (len - 512) = Inr (st', p + 64 + 64 * k, len')"
      "length (h st') = 5" "64 * k \<le> m - 64" "m - 64 < 64 * k + 64"
      "unat len' = 8 * (m - 64 - 64 * k)" "len_bits st' = len_bits st1 + word_of_nat (512 * k)"
      "\<And>rest. fips_blocks (h st1) (take (64 * k) (drop (p + 64) msg) @ rest) =
        fips_blocks (h st') rest" by auto
    have "sha1_loop st msg p len = Inr (st', p + 64 * Suc k, len')"
      using False IH(1) less.prems m
      by (subst sha1_loop.simps)
        (simp add: and_not_511 [simplified] mem_ok block_def [symmetric] st1_def [symmetric])
    moreover have "fips_blocks (h st) (take (64 * Suc k) (drop p msg) @ rest) =
        fips_blocks (h st') rest" for rest
    proof -
      have "take (64 * Suc k) (drop p msg) = block @ take (64 * k) (drop (p + 64) msg)"
        by (simp add: block_def take_add add.commute [of p])
      then show ?thesis using IH(7) [of rest] block by (simp add: fips_blocks_Cons st1)
    qed
    ultimately show ?thesis using IH m
      by (intro exI [of _ st'] exI [of _ "Suc k"] exI [of _ len']) (auto simp: st1 algebra_simps)
  qed
qed

lemma fips_pad_split:
  assumes "64 * k \<le> length msg" and "length msg < 64 * k + 64" and "8 * length msg < 2 ^ 64"
  shows "fips_pad msg =
    take (64 * k) msg @ fips_tail (drop (64 * k) msg) (word_of_nat (8 * length msg))"
proof -
  have "length msg mod 64 = length msg - 64 * k"
    using assms(1,2) by (intro mod_nat_eqI) (auto simp: mod_eq_dvd_iff_nat)
  moreover have "unat (word_of_nat (8 * length msg) :: u64) = 8 * length msg"
    using assms(3) by (simp add: unat_of_nat del: of_nat_mult)
  ultimately show ?thesis by (simp add: fips_pad_def fips_tail_def del: of_nat_mult)
qed

lemma ctx2hash_correct:
  assumes "length (h st) = 5"
  shows "sha1_ctx2hash st = concat (map (\<lambda>w. store_be 4 (unat w)) (h st))"
proof -
  have "map (\<lambda>i. store_le 4 (unat (change_endian32 (h st ! i)))) [0..<5] =
      map (\<lambda>w. store_be 4 (unat w)) (h st)"
    using assms by (intro nth_equalityI) (simp_all add: store_change_endian32)
  then show ?thesis by (simp add: sha1_ctx2hash_def)
qed

lemma sha1_correct:
  assumes len: "unat len = 8 * length msg"
  shows "sha1 msg len = Inr (fips_sha1 msg)"
proof -
  have init: "length (h sha1_init) = 5" "h sha1_init = fips_H0" "len_bits sha1_init = 0"
    by (simp_all add: sha1_init_def fips_H0_def)
  obtain st k len' where loop: "sha1_loop sha1_init msg 0 len = Inr (st, 64 * k, len')"
    "length (h st) = 5" "64 * k \<le> length msg" "length msg < 64 * k + 64"
    "unat len' = 8 * (length msg - 64 * k)" "len_bits st = word_of_nat (512 * k)"
    "\<And>rest. fips_blocks fips_H0 (take (64 * k) msg @ rest) = fips_blocks (h st) rest"
    using sha1_loop_correct [OF init(1) len, of 0 msg] by (auto simp: init(2,3) simp del: of_nat_mult)
  let ?r = "length msg - 64 * k"
  have r: "?r < 64" using loop(3,4) by simp
  have cast: "unat (ucast len' :: u16) = 8 * ?r"
    using loop(5) r by (simp add: unsigned_ucast_eq take_bit_nat_eq_self)
  have total: "len_bits st + word_of_nat (8 * ?r) = word_of_nat (8 * length msg)"
  proof -
    have "512 * k + 8 * ?r = 8 * length msg" using loop(3) by simp
    then show ?thesis by (simp only: loop(6) of_nat_add [symmetric])
  qed
  have bound: "8 * length msg < 2 ^ 64" using unsigned_less [of len, where ?'a = nat] len by simp
  obtain st' where st': "sha1_lastBlock st msg (64 * k) (ucast len') = Inr st'"
    "h st' = fips_blocks (h st) (fips_tail (drop (64 * k) msg) (word_of_nat (8 * length msg)))"
    using lastBlock_correct [OF loop(2) cast r, of "64 * k" msg] loop(3) total by auto
  have "h st' = fips_blocks fips_H0 (fips_pad msg)"
    unfolding fips_pad_split [OF loop(3,4) bound] loop(7) st'(2) ..
  moreover from this have "length (h st') = 5" by (simp add: fips_H0_def)
  ultimately show ?thesis
    using loop(1) st'(1) by (simp add: sha1_def ctx2hash_correct fips_sha1_def)
qed

text \<open>
  C17: For every message of whole bytes whose bit length fits the \<^verbatim>\<open>uint32_t\<close> argument, the
  code's SHA-1 (rolling sixteen-word schedule, round counters, in-place padding, little-endian
  loads with \<open>change_endian32\<close>) reads only inside the message and returns the twenty bytes
  FIPS 180-4 prescribes.
\<close>

theorem sha1_is_fips180:
  assumes "unat len = 8 * length msg"
  shows "sha1 msg len = Inr (fips_sha1 msg) \<and> length (fips_sha1 msg) = 20"
  using assms by (simp add: sha1_correct length_fips_sha1)

theorem sha1_is_fips180_witness:
  "unat (24 :: u32) = 8 * length (bytes_of ''abc'') \<and>
   sha1 (bytes_of ''abc'') 24 = Inr (fips_sha1 (bytes_of ''abc''))"
  using sha1_is_fips180 [of 24 "bytes_of ''abc''"] by simp

end
