(* ===== verification/Base64.thy ===== *)
theory Base64
  imports Prelude
begin

text \<open>
  The base64 encoder of \<^verbatim>\<open>cwebsocket/base64_enc.c\<close>: \<open>bit6toAscii\<close> in both of its
  compiled variants (the AVR table and the arithmetic one), the group loop and the tail of
  \<open>base64enc\<close>. The reference \<open>b64_spec\<close> is RFC 4648 over the bit string of the
  message; the encoder is proved equal to it, and decodable.
\<close>

section \<open>The code\<close>

definition base64_alphabet :: "byte list" where
  "base64_alphabet = bytes_of
     ''ABCDEFGHIJKLMNOPQRSTUVWXYZabcdefghijklmnopqrstuvwxyz0123456789+/''"

definition bit6toAscii_avr :: "byte \<Rightarrow> byte" where
  "bit6toAscii_avr a = base64_alphabet ! unat (a AND 0x3F)"

definition bit6toAscii :: "byte \<Rightarrow> byte" where
  "bit6toAscii a0 =
     (let a = a0 AND 0x3F in
      if a \<le> 25 then a + of_char CHR ''A''
      else if a \<le> 51 then a - 26 + of_char CHR ''a''
      else if a \<le> 61 then a - 52 + of_char CHR ''0''
      else if a = 62 then of_char CHR ''+''
      else of_char CHR ''/'')"

text \<open>
  The four (or fewer) six-bit values of a group. C computes in \<^verbatim>\<open>int\<close> and stores into
  \<^verbatim>\<open>uint8_t\<close>: the bytes are widened first and truncated last.
\<close>

definition int_of_byte :: "byte \<Rightarrow> u32" where
  "int_of_byte b = ucast b"

definition sext0 :: "byte \<Rightarrow> byte" where
  "sext0 s0 = ucast (drop_bit 2 (int_of_byte s0))"

definition sext1 :: "byte \<Rightarrow> byte \<Rightarrow> byte" where
  "sext1 s0 s1 = ucast ((push_bit 4 (int_of_byte s0) OR drop_bit 4 (int_of_byte s1)) AND 0x3F)"

definition sext2 :: "byte \<Rightarrow> byte \<Rightarrow> byte" where
  "sext2 s1 s2 = ucast ((push_bit 2 (int_of_byte s1) OR drop_bit 6 (int_of_byte s2)) AND 0x3F)"

definition sext3 :: "byte \<Rightarrow> byte" where
  "sext3 s2 = ucast (int_of_byte s2 AND 0x3F)"

definition sext1_last :: "byte \<Rightarrow> byte" where
  "sext1_last s0 = ucast (push_bit 4 (int_of_byte s0) AND 0x3F)"

definition sext2_last :: "byte \<Rightarrow> byte" where
  "sext2_last s1 = ucast (push_bit 2 (int_of_byte s1) AND 0x3F)"

definition b64_group :: "byte \<Rightarrow> byte \<Rightarrow> byte \<Rightarrow> byte list" where
  "b64_group s0 s1 s2 =
     map bit6toAscii [sext0 s0, sext1 s0 s1, sext2 s1 s2, sext3 s2]"

text \<open>The loop \<^verbatim>\<open>for (i = 0; i < length/3; ++i)\<close>, with \<open>n = length/3\<close>.\<close>

function b64_loop :: "byte list \<Rightarrow> nat \<Rightarrow> nat \<Rightarrow> byte list result" where
  "b64_loop src i n =
     (if i < n then
        bind_r (read_at src (i * 3 + 0)) (\<lambda>s0.
        bind_r (read_at src (i * 3 + 1)) (\<lambda>s1.
        bind_r (read_at src (i * 3 + 2)) (\<lambda>s2.
        bind_r (b64_loop src (Suc i) n) (\<lambda>out.
        Inr (b64_group s0 s1 s2 @ out)))))
      else Inr [])"
  by pat_completeness auto
termination
  by (relation "measure (\<lambda>(src, i, n). n - i)") auto

text \<open>The \<^verbatim>\<open>switch (length % 3)\<close> after the loop.\<close>

definition pad_char :: byte where
  "pad_char = of_char CHR ''=''"

definition b64_tail :: "byte list \<Rightarrow> nat \<Rightarrow> nat \<Rightarrow> byte list result" where
  "b64_tail src i r =
     (if r = 1 then
        bind_r (read_at src (i * 3 + 0)) (\<lambda>s0.
        Inr [bit6toAscii (sext0 s0), bit6toAscii (sext1_last s0), pad_char, pad_char])
      else if r = 2 then
        bind_r (read_at src (i * 3 + 0)) (\<lambda>s0.
        bind_r (read_at src (i * 3 + 1)) (\<lambda>s1.
        Inr [bit6toAscii (sext0 s0), bit6toAscii (sext1 s0 s1), bit6toAscii (sext2_last s1),
             pad_char]))
      else Inr [])"

text \<open>\<open>base64enc\<close> returns what it stores from \<^verbatim>\<open>dest\<close> on, the final zero included.\<close>

definition base64enc :: "byte list \<Rightarrow> u16 \<Rightarrow> byte list result" where
  "base64enc src len =
     (let n = unat len div 3 in
      bind_r (b64_loop src 0 n) (\<lambda>out.
      bind_r (b64_tail src n (unat len mod 3)) (\<lambda>tl.
      Inr (out @ tl @ [0]))))"

declare b64_loop.simps [simp del]

section \<open>The reference: RFC 4648 over bit strings\<close>

definition byte_bits :: "byte \<Rightarrow> bool list" where
  "byte_bits b = map (bit b) (rev [0..<8])"

definition bits_val :: "bool list \<Rightarrow> nat" where
  "bits_val bs = horner_sum of_bool 2 (rev bs)"

function sextets :: "bool list \<Rightarrow> nat list" where
  "sextets bs =
     (if bs = [] then []
      else bits_val (take 6 bs @ replicate (6 - length bs) False) # sextets (drop 6 bs))"
  by pat_completeness auto
termination
  by (relation "measure length") auto

declare sextets.simps [simp del]

definition b64_spec :: "byte list \<Rightarrow> byte list" where
  "b64_spec xs =
     (let cs = map (\<lambda>v. base64_alphabet ! v) (sextets (concat (map byte_bits xs)))
      in cs @ replicate ((4 - length cs mod 4) mod 4) pad_char)"

section \<open>Six-bit values\<close>

lemma bit6toAscii_table_aux:
  "\<forall>n \<in> set [0..<64]. bit6toAscii (word_of_nat n) = base64_alphabet ! n"
  by code_simp

lemma and_3F_bound: "unat ((a :: byte) AND 0x3F) < 64"
proof -
  have "a AND 0x3F \<le> 0x3F" by (rule word_and_le1)
  then have "unat (a AND 0x3F) \<le> unat (0x3F :: byte)" by (simp only: word_le_nat_alt)
  then show ?thesis by simp
qed

lemma bit6toAscii_mask: "bit6toAscii (a AND 0x3F) = bit6toAscii a"
  by (simp add: bit6toAscii_def and.assoc)

lemma bit6toAscii_nth: "unat a < 64 \<Longrightarrow> bit6toAscii a = base64_alphabet ! unat a"
  using bit6toAscii_table_aux [rule_format, of "unat a"] by simp

lemma bits_val_map_bit:
  "bits_val (map (bit (w :: byte)) (rev [0..<n])) = take_bit n (unat w)"
proof -
  have "bits_val (map (bit w) (rev [0..<n])) = horner_sum of_bool 2 (map (bit (unat w)) [0..<n])"
    by (simp add: bits_val_def rev_map [symmetric] bit_unsigned_iff)
      (auto intro!: arg_cong [where f = "horner_sum of_bool 2"] simp: bit_unsigned_iff
        dest: bit_imp_le_length)
  then show ?thesis by (simp add: horner_sum_bit_eq_take_bit)
qed

lemma upt_6: "rev [0..<6] = [5, 4, 3, 2, 1, 0 :: nat]" and upt_8: "rev [0..<8] = [7, 6, 5, 4, 3, 2, 1, 0 :: nat]"
  by code_simp+

lemma unat_of_bits:
  assumes "unat w < 64"
    and "[bit w 5, bit w 4, bit w 3, bit w 2, bit w 1, bit w 0] = bs"
  shows "unat (w :: byte) = bits_val bs"
proof -
  have "bits_val bs = bits_val (map (bit w) (rev [0..<6]))"
    by (simp only: upt_6 assms(2) [symmetric] list.map)
  also have "\<dots> = unat w"
    using assms(1) by (simp only: bits_val_map_bit) (simp add: take_bit_nat_eq_self)
  finally show ?thesis ..
qed

lemma byte_lt_64: "unat (w :: byte) < 64 \<longleftrightarrow> \<not> bit w 6 \<and> \<not> bit w 7"
proof
  assume w: "unat w < 64"
  have "\<not> bit (unat w) 6" "\<not> bit (unat w) 7"
    using w by (simp_all add: bit_nat_def)
  then show "\<not> bit w 6 \<and> \<not> bit w 7" by (simp add: bit_unsigned_iff)
next
  assume "\<not> bit w 6 \<and> \<not> bit w 7"
  then have "w AND 0x3F = w"
    by (intro bit_word_eqI) (auto simp: bit_simps less_Suc_eq numeral_eq_Suc)
  then show "unat w < 64" using and_3F_bound [of w] by simp
qed

lemma sext_val:
  "unat (sext0 s0) = bits_val [bit s0 7, bit s0 6, bit s0 5, bit s0 4, bit s0 3, bit s0 2]"
  "unat (sext1 s0 s1) = bits_val [bit s0 1, bit s0 0, bit s1 7, bit s1 6, bit s1 5, bit s1 4]"
  "unat (sext2 s1 s2) = bits_val [bit s1 3, bit s1 2, bit s1 1, bit s1 0, bit s2 7, bit s2 6]"
  "unat (sext3 s2) = bits_val [bit s2 5, bit s2 4, bit s2 3, bit s2 2, bit s2 1, bit s2 0]"
  "unat (sext1_last s0) = bits_val [bit s0 1, bit s0 0, False, False, False, False]"
  "unat (sext2_last s1) = bits_val [bit s1 3, bit s1 2, bit s1 1, bit s1 0, False, False]"
  by (rule unat_of_bits, simp_all add: byte_lt_64 sext0_def sext1_def sext2_def sext3_def
      sext1_last_def sext2_last_def int_of_byte_def bit_simps)+

lemma sext_bound:
  "unat (sext0 s0) < 64" "unat (sext1 s0 s1) < 64" "unat (sext2 s1 s2) < 64"
  "unat (sext3 s2) < 64" "unat (sext1_last s0) < 64" "unat (sext2_last s1) < 64"
  by (simp_all add: byte_lt_64 sext0_def sext1_def sext2_def sext3_def
      sext1_last_def sext2_last_def int_of_byte_def bit_simps)

lemmas sext_ascii = sext_bound [THEN bit6toAscii_nth]

lemma byte_bits_list:
  "byte_bits b = [bit b 7, bit b 6, bit b 5, bit b 4, bit b 3, bit b 2, bit b 1, bit b 0]"
  by (simp add: byte_bits_def upt_8)

lemma length_byte_bits [simp]: "length (byte_bits b) = 8"
  by (simp add: byte_bits_list)

lemma sextets_Nil [simp]: "sextets [] = []"
  by (subst sextets.simps) simp

lemma sextets_step:
  "bs \<noteq> [] \<Longrightarrow> sextets bs =
   bits_val (take 6 bs @ replicate (6 - length bs) False) # sextets (drop 6 bs)"
  by (subst sextets.simps) simp

text \<open>Three bytes are four sextets; one or two bytes are two or three, zero-padded.\<close>

lemma sextets_3:
  "sextets (byte_bits s0 @ byte_bits s1 @ byte_bits s2 @ bs) =
   [unat (sext0 s0), unat (sext1 s0 s1), unat (sext2 s1 s2), unat (sext3 s2)] @ sextets bs"
  by (simp add: byte_bits_list sextets_step sext_val)

lemma sextets_1: "sextets (byte_bits s0) = [unat (sext0 s0), unat (sext1_last s0)]"
  by (simp add: byte_bits_list sextets_step sext_val numeral_eq_Suc)

lemma sextets_2:
  "sextets (byte_bits s0 @ byte_bits s1) =
   [unat (sext0 s0), unat (sext1 s0 s1), unat (sext2_last s1)]"
  by (simp add: byte_bits_list sextets_step sext_val numeral_eq_Suc)

section \<open>The encoder computes RFC 4648\<close>

definition b64_chars :: "byte list \<Rightarrow> byte list" where
  "b64_chars xs = map (\<lambda>v. base64_alphabet ! v) (sextets (concat (map byte_bits xs)))"

lemma b64_chars_3: "b64_chars (s0 # s1 # s2 # xs) = b64_group s0 s1 s2 @ b64_chars xs"
  by (simp add: b64_chars_def b64_group_def sextets_3 sext_ascii)

lemma drop_3:
  assumes "i < n" and "3 * n \<le> length xs"
  shows "drop (3 * i) xs = xs ! (i * 3) # xs ! (i * 3 + 1) # xs ! (i * 3 + 2) # drop (3 * Suc i) xs"
proof -
  from assms have "i * 3 + 2 < length xs" by simp
  then show ?thesis
    by (simp add: Cons_nth_drop_Suc mult.commute [of 3] numeral_eq_Suc)
qed

lemma b64_loop_step:
  assumes "i < n" and "3 * n \<le> length src"
  shows "b64_loop src i n = bind_r (b64_loop src (Suc i) n) (\<lambda>out. Inr
    (b64_group (src ! (i * 3)) (src ! (i * 3 + 1)) (src ! (i * 3 + 2)) @ out))"
proof -
  from assms have "i * 3 < length src" "i * 3 + 1 < length src" "i * 3 + 2 < length src"
    by simp_all
  with assms(1) show ?thesis by (subst b64_loop.simps) (simp add: mem_ok)
qed

lemma b64_loop_correct:
  assumes "3 * n \<le> length src" and "i \<le> n"
  shows "\<exists>out. b64_loop src i n = Inr out \<and> length out = 4 * (n - i) \<and>
    b64_chars (drop (3 * i) src) = out @ b64_chars (drop (3 * n) src)"
  using assms(2)
proof (induction "n - i" arbitrary: i)
  case 0
  then show ?case by (subst b64_loop.simps) simp
next
  case (Suc k)
  then have i: "i < n" "k = n - Suc i" "Suc i \<le> n" by simp_all
  from Suc.hyps(1) [OF i(2,3)] obtain out where out: "b64_loop src (Suc i) n = Inr out"
    "length out = 4 * (n - Suc i)"
    "b64_chars (drop (3 * Suc i) src) = out @ b64_chars (drop (3 * n) src)" by blast
  have "b64_chars (drop (3 * i) src) =
      b64_group (src ! (i * 3)) (src ! (i * 3 + 1)) (src ! (i * 3 + 2)) @ out @
      b64_chars (drop (3 * n) src)"
    unfolding drop_3 [OF i(1) assms(1)] b64_chars_3 out(3) ..
  with i out(2) b64_loop_step [OF i(1) assms(1)] show ?case
    by (simp add: out(1) b64_group_def)
qed

lemma b64_pad:
  "replicate ((4 - length [a, b] mod 4) mod 4) c = [c, c]"
  "replicate ((4 - length [a, b, d] mod 4) mod 4) c = [c]"
proof -
  have "length [a, b] = 2" "length [a, b, d] = 3" by simp_all
  then show "replicate ((4 - length [a, b] mod 4) mod 4) c = [c, c]"
    "replicate ((4 - length [a, b, d] mod 4) mod 4) c = [c]"
    by (simp_all only:) (simp_all add: numeral_2_eq_2)
qed

lemma b64_chars_1: "b64_chars [s0] = [bit6toAscii (sext0 s0), bit6toAscii (sext1_last s0)]"
  by (simp add: b64_chars_def sextets_1 sext_ascii)

lemma b64_chars_2:
  "b64_chars [s0, s1] =
   [bit6toAscii (sext0 s0), bit6toAscii (sext1 s0 s1), bit6toAscii (sext2_last s1)]"
  by (simp add: b64_chars_def sextets_2 sext_ascii)

lemma b64_tail_correct:
  assumes len: "length src = 3 * n + r" and "r < 3"
  defines "cs \<equiv> b64_chars (drop (3 * n) src)"
  shows "b64_tail src n r = Inr (cs @ replicate ((4 - length cs mod 4) mod 4) pad_char)"
proof -
  from assms(2) consider "r = 0" | "r = 1" | "r = 2" by linarith
  then show ?thesis
  proof cases
    case 1
    with len show ?thesis by (simp add: b64_tail_def cs_def b64_chars_def)
  next
    case 2
    with len have "drop (3 * n) src = [src ! (n * 3)]"
      by (intro nth_equalityI) (simp_all add: mult.commute)
    with 2 len show ?thesis
      unfolding cs_def by (simp only: b64_chars_1 b64_pad) (simp add: b64_tail_def mem_ok)
  next
    case 3
    with len have "drop (3 * n) src = [src ! (n * 3), src ! (n * 3 + 1)]"
      by (intro nth_equalityI) (auto simp: less_Suc_eq numeral_eq_Suc mult.commute)
    with 3 len show ?thesis
      unfolding cs_def by (simp only: b64_chars_2 b64_pad) (simp add: b64_tail_def mem_ok)
  qed
qed

lemma base64enc_correct:
  assumes "length src = unat len"
  shows "base64enc src len = Inr (b64_spec src @ [0])"
proof -
  define n where "n = unat len div 3"
  have src: "length src = 3 * n + unat len mod 3" using assms by (simp add: n_def)
  obtain out where out: "b64_loop src 0 n = Inr out" "length out = 4 * n"
    "b64_chars src = out @ b64_chars (drop (3 * n) src)"
    using b64_loop_correct [of n src 0] src by auto
  have "b64_spec src = b64_chars src @
      replicate ((4 - length (b64_chars src) mod 4) mod 4) pad_char"
    by (simp add: b64_spec_def b64_chars_def)
  then have "b64_spec src = out @ b64_chars (drop (3 * n) src) @
      replicate ((4 - length (b64_chars (drop (3 * n) src)) mod 4) mod 4) pad_char"
    using out(2) by (simp add: out(3))
  moreover have "base64enc src len = bind_r (b64_loop src 0 n) (\<lambda>out.
      bind_r (b64_tail src n (unat len mod 3)) (\<lambda>tl. Inr (out @ tl @ [0])))"
    by (simp add: base64enc_def n_def Let_def)
  ultimately show ?thesis
    using out(1) b64_tail_correct [OF src] by simp
qed

lemma length_sextets: "length (sextets bs) = (length bs + 5) div 6"
proof (induction bs rule: sextets.induct)
  case (1 bs)
  show ?case
  proof (cases "bs = []")
    case False
    with 1 have "length (sextets bs) = Suc ((length bs - 6 + 5) div 6)"
      by (simp add: sextets_step)
    also have "\<dots> = (length bs + 5) div 6"
    proof -
      show ?thesis
      proof (cases "length bs \<le> 6")
        case True
        moreover have "1 \<le> length bs" using False by (cases bs) simp_all
        ultimately have "(length bs + 5) div 6 = 1" by (intro div_nat_eqI) simp_all
        with True show ?thesis by simp
      next
        case False
        then obtain m where "length bs = m + 6" using le_Suc_ex [of 6 "length bs"] by auto
        then show ?thesis by (simp add: add.commute)
      qed
    qed
    finally show ?thesis .
  qed simp
qed

lemma length_b64_spec: "length (b64_spec xs) = 4 * ((length xs + 2) div 3)"
proof -
  have "length (concat (map byte_bits xs)) = 8 * length xs"
    by (induction xs) auto
  then have "length (b64_spec xs) = (8 * length xs + 5) div 6 + (4 - (8 * length xs + 5) div 6 mod 4) mod 4"
    by (simp add: b64_spec_def Let_def length_sextets)
  also have "\<dots> = 4 * ((length xs + 2) div 3)"
  proof -
    define q r where "q = length xs div 3" and "r = length xs mod 3"
    then have n: "length xs = 3 * q + r" and "r < 3" by simp_all
    then consider "r = 0" | "r = 1" | "r = 2" by linarith
    then show ?thesis
    proof cases
      case 1
      have "(8 * (3 * q) + 5) div 6 = 4 * q" by simp
      with n 1 show ?thesis by simp
    next
      case 2
      have "(8 * (3 * q + 1) + 5) div 6 = 4 * q + 2" by simp
      moreover have "(4 * q + 2) mod 4 = 2" by presburger
      ultimately show ?thesis using n 2 by simp
    next
      case 3
      have "(8 * (3 * q + 2) + 5) div 6 = 4 * q + 3" by simp
      moreover have "(4 * q + 3) mod 4 = 3" by presburger
      ultimately show ?thesis using n 3 by simp
    qed
  qed
  finally show ?thesis .
qed

section \<open>Alphabets\<close>

text \<open>
  What the encoder needs of a six-bit alphabet: distinct characters for distinct six-bit
  values, none of them the padding character, and no dependence on the two high bits. Both
  variants of \<open>bit6toAscii\<close> provide it.
\<close>

locale alphabet6 =
  fixes enc :: "byte \<Rightarrow> byte"
  assumes enc_inj: "unat a < 64 \<Longrightarrow> unat b < 64 \<Longrightarrow> enc a = enc b \<Longrightarrow> a = b"
    and enc_not_pad: "enc a \<noteq> pad_char"
    and enc_mask: "enc (a AND 0x3F) = enc a"
begin

lemma enc_eq_iff: "enc a = enc b \<longleftrightarrow> a AND 0x3F = b AND 0x3F"
proof
  assume "enc a = enc b"
  then have "enc (a AND 0x3F) = enc (b AND 0x3F)" by (simp only: enc_mask)
  then show "a AND 0x3F = b AND 0x3F" by (rule enc_inj [OF and_3F_bound and_3F_bound])
next
  assume eq: "a AND 0x3F = b AND 0x3F"
  have "enc a = enc (a AND 0x3F)" by (simp only: enc_mask)
  also have "\<dots> = enc b" by (simp only: eq enc_mask)
  finally show "enc a = enc b" .
qed

lemma padded_inj:
  "map enc xs @ replicate k pad_char = map enc ys @ replicate l pad_char \<Longrightarrow>
   map (\<lambda>a. a AND 0x3F) xs = map (\<lambda>a. a AND 0x3F) ys \<and> k = l"
proof (induction xs arbitrary: ys)
  case Nil
  have "ys = []" using Nil by (cases ys; cases k) (auto simp: enc_not_pad [symmetric])
  with Nil show ?case by (auto dest: arg_cong [where f = length])
next
  case (Cons x xs)
  show ?case
  proof (cases ys)
    case Nil
    with Cons.prems show ?thesis by (cases l) (auto simp: enc_not_pad)
  next
    case (Cons y ys')
    with Cons.prems Cons.IH [of ys'] show ?thesis by (simp add: enc_eq_iff)
  qed
qed

end

lemma base64_alphabet_codes:
  "base64_alphabet = map word_of_nat ([65..<91] @ [97..<123] @ [48..<58] @ [43, 47])"
  by code_simp

lemma word_of_nat_byte_inj: "inj_on (word_of_nat :: nat \<Rightarrow> byte) {..<256}"
  by (rule inj_on_inverseI [where g = unat]) (simp add: unat_of_nat)

lemma alphabet_distinct: "distinct base64_alphabet" "length base64_alphabet = 64"
  "pad_char \<notin> set base64_alphabet"
proof -
  let ?ns = "[65..<91] @ [97..<123] @ [48..<58] @ [43, 47 :: nat]"
  have sub: "set (61 # ?ns) \<subseteq> {..<256}" by auto
  have dist: "distinct (61 # ?ns)" by code_simp
  from dist have "distinct (map (word_of_nat :: nat \<Rightarrow> byte) (61 # ?ns))"
    using inj_on_subset [OF word_of_nat_byte_inj sub] by (simp only: distinct_map)
  then have "word_of_nat 61 \<notin> set base64_alphabet \<and> distinct base64_alphabet"
    unfolding base64_alphabet_codes by (simp only: list.map distinct.simps simp_thms)
  moreover have "pad_char = word_of_nat 61" by code_simp
  ultimately show "distinct base64_alphabet" "pad_char \<notin> set base64_alphabet" by metis+
  show "length base64_alphabet = 64" by code_simp
qed

lemma bit6toAscii_avr_eq: "bit6toAscii_avr a = bit6toAscii a"
  using bit6toAscii_nth [OF and_3F_bound, of a]
  by (simp add: bit6toAscii_avr_def bit6toAscii_mask)

lemma bit6toAscii_table: "bit6toAscii a = base64_alphabet ! unat (a AND 0x3F)"
  by (simp add: bit6toAscii_avr_eq [symmetric] bit6toAscii_avr_def)

interpretation arith: alphabet6 bit6toAscii
proof unfold_locales
  fix a b :: byte
  assume "unat a < 64" "unat b < 64" "bit6toAscii a = bit6toAscii b"
  then have "unat a = unat b"
    using nth_eq_iff_index_eq [OF alphabet_distinct(1), of "unat a" "unat b"]
    by (simp add: bit6toAscii_nth alphabet_distinct(2))
  then show "a = b" by (rule word_unat_eq_iff [THEN iffD2])
next
  fix a :: byte
  have "bit6toAscii a \<in> set base64_alphabet"
    by (simp add: bit6toAscii_table alphabet_distinct(2) and_3F_bound)
  then show "bit6toAscii a \<noteq> pad_char" using alphabet_distinct(3) by auto
qed (simp add: bit6toAscii_mask)

interpretation avr: alphabet6 bit6toAscii_avr
  by unfold_locales (simp_all add: bit6toAscii_avr_eq arith.enc_inj arith.enc_not_pad arith.enc_mask)

section \<open>Decoding\<close>

definition b64_value :: "byte \<Rightarrow> nat" where
  "b64_value c = length (takeWhile (\<lambda>x. x \<noteq> c) base64_alphabet)"

definition six_bits :: "nat \<Rightarrow> bool list" where
  "six_bits v = map (bit v) (rev [0..<6])"

function bytes_of_bits :: "bool list \<Rightarrow> byte list" where
  "bytes_of_bits bs =
     (if length bs < 8 then []
      else word_of_nat (bits_val (take 8 bs)) # bytes_of_bits (drop 8 bs))"
  by pat_completeness auto
termination
  by (relation "measure length") auto

declare bytes_of_bits.simps [simp del]

definition b64_decode :: "byte list \<Rightarrow> byte list" where
  "b64_decode s =
     bytes_of_bits (concat (map (six_bits \<circ> b64_value) (takeWhile (\<lambda>c. c \<noteq> pad_char) s)))"

lemma b64_value_nth: "v < 64 \<Longrightarrow> b64_value (base64_alphabet ! v) = v"
proof -
  assume v: "v < 64"
  define pre where "pre = take v base64_alphabet"
  have split: "base64_alphabet = pre @ base64_alphabet ! v # drop (Suc v) base64_alphabet"
    using v by (simp add: pre_def id_take_nth_drop alphabet_distinct(2))
  with alphabet_distinct(1) have "base64_alphabet ! v \<notin> set pre"
    by (metis disjoint_iff distinct_append list.set_intros(1))
  then have "takeWhile (\<lambda>x. x \<noteq> base64_alphabet ! v) base64_alphabet = pre"
    by (subst split) (auto simp: takeWhile_append)
  with v show ?thesis by (simp add: b64_value_def pre_def alphabet_distinct(2))
qed

lemma six_bits_val:
  assumes "length bs = 6"
  shows "six_bits (bits_val bs) = bs" and "bits_val bs < 64"
proof -
  have bit: "bit (bits_val bs) i \<longleftrightarrow> i < 6 \<and> rev bs ! i" for i
    using assms by (simp add: bits_val_def bit_horner_sum_bit_iff)
  show "six_bits (bits_val bs) = bs"
    using assms by (intro nth_equalityI) (auto simp: six_bits_def bit rev_nth)
  have "take_bit 6 (bits_val bs) = bits_val bs"
    by (intro bit_eqI) (auto simp: bit_take_bit_iff bit)
  then show "bits_val bs < 64"
    using take_bit_nat_less_exp [of 6 "bits_val bs"] by simp
qed

lemma sextets_bits:
  "\<exists>k < 6. concat (map six_bits (sextets bs)) = bs @ replicate k False"
proof (induction bs rule: sextets.induct)
  case (1 bs)
  show ?case
  proof (cases "bs = []")
    case False
    let ?hd = "take 6 bs @ replicate (6 - length bs) False"
    from False 1 obtain k where k: "k < 6"
      "concat (map six_bits (sextets (drop 6 bs))) = drop 6 bs @ replicate k False" by auto
    have "concat (map six_bits (sextets bs)) = ?hd @ drop 6 bs @ replicate k False"
      using False k(2) six_bits_val(1) [of ?hd] by (simp add: sextets_step)
    then show ?thesis
      using k False by (cases "6 \<le> length bs") (auto simp: sextets_step neq_Nil_conv
          intro: exI [of _ "6 - length bs"])
  qed (auto intro: exI [of _ 0])
qed

lemma sextets_bound: "v \<in> set (sextets bs) \<Longrightarrow> v < 64"
proof (induction bs rule: sextets.induct)
  case (1 bs)
  then show ?case by (cases "bs = []") (auto simp: sextets_step six_bits_val(2))
qed

lemma alphabet_nth_not_pad: "v < 64 \<Longrightarrow> base64_alphabet ! v \<noteq> pad_char"
  using alphabet_distinct by (metis nth_mem)

lemma bytes_of_byte_bits:
  "k < 8 \<Longrightarrow> bytes_of_bits (concat (map byte_bits xs) @ replicate k False) = xs"
proof (induction xs)
  case Nil
  then show ?case by (subst bytes_of_bits.simps) simp
next
  case (Cons x xs)
  have "word_of_nat (bits_val (byte_bits x)) = x"
    by (simp add: byte_bits_def bits_val_map_bit take_bit_nat_eq_self unat_byte_bound)
  with Cons show ?case by (subst bytes_of_bits.simps) simp
qed

lemma b64_decode_spec: "b64_decode (b64_spec xs) = xs"
proof -
  let ?vs = "sextets (concat (map byte_bits xs))"
  have nopad: "takeWhile (\<lambda>c. c \<noteq> pad_char) (b64_spec xs) = map ((!) base64_alphabet) ?vs"
    by (auto simp: b64_spec_def Let_def takeWhile_append alphabet_nth_not_pad
        dest!: sextets_bound)
  have vals: "map (six_bits \<circ> b64_value) (map ((!) base64_alphabet) ?vs) = map six_bits ?vs"
    by (auto simp: b64_value_nth dest: sextets_bound)
  from sextets_bits [of "concat (map byte_bits xs)"] show ?thesis
    unfolding b64_decode_def nopad vals by (auto simp: bytes_of_byte_bits)
qed

section \<open>Properties\<close>

text \<open>
  C29: The encoder writes, for every input of \<^verbatim>\<open>length\<close> bytes, the RFC 4648 encoding with its
  padding and a final zero byte, never reading outside the input; the text has four
  characters for every started group of three bytes and decodes to the input.
\<close>

theorem base64enc_rfc4648:
  assumes "length src = unat len"
  shows "base64enc src len = Inr (b64_spec src @ [0]) \<and>
    length (b64_spec src) = 4 * ((unat len + 2) div 3) \<and> b64_decode (b64_spec src) = src"
  using base64enc_correct [OF assms] length_b64_spec [of src] b64_decode_spec [of src] assms
  by simp

theorem base64enc_rfc4648_witness:
  "base64enc [0x66, 0x6f, 0x6f, 0x62] 4 = Inr (b64_spec [0x66, 0x6f, 0x6f, 0x62] @ [0]) \<and>
   b64_spec [0x66, 0x6f, 0x6f, 0x62] = bytes_of ''Zm9vYg==''"
proof -
  have "b64_spec [0x66, 0x6f, 0x6f, 0x62] = bytes_of ''Zm9vYg==''" by code_simp
  then show ?thesis using base64enc_rfc4648 [of "[0x66, 0x6f, 0x6f, 0x62]" 4] by simp
qed

text \<open>
  The two variants of the character function, the table of the AVR build and the chain of
  comparisons of the other builds, agree on every byte and give the RFC alphabet.
\<close>

theorem bit6_variants_agree:
  "bit6toAscii_avr a = bit6toAscii a \<and> bit6toAscii a = base64_alphabet ! unat (a AND 0x3F)"
  by (simp add: bit6toAscii_avr_eq bit6toAscii_table)

end
