(* ===== verification/Frame.thy ===== *)
theory Frame
  imports Prelude
begin

text \<open>
  The frame codec of \<^verbatim>\<open>cwebsocket/websocket.c\<close>: \<open>wsMakeFrame\<close>, \<open>getPayloadLength\<close> and
  \<open>wsParseInputFrame\<close> with the in-place unmasking loop, over checked memory buffers and
  64-bit \<^verbatim>\<open>size_t\<close> values that wrap. The reference is the frame layout of RFC 6455,
  section 5.2.
\<close>

section \<open>Frame types\<close>

datatype wsFrameType =
    WS_EMPTY_FRAME | WS_ERROR_FRAME | WS_INCOMPLETE_FRAME | WS_TEXT_FRAME | WS_BINARY_FRAME
  | WS_PING_FRAME | WS_PONG_FRAME | WS_OPENING_FRAME | WS_CLOSING_FRAME

fun frame_code :: "wsFrameType \<Rightarrow> byte" where
  "frame_code WS_EMPTY_FRAME = 0xF0"
| "frame_code WS_ERROR_FRAME = 0xF1"
| "frame_code WS_INCOMPLETE_FRAME = 0xF2"
| "frame_code WS_TEXT_FRAME = 0x01"
| "frame_code WS_BINARY_FRAME = 0x02"
| "frame_code WS_PING_FRAME = 0x09"
| "frame_code WS_PONG_FRAME = 0x0A"
| "frame_code WS_OPENING_FRAME = 0xF3"
| "frame_code WS_CLOSING_FRAME = 0x08"

text \<open>The opcodes \<open>wsParseInputFrame\<close> accepts, and the cast of an opcode to the enum.\<close>

definition type_of_opcode :: "byte \<Rightarrow> wsFrameType option" where
  "type_of_opcode opcode =
     (if opcode = frame_code WS_TEXT_FRAME then Some WS_TEXT_FRAME
      else if opcode = frame_code WS_BINARY_FRAME then Some WS_BINARY_FRAME
      else if opcode = frame_code WS_CLOSING_FRAME then Some WS_CLOSING_FRAME
      else if opcode = frame_code WS_PING_FRAME then Some WS_PING_FRAME
      else if opcode = frame_code WS_PONG_FRAME then Some WS_PONG_FRAME
      else None)"

section \<open>Building a frame\<close>

text \<open>\<^verbatim>\<open>htons\<close> on the little-endian host swaps the two bytes.\<close>

definition htons :: "u16 \<Rightarrow> u16" where
  "htons x = word_of_nat (load_be (store_le 2 (unat x)))"

text \<open>The conversion of a \<^verbatim>\<open>size_t\<close> to the \<^verbatim>\<open>int\<close> return value.\<close>

definition int_of_size :: "c_size \<Rightarrow> int" where
  "int_of_size n = sint (ucast n :: u32)"

text \<open>The length field: the buffer with the header's second part, and \<^verbatim>\<open>header_length\<close>.\<close>

definition put_length :: "byte list \<Rightarrow> c_size \<Rightarrow> (byte list \<times> nat) result" where
  "put_length out dataLength =
     (if dataLength \<le> 125 then
        bind_r (write_at out 1 (ucast dataLength)) (\<lambda>out1. Inr (out1, 2))
      else if dataLength \<le> 0xFFFF then
        bind_r (write_at out 1 126) (\<lambda>out1.
        bind_r (write_bytes out1 2 (store_le 2 (unat (htons (ucast dataLength))))) (\<lambda>out2.
        Inr (out2, 4)))
      else
        bind_r (write_at out 1 127) (\<lambda>out1.
        bind_r (write_bytes out1 2 (store_le 8 (unat dataLength))) (\<lambda>out2.
        Inr (out2, 10))))"

definition wsMakeFrame ::
  "byte list option \<Rightarrow> c_size \<Rightarrow> byte list \<Rightarrow> c_size \<Rightarrow> wsFrameType \<Rightarrow> (byte list \<times> int) result" where
  "wsMakeFrame data dataLength outFrame outLength frameType =
     bind_r (assert_c (frame_code frameType < 0x10)) (\<lambda>_.
     bind_r (assert_c (dataLength > 0 \<longrightarrow> data \<noteq> None)) (\<lambda>_.
     bind_r (write_at outFrame 0 (0x80 OR frame_code frameType)) (\<lambda>out0.
     bind_r (put_length out0 dataLength) (\<lambda>(out1, header_length).
     if outLength < word_of_nat header_length + dataLength then Inr (out1, -1)
     else
       bind_r (read_bytes (case data of None \<Rightarrow> [] | Some d \<Rightarrow> d) 0 (unat dataLength)) (\<lambda>d.
       bind_r (write_bytes out1 header_length d) (\<lambda>out2.
       Inr (out2, int_of_size (word_of_nat header_length + dataLength))))))))"

section \<open>Parsing a frame\<close>

definition SIZE_MAX :: c_size where
  "SIZE_MAX = -1"

text \<open>
  The result is the payload length with the two out-parameters: the extra length bytes and
  the frame type, which the function overwrites for an incomplete or a malformed length.
\<close>

definition getPayloadLength ::
  "byte list \<Rightarrow> c_size \<Rightarrow> byte \<Rightarrow> wsFrameType \<Rightarrow> (c_size \<times> byte \<times> wsFrameType) result" where
  "getPayloadLength inputFrame inputLength extra0 frameType0 =
     bind_r (read_at inputFrame 1) (\<lambda>b1.
     let payloadLength = ucast (b1 AND 0x7F) :: c_size in
     if payloadLength = 0 then Inr (0, extra0, frameType0)
     else if (payloadLength = 0x7E \<and> inputLength < 4) \<or> (payloadLength = 0x7F \<and> inputLength < 10)
     then Inr (0, 0, WS_INCOMPLETE_FRAME)
     else
       bind_r (if payloadLength = 0x7F
               then bind_r (read_at inputFrame 3) (\<lambda>b3. Inr (b3 AND 0x80 \<noteq> 0))
               else Inr False) (\<lambda>malformed.
       if malformed then Inr (0, 0, WS_ERROR_FRAME)
       else if payloadLength = 0x7E then
         bind_r (read_bytes inputFrame 2 2) (\<lambda>bs.
         let payloadLength16b = word_of_nat (load_le bs) :: u16 in
         Inr (ucast payloadLength16b, 2, frameType0))
       else if payloadLength = 0x7F then
         bind_r (read_bytes inputFrame 2 8) (\<lambda>bs.
         let payloadLength64b = word_of_nat (load_le bs) :: u64 in
         if payloadLength64b > SIZE_MAX then Inr (0, 8, WS_ERROR_FRAME)
         else Inr (payloadLength64b, 8, frameType0))
       else Inr (payloadLength, 0, frameType0)))"

text \<open>
  The unmasking loop writes through \<^verbatim>\<open>dataPtr\<close> into the input buffer, reading the masking
  key from the same buffer in every iteration.
\<close>

function unmask_loop :: "byte list \<Rightarrow> nat \<Rightarrow> nat \<Rightarrow> nat \<Rightarrow> nat \<Rightarrow> byte list result" where
  "unmask_loop buf maskingKey dataPtr i n =
     (if i < n then
        bind_r (read_at buf (dataPtr + i)) (\<lambda>d.
        bind_r (read_at buf (maskingKey + i mod 4)) (\<lambda>k.
        bind_r (write_at buf (dataPtr + i) (d XOR k)) (\<lambda>buf'.
        unmask_loop buf' maskingKey dataPtr (Suc i) n)))
      else Inr buf)"
  by pat_completeness auto
termination
  by (relation "measure (\<lambda>(buf, k, d, i, n). n - i)") auto

declare unmask_loop.simps [simp del]

text \<open>
  The outcome of a parse: the frame type, the buffer, and the three out-parameters, \<open>None\<close>
  where the function leaves them unset. The data pointer is an offset into the buffer.
\<close>

record parsed =
  p_type :: wsFrameType
  p_buf :: "byte list"
  p_data :: "nat option"
  p_dlen :: "c_size option"
  p_flen :: "c_size option"

definition no_frame :: "wsFrameType \<Rightarrow> byte list \<Rightarrow> parsed" where
  "no_frame t buf = \<lparr>p_type = t, p_buf = buf, p_data = None, p_dlen = None, p_flen = None\<rparr>"

definition parse_payload :: "byte list \<Rightarrow> c_size \<Rightarrow> wsFrameType \<Rightarrow> parsed result" where
  "parse_payload inputFrame inputLength frameType0 =
     bind_r (getPayloadLength inputFrame inputLength 0 frameType0)
       (\<lambda>(payloadLength, extra, frameType).
     let flen = payloadLength + ucast extra + 6 in
     if payloadLength > 0 then
       if payloadLength > inputLength - 6 - ucast extra
       then Inr (no_frame WS_INCOMPLETE_FRAME inputFrame)
       else
         let maskingKey = 2 + unat extra; dataPtr = 2 + unat extra + 4 in
         bind_r (unmask_loop inputFrame maskingKey dataPtr 0 (unat payloadLength)) (\<lambda>buf.
         Inr \<lparr>p_type = frameType, p_buf = buf, p_data = Some dataPtr,
              p_dlen = Some payloadLength, p_flen = Some flen\<rparr>)
     else
       Inr \<lparr>p_type = frameType, p_buf = inputFrame, p_data = None,
            p_dlen = Some 0, p_flen = Some flen\<rparr>)"

definition wsParseInputFrame :: "byte list \<Rightarrow> c_size \<Rightarrow> parsed result" where
  "wsParseInputFrame inputFrame inputLength =
     bind_r (assert_c (inputLength \<noteq> 0)) (\<lambda>_.
     if inputLength < 2 then Inr (no_frame WS_INCOMPLETE_FRAME inputFrame)
     else
       bind_r (read_at inputFrame 0) (\<lambda>b0.
       if b0 AND 0x70 \<noteq> 0 then Inr (no_frame WS_ERROR_FRAME inputFrame)
       else if b0 AND 0x80 \<noteq> 0x80 then Inr (no_frame WS_ERROR_FRAME inputFrame)
       else
         bind_r (read_at inputFrame 1) (\<lambda>b1.
         if b1 AND 0x80 \<noteq> 0x80 then Inr (no_frame WS_ERROR_FRAME inputFrame)
         else
           case type_of_opcode (b0 AND 0x0F) of
             None \<Rightarrow> Inr (no_frame WS_ERROR_FRAME inputFrame)
           | Some frameType \<Rightarrow> parse_payload inputFrame inputLength frameType)))"

section \<open>Masking\<close>

definition mask_bytes :: "byte list \<Rightarrow> byte list \<Rightarrow> byte list" where
  "mask_bytes key data = map (\<lambda>i. data ! i XOR key ! (i mod 4)) [0..<length data]"

lemma length_mask_bytes [simp]: "length (mask_bytes key data) = length data"
  by (simp add: mask_bytes_def)

lemma mask_bytes_involution: "mask_bytes key (mask_bytes key data) = data"
  by (intro nth_equalityI) (simp_all add: mask_bytes_def xor.assoc)

lemma unmask_loop_nth:
  assumes "d + n \<le> length buf" and "k + 4 \<le> d" and "i \<le> n"
  shows "unmask_loop buf k d i n = Inr (map (\<lambda>j.
    if d + i \<le> j \<and> j < d + n then buf ! j XOR buf ! (k + (j - d) mod 4) else buf ! j)
    [0..<length buf])"
  using assms
proof (induction "n - i" arbitrary: i buf)
  case 0
  then have "i = n" by simp
  then show ?case by (subst unmask_loop.simps) (auto intro!: nth_equalityI)
next
  case (Suc m)
  then have i: "i < n" by simp
  have key: "i mod 4 < 4" "j mod 4 < 4" for j :: nat by simp_all
  let ?v = "buf ! (d + i) XOR buf ! (k + i mod 4)"
  let ?buf' = "buf[d + i := ?v]"
  have bounds: "d + i < length buf" "k + i mod 4 < length buf"
    using Suc.prems i key(1) by linarith+
  have "unmask_loop buf k d i n = unmask_loop ?buf' k d (Suc i) n"
    using i bounds by (subst unmask_loop.simps) (simp add: mem_ok)
  also have "\<dots> = Inr (map (\<lambda>j. if d + Suc i \<le> j \<and> j < d + n
      then ?buf' ! j XOR ?buf' ! (k + (j - d) mod 4) else ?buf' ! j) [0..<length ?buf'])"
    using Suc.hyps(2) Suc.prems i by (intro Suc.hyps(1)) simp_all
  also have "\<dots> = Inr (map (\<lambda>j. if d + i \<le> j \<and> j < d + n
      then buf ! j XOR buf ! (k + (j - d) mod 4) else buf ! j) [0..<length buf])"
  proof -
    have [simp]: "d + i \<noteq> k + (j - d) mod 4" for j
      using Suc.prems(2) key(2) [of "j - d"] by linarith
    have "\<not> d + Suc i \<le> d + i" "j = d + i \<or> d + Suc i \<le> j \<longleftrightarrow> d + i \<le> j" for j by auto
    with bounds i show ?thesis by (auto simp: nth_list_update)
  qed
  finally show ?case .
qed

lemma unmask_loop_correct:
  assumes "length pre = k" and "length key = 4"
  shows "unmask_loop (pre @ key @ data @ rest) k (k + 4) 0 (length data) =
    Inr (pre @ key @ mask_bytes key data @ rest)"
proof -
  let ?buf = "pre @ key @ data @ rest"
  have "unmask_loop ?buf k (k + 4) 0 (length data) = Inr (map (\<lambda>j.
    if k + 4 + 0 \<le> j \<and> j < k + 4 + length data then ?buf ! j XOR ?buf ! (k + (j - (k + 4)) mod 4)
    else ?buf ! j) [0..<length ?buf])"
    using assms by (intro unmask_loop_nth) simp_all
  also have "\<dots> = Inr (pre @ key @ mask_bytes key data @ rest)"
    using assms by (auto intro!: nth_equalityI simp: nth_append mask_bytes_def)
  finally show ?thesis .
qed

lemma unmask_loop_out_of_bounds:
  assumes "length buf < d + n" and "k + 4 \<le> d" and "i < n"
  shows "unmask_loop buf k d i n = Inl OutOfBounds"
  using assms
proof (induction "n - i" arbitrary: i buf)
  case 0
  then show ?case by simp
next
  case (Suc m)
  show ?case
  proof (cases "d + i < length buf")
    case True
    with Suc.prems have "Suc i < n" by linarith
    moreover have "k + i mod 4 < length buf"
      using True Suc.prems mod_less_divisor [of 4 i] by linarith
    ultimately show ?thesis
      using True Suc by (subst unmask_loop.simps) (simp add: mem_ok)
  next
    case False
    with Suc.prems show ?thesis by (subst unmask_loop.simps) (simp add: read_at_def)
  qed
qed

end
