(* ===== verification/Frame_Laws.thy ===== *)
theory Frame_Laws
  imports Frame
begin

text \<open>
  The laws of the frame codec. Reference: the frame layout of RFC 6455, section 5.2, with
  lengths in network byte order. Building agrees with it for every frame that fits the send
  buffer; parsing agrees with it for payloads of at most 125 bytes, and is memory safe when
  the input holds the whole header. For inputs that end inside the header, and for
  two-byte lengths, the code departs from it, and the exact behaviour is stated.
\<close>

section \<open>The reference layout\<close>

definition rfc_length_field :: "byte \<Rightarrow> nat \<Rightarrow> byte list" where
  "rfc_length_field m n =
     (if n \<le> 125 then [m OR word_of_nat n]
      else if n \<le> 65535 then (m OR 126) # store_be 2 n
      else (m OR 127) # store_be 8 n)"

definition rfc_server_frame :: "byte \<Rightarrow> byte list \<Rightarrow> byte list" where
  "rfc_server_frame opcode payload =
     [0x80 OR opcode] @ rfc_length_field 0 (length payload) @ payload"

definition rfc_client_frame :: "byte \<Rightarrow> byte list \<Rightarrow> byte list \<Rightarrow> byte list" where
  "rfc_client_frame opcode key payload =
     [0x80 OR opcode] @ rfc_length_field 0x80 (length payload) @ key @ mask_bytes key payload"

section \<open>Building\<close>

lemma store_le_htons:
  "store_le 2 (unat (htons x)) = store_be 2 (unat x)"
proof -
  let ?bs = "store_be 2 (unat x)"
  have "load_le ?bs < 2 ^ 16" using load_le_bound [of ?bs] by simp
  then have "unat (htons x) = load_le ?bs"
    by (simp add: htons_def load_be_def store_be_def unat_of_nat)
  then show ?thesis using store_load_le [of ?bs] by simp
qed

lemma unat_ucast_small: "n < 2 ^ 16 \<Longrightarrow> unat (ucast (word_of_nat n :: c_size) :: u16) = n"
  by (simp add: unsigned_ucast_eq unat_of_nat take_bit_nat_eq_self)

lemma int_of_size_small:
  assumes "unat n < 2 ^ 31"
  shows "int_of_size n = int (unat n)"
proof -
  have "unat (ucast n :: u32) = unat n"
    using assms by (simp add: unsigned_ucast_eq take_bit_nat_eq_self)
  then have "uint (ucast n :: u32) = int (unat n)" by (simp only: uint_nat)
  then have "int_of_size n = signed_take_bit 31 (int (unat n))"
    by (simp only: int_of_size_def sint_uint) simp
  also have "\<dots> = int (unat n)"
  proof (rule signed_take_bit_int_eq_self)
    have "int (unat n) < int (2 ^ 31)" using assms by (simp only: of_nat_less_iff)
    then show "int (unat n) < 2 ^ 31" by (simp only: of_nat_power of_nat_numeral)
    have "- (2 ^ 31) \<le> (0 :: int)" by simp
    then show "- (2 ^ 31) \<le> int (unat n)" by (rule order_trans) (rule of_nat_0_le_iff)
  qed
  finally show ?thesis .
qed

definition header_length :: "nat \<Rightarrow> nat" where
  "header_length n = (if n \<le> 125 then 2 else if n \<le> 65535 then 4 else 10)"

lemma length_rfc_length_field [simp]: "length (rfc_length_field m n) = header_length n - 1"
  by (simp add: rfc_length_field_def header_length_def)

lemma length_2: "length s = 2 \<Longrightarrow> \<exists>a b. s = [a, b]"
  by (auto simp: length_Suc_conv numeral_eq_Suc)

lemma put_length_correct:
  assumes "n \<le> 65535" and "4 \<le> length out"
  shows "put_length out (word_of_nat n) =
    Inr (take 1 out @ rfc_length_field 0 n @ drop (header_length n) out, header_length n)"
proof -
  obtain a b c d rest where out: "out = a # b # c # d # rest"
    using assms(2) by (auto simp: Suc_le_length_iff numeral_eq_Suc)
  have n: "unat (word_of_nat n :: c_size) = n" using assms(1) by (simp add: unat_of_nat)
  have ucast: "ucast (word_of_nat n :: c_size) = (word_of_nat n :: byte)"
    using assms(1) by (simp add: unsigned_of_nat take_bit_nat_eq_self)
  obtain e f where ef: "store_be 2 n = [e, f]"
    using length_2 [OF length_store_be] by blast
  show ?thesis
  proof (cases "n \<le> 125")
    case True
    then have "(word_of_nat n :: c_size) \<le> 125" by (simp add: word_le_nat_alt n)
    with True show ?thesis
      by (simp add: put_length_def out mem_ok rfc_length_field_def header_length_def ucast)
  next
    case False
    then have "\<not> (word_of_nat n :: c_size) \<le> 125" "(word_of_nat n :: c_size) \<le> 0xFFFF"
      using assms(1) by (simp_all add: word_le_nat_alt n)
    moreover have "unat (ucast (word_of_nat n :: c_size) :: u16) = n"
      using assms(1) by (intro unat_ucast_small) simp
    ultimately show ?thesis
      using False assms(1) by (simp add: put_length_def out mem_ok rfc_length_field_def
          header_length_def store_le_htons ef)
  qed
qed

lemma wsMakeFrame_header:
  fixes t :: wsFrameType and data out :: "byte list"
  defines "out1 \<equiv> [0x80 OR frame_code t] @ rfc_length_field 0 (length data) @ drop (header_length (length data)) out"
  assumes t: "frame_code t < 0x10" and n: "length data \<le> 65535" and cap: "cap < 2 ^ 31" and out: "4 \<le> length out"
  shows "wsMakeFrame (Some data) (word_of_nat (length data)) out (word_of_nat cap) t =
      (if cap < header_length (length data) + length data then Inr (out1, -1)
       else bind_r (write_bytes out1 (header_length (length data)) data)
         (\<lambda>out2. Inr (out2, int (header_length (length data) + length data))))"
proof -
  let ?n = "length data" and ?h = "header_length (length data)"
  have h: "?h \<le> 4" "2 \<le> ?h" using n by (simp_all add: header_length_def)
  have sz: "unat (word_of_nat ?n :: c_size) = ?n" "unat (word_of_nat (?h + ?n) :: c_size) = ?h + ?n"
    using n h by (simp_all add: unat_of_nat del: of_nat_add)
  have sum: "word_of_nat ?h + word_of_nat ?n = (word_of_nat (?h + ?n) :: c_size)" by simp
  have capn: "unat (word_of_nat cap :: c_size) = cap" using cap by (simp add: unat_of_nat)
  define out0 where "out0 = out[0 := 0x80 OR frame_code t]"
  obtain b bs where "out = b # bs" using out by (cases out) auto
  then have out0: "length out0 = length out" "take 1 out0 = [0x80 OR frame_code t]"
    and drop0: "0 < k \<Longrightarrow> drop k out0 = drop k out" for k
    by (cases k; simp add: out0_def)+
  have put: "put_length out0 (word_of_nat ?n) = Inr (out1, ?h)"
    using put_length_correct [OF n, of out0] out out0 drop0 [of ?h] h by (simp add: out1_def)
  have wr0: "write_at out 0 (0x80 OR frame_code t) = Inr out0"
    using out by (auto simp: write_at_def out0_def)
  have "int_of_size (word_of_nat (?h + ?n)) = int (?h + ?n)" if "?h + ?n \<le> cap"
    using that cap by (simp only: int_of_size_small sz)
  moreover have "wsMakeFrame (Some data) (word_of_nat ?n) out (word_of_nat cap) t =
      (if cap < ?h + ?n then Inr (out1, -1)
       else bind_r (write_bytes out1 ?h data) (\<lambda>out2. Inr (out2, int_of_size (word_of_nat (?h + ?n)))))"
    using t by (simp add: wsMakeFrame_def wr0 put sz capn word_less_nat_alt sum mem_ok
        del: of_nat_add)
  ultimately show ?thesis by simp
qed

lemma wsMakeFrame_correct:
  fixes t :: wsFrameType
  assumes t: "frame_code t < 0x10" and n: "length data \<le> 65535"
    and cap: "cap < 2 ^ 31" "cap \<le> length out" and out: "4 \<le> length out"
  shows "\<exists>out'. wsMakeFrame (Some data) (word_of_nat (length data)) out (word_of_nat cap) t =
      Inr (out', if cap < header_length (length data) + length data then -1
                 else int (header_length (length data) + length data)) \<and>
    length out' = length out \<and>
    (header_length (length data) + length data \<le> cap \<longrightarrow>
     out' = rfc_server_frame (frame_code t) data @
            drop (header_length (length data) + length data) out)"
proof -
  let ?n = "length data" and ?h = "header_length (length data)"
  let ?pre = "[0x80 OR frame_code t] @ rfc_length_field 0 ?n"
  note start = wsMakeFrame_header [OF t n cap(1) out, simplified append_assoc [symmetric]]
  have h: "length ?pre = ?h" "?h \<le> 4" using n by (simp_all add: header_length_def rfc_length_field_def)
  show ?thesis
  proof (cases "cap < ?h + ?n")
    case True
    then show ?thesis using h out by (simp add: start)
  next
    case False
    have "take ?h (?pre @ drop ?h out) = ?pre" "drop (?h + ?n) (?pre @ drop ?h out) = drop (?h + ?n) out"
      by (rule take_pre [OF h(1)], rule drop_pre [OF h(1)])
    with False cap(2) h have "write_bytes (?pre @ drop ?h out) ?h data =
        Inr (rfc_server_frame (frame_code t) data @ drop (?h + ?n) out)"
      by (simp add: mem_ok rfc_server_frame_def)
    moreover have "length (rfc_server_frame (frame_code t) data @ drop (?h + ?n) out) = length out"
      using False cap(2) h by (simp add: rfc_server_frame_def)
    ultimately show ?thesis using False by (simp add: start)
  qed
qed

lemma wsMakeFrame_huge:
  assumes t: "frame_code t < 0x10" and n: "65535 < length data" "length data < 2 ^ 63"
    and cap: "cap < 65535" and out: "10 \<le> length out"
  shows "\<exists>out'. wsMakeFrame (Some data) (word_of_nat (length data)) out (word_of_nat cap) t =
      Inr (out', -1) \<and> length out' = length out"
proof -
  let ?w = "word_of_nat (length data) :: c_size"
  have sz: "unat ?w = length data" using n(2) by (simp add: unat_of_nat)
  have sum: "unat (word_of_nat 10 + ?w) = 10 + length data"
    using n(2) by (simp add: unat_of_nat unat_word_ariths sz)
  have capn: "unat (word_of_nat cap :: c_size) = cap" using cap by (simp add: unat_of_nat)
  define out0 where "out0 = out[0 := 0x80 OR frame_code t]"
  have wr0: "write_at out 0 (0x80 OR frame_code t) = Inr out0" "length out0 = length out"
    using out by (auto simp: write_at_def out0_def)
  have big: "\<not> ?w \<le> 125" "\<not> ?w \<le> 0xFFFF" using n(1) by (simp_all add: word_le_nat_alt sz)
  obtain out1 where "put_length out0 ?w = Inr (out1, 10)" "length out1 = length out"
    using big out wr0(2) by (simp add: put_length_def mem_ok)
  with t cap n sum show ?thesis
    by (simp add: wsMakeFrame_def wr0 word_less_nat_alt capn)
qed

section \<open>Parsing\<close>

text \<open>The header with the masking key: the bytes a frame has before its payload.\<close>

definition header_size :: "byte list \<Rightarrow> nat" where
  "header_size buf =
     6 + (if buf ! 1 AND 0x7F = 0x7E then 2 else if buf ! 1 AND 0x7F = 0x7F then 8 else 0)"

lemma unat_ucast_byte [simp]: "unat (ucast (b :: byte) :: c_size) = unat b"
  using unat_byte_bound [of b] by (simp add: unsigned_ucast_eq take_bit_nat_eq_self)

lemma ucast_byte_inj: "(ucast (b :: byte) :: c_size) = ucast c \<longleftrightarrow> b = c"
proof
  assume "(ucast b :: c_size) = ucast c"
  then have "unat (ucast b :: c_size) = unat (ucast c :: c_size)" by (simp only:)
  then show "b = c" by (simp only: unat_ucast_byte word_unat_eq_iff)
qed simp

lemma ucast_byte_eq:
  "(ucast (b :: byte) :: c_size) = 0 \<longleftrightarrow> b = 0"
  "(ucast (b :: byte) :: c_size) = 0x7E \<longleftrightarrow> b = 0x7E"
  "(ucast (b :: byte) :: c_size) = 0x7F \<longleftrightarrow> b = 0x7F"
  using ucast_byte_inj [of b 0] ucast_byte_inj [of b "0x7E"] ucast_byte_inj [of b "0x7F"] by simp_all

lemma and_7F_bound: "unat ((b :: byte) AND 0x7F) \<le> 127"
proof -
  have "b AND 0x7F \<le> 0x7F" by (rule word_and_le1)
  then have "unat (b AND 0x7F) \<le> unat (0x7F :: byte)" by (simp only: word_le_nat_alt)
  then show ?thesis by simp
qed

text \<open>The three encodings of the length, as the parser reads them.\<close>

lemma payload_length_short:
  assumes "1 < length buf" and "buf ! 1 AND 0x7F \<noteq> 0x7E" and "buf ! 1 AND 0x7F \<noteq> 0x7F"
  shows "getPayloadLength buf len 0 t = Inr (ucast (buf ! 1 AND 0x7F), 0, t)"
  using assms by (simp add: getPayloadLength_def mem_ok Let_def ucast_byte_eq)

lemma payload_length_16:
  assumes "4 \<le> length buf" and "buf ! 1 AND 0x7F = 0x7E" and "4 \<le> unat len"
  shows "getPayloadLength buf len 0 t =
    Inr (word_of_nat (load_le (take 2 (drop 2 buf))), 2, t)"
proof -
  have "load_le (take 2 (drop 2 buf)) < 256 ^ length (take 2 (drop 2 buf))" by (rule load_le_bound)
  then have "load_le (take 2 (drop 2 buf)) < 65536" using assms(1) by simp
  then have "ucast (word_of_nat (load_le (take 2 (drop 2 buf))) :: u16) =
      (word_of_nat (load_le (take 2 (drop 2 buf))) :: c_size)"
    by (simp add: unsigned_of_nat take_bit_nat_eq_self)
  with assms show ?thesis
    by (simp add: getPayloadLength_def mem_ok Let_def word_less_nat_alt)
qed

lemma payload_length_64:
  assumes "10 \<le> length buf" and "buf ! 1 AND 0x7F = 0x7F" and "10 \<le> unat len"
  shows "getPayloadLength buf len 0 t =
    (if buf ! 3 AND 0x80 \<noteq> 0 then Inr (0, 0, WS_ERROR_FRAME)
     else Inr (word_of_nat (load_le (take 8 (drop 2 buf))), 8, t))"
proof -
  have "\<not> w > SIZE_MAX" for w by (simp add: SIZE_MAX_def not_less word_order.extremum)
  with assms show ?thesis
    by (simp add: getPayloadLength_def mem_ok Let_def word_less_nat_alt)
qed

lemma payload_length_truncated:
  assumes "1 < length buf" and "buf ! 1 AND 0x7F = 0x7E \<and> unat len < 4 \<or>
    buf ! 1 AND 0x7F = 0x7F \<and> unat len < 10"
  shows "getPayloadLength buf len 0 t = Inr (0, 0, WS_INCOMPLETE_FRAME)"
  using assms by (auto simp: getPayloadLength_def mem_ok Let_def word_less_nat_alt)

text \<open>What the caller may rely on once the whole header has arrived.\<close>

lemma payload_length_complete:
  assumes "header_size buf \<le> unat len" and "unat len \<le> length buf"
  shows "\<exists>pl extra t'. getPayloadLength buf len 0 t = Inr (pl, extra, t') \<and>
    6 + unat extra \<le> header_size buf \<and>
    (t' = t \<and> header_size buf = 6 + unat extra \<or> t' = WS_ERROR_FRAME \<and> pl = 0)"
proof -
  consider "buf ! 1 AND 0x7F = 0x7E" | "buf ! 1 AND 0x7F = 0x7F"
    | "buf ! 1 AND 0x7F \<noteq> 0x7E \<and> buf ! 1 AND 0x7F \<noteq> 0x7F" by blast
  then show ?thesis
  proof cases
    case 1
    with assms have "4 \<le> unat len" "4 \<le> length buf" by (simp_all add: header_size_def)
    with 1 show ?thesis by (simp add: payload_length_16 header_size_def)
  next
    case 2
    with assms have "10 \<le> unat len" "10 \<le> length buf" by (simp_all add: header_size_def)
    with 2 show ?thesis by (simp add: payload_length_64 header_size_def)
  next
    case 3
    with assms have "1 < length buf" by (simp add: header_size_def)
    with 3 show ?thesis by (simp add: payload_length_short header_size_def)
  qed
qed

section \<open>A frame whose header has arrived\<close>

definition data_types :: "wsFrameType set" where
  "data_types = {WS_TEXT_FRAME, WS_BINARY_FRAME, WS_CLOSING_FRAME, WS_PING_FRAME, WS_PONG_FRAME}"

text \<open>
  A successful parse of a frame of type \<open>t\<close>: the payload of \<open>n\<close> bytes follows the header,
  lies inside the input, and is unmasked in place; nothing else of the buffer changes.
\<close>

definition frame_at :: "byte list \<Rightarrow> nat \<Rightarrow> wsFrameType \<Rightarrow> nat \<Rightarrow> parsed \<Rightarrow> bool" where
  "frame_at buf len t n r \<longleftrightarrow>
     (let hs = header_size buf; key = take 4 (drop (hs - 4) buf) in
      p_type r = t \<and> hs + n \<le> len \<and>
      p_dlen r = Some (word_of_nat n) \<and> p_flen r = Some (word_of_nat (hs + n)) \<and>
      p_data r = (if n = 0 then None else Some hs) \<and>
      p_buf r = take hs buf @ mask_bytes key (take n (drop hs buf)) @ drop (hs + n) buf)"

lemma frame_at_length: "frame_at buf len t n r \<Longrightarrow> len \<le> length buf \<Longrightarrow> length (p_buf r) = length buf"
  by (auto simp: frame_at_def Let_def)

lemma unmask_in_place:
  assumes "hs + n \<le> length buf" and "6 \<le> hs"
  shows "unmask_loop buf (hs - 4) hs 0 n = Inr
    (take hs buf @ mask_bytes (take 4 (drop (hs - 4) buf)) (take n (drop hs buf)) @ drop (hs + n) buf)"
proof -
  let ?pre = "take (hs - 4) buf" and ?key = "take 4 (drop (hs - 4) buf)"
  let ?data = "take n (drop hs buf)" and ?rest = "drop (hs + n) buf"
  have hs: "hs - 4 + 4 = hs" using assms(2) by simp
  have th: "take hs buf = ?pre @ ?key" using take_add [of "hs - 4" 4 buf] by (simp only: hs)
  have dh: "drop hs buf = ?data @ ?rest"
    by (metis add.commute append_take_drop_id drop_drop)
  have buf: "buf = ?pre @ ?key @ ?data @ ?rest"
    by (metis append.assoc append_take_drop_id dh th)
  have len: "length ?pre = hs - 4" "length ?key = 4" "length ?data = n" using assms by auto
  have "unmask_loop (?pre @ ?key @ ?data @ ?rest) (hs - 4) (hs - 4 + 4) 0 (length ?data) =
      Inr (?pre @ ?key @ mask_bytes ?key ?data @ ?rest)"
    by (rule unmask_loop_correct [OF len(1,2)])
  then show ?thesis by (simp only: buf [symmetric] len(3) hs th append.assoc)
qed

lemma parse_payload_frame:
  assumes gpl: "getPayloadLength buf len 0 t = Inr (pl, extra, t)"
    and h: "header_size buf = 6 + unat extra"
    and hs: "header_size buf \<le> unat len" and buf: "unat len \<le> length buf"
  shows "unat len < header_size buf + unat pl \<Longrightarrow>
      parse_payload buf len t = Inr (no_frame WS_INCOMPLETE_FRAME buf)"
    and "header_size buf + unat pl \<le> unat len \<Longrightarrow>
      \<exists>r. parse_payload buf len t = Inr r \<and> frame_at buf (unat len) t (unat pl) r"
proof -
  let ?e = "unat extra"
  have room: "unat (len - 6 - ucast extra) = unat len - 6 - ?e"
    using h hs by (simp add: unat_sub word_le_nat_alt)
  {
    assume "unat len < header_size buf + unat pl"
    then have "len - 6 - ucast extra < pl" using h hs by (simp add: word_less_nat_alt room)
    moreover from this have "0 < pl" by (auto simp: word_gt_0)
    ultimately show "parse_payload buf len t = Inr (no_frame WS_INCOMPLETE_FRAME buf)"
      by (simp add: parse_payload_def gpl Let_def)
  next
    assume le: "header_size buf + unat pl \<le> unat len"
    show "\<exists>r. parse_payload buf len t = Inr r \<and> frame_at buf (unat len) t (unat pl) r"
    proof (cases "pl = 0")
      case True
      with h hs show ?thesis
        by (auto simp: parse_payload_def frame_at_def gpl Let_def mask_bytes_def)
    next
      case False
      then have pos: "0 < pl" by (auto simp: word_gt_0)
      have fits: "\<not> len - 6 - ucast extra < pl"
        using le h by (simp add: word_less_nat_alt room)
      have flen: "word_of_nat (6 + ?e + unat pl) = pl + ucast extra + 6"
        by (simp add: algebra_simps)
      have "2 + ?e = header_size buf - 4" "2 + ?e + 4 = header_size buf" by (simp_all add: h)
      moreover from this have "unmask_loop buf (2 + ?e) (2 + ?e + 4) 0 (unat pl) = Inr
          (take (6 + ?e) buf @ mask_bytes (take 4 (drop (2 + ?e) buf))
            (take (unat pl) (drop (6 + ?e) buf)) @ drop (6 + ?e + unat pl) buf)"
        using unmask_in_place [of "6 + ?e" "unat pl" buf] le buf by (simp add: h)
      ultimately show ?thesis
        using pos fits le h flen False
        by (auto simp: parse_payload_def frame_at_def gpl Let_def unat_eq_zero)
    qed
  }
qed

lemma parse_payload_complete:
  assumes hs: "header_size buf \<le> unat len" and buf: "unat len \<le> length buf"
  shows "\<exists>r. parse_payload buf len t = Inr r \<and>
    (r = no_frame WS_INCOMPLETE_FRAME buf \<or>
     (p_type r = WS_ERROR_FRAME \<and> p_buf r = buf) \<or>
     (\<exists>n. frame_at buf (unat len) t n r))"
proof -
  obtain pl extra t' where gpl: "getPayloadLength buf len 0 t = Inr (pl, extra, t')"
    and t': "t' = t \<and> header_size buf = 6 + unat extra \<or> t' = WS_ERROR_FRAME \<and> pl = 0"
    using payload_length_complete [OF assms, of t] by blast
  from t' show ?thesis
  proof
    assume a: "t' = t \<and> header_size buf = 6 + unat extra"
    then have gpl': "getPayloadLength buf len 0 t = Inr (pl, extra, t)" by (simp add: gpl)
    show ?thesis
      using parse_payload_frame [OF gpl' _ hs buf] a
      by (cases "unat len < header_size buf + unat pl") (auto simp: not_less)
  next
    assume "t' = WS_ERROR_FRAME \<and> pl = 0"
    with gpl show ?thesis by (simp add: parse_payload_def Let_def)
  qed
qed

lemma read_01:
  "2 \<le> length buf \<Longrightarrow> read_at buf 0 = Inr (buf ! 0) \<and> read_at buf 1 = Inr (buf ! 1)"
  by (auto simp: read_at_def)

lemma wsParse_data:
  assumes "2 \<le> unat len" and "2 \<le> length buf" and "t \<in> data_types"
    and "buf ! 0 = 0x80 OR frame_code t" and "buf ! 1 AND 0x80 = 0x80"
  shows "wsParseInputFrame buf len = parse_payload buf len t"
proof -
  have len: "len \<noteq> 0" "\<not> len < 2" using assms(1) by (auto simp: word_less_nat_alt)
  have "(buf ! 0 AND 0x70 = 0) \<and> (buf ! 0 AND 0x80 = 0x80) \<and> type_of_opcode (buf ! 0 AND 0x0F) = Some t"
    using assms(3) unfolding assms(4) data_types_def
    by (elim insertE emptyE) (simp_all add: type_of_opcode_def)
  with len assms(5) read_01 [OF assms(2)] show ?thesis
    by (simp add: wsParseInputFrame_def)
qed

lemma type_of_opcode_data: "type_of_opcode opc = Some t \<Longrightarrow> t \<in> data_types"
  by (auto simp: type_of_opcode_def data_types_def split: if_splits)

lemma wsParse_cases:
  assumes "len \<noteq> 0" and "unat len \<le> length buf"
  shows "wsParseInputFrame buf len = Inr (no_frame WS_ERROR_FRAME buf) \<or>
    (unat len < 2 \<and> wsParseInputFrame buf len = Inr (no_frame WS_INCOMPLETE_FRAME buf)) \<or>
    (\<exists>t \<in> data_types. 2 \<le> unat len \<and> wsParseInputFrame buf len = parse_payload buf len t)"
proof (cases "unat len < 2")
  case True
  with assms(1) show ?thesis by (simp add: wsParseInputFrame_def word_less_nat_alt)
next
  case False
  with assms read_01 [of buf] show ?thesis
    by (auto simp: wsParseInputFrame_def word_less_nat_alt dest: type_of_opcode_data
        split: option.split)
qed

section \<open>Frames of a conforming client\<close>

lemma or_and_7F: "unat (w :: byte) \<le> 127 \<Longrightarrow> (0x80 OR w) AND 0x7F = w"
proof -
  assume w: "unat w \<le> 127"
  then have "w < 2 ^ 7" by (simp add: word_less_nat_alt)
  then have "w AND mask 7 = w" by (rule less_mask_eq)
  then have "w AND 0x7F = w" by (simp add: mask_eq_decr_exp)
  then show ?thesis by (simp add: bit.conj_disj_distrib2)
qed

lemma or_and_80: "(0x80 OR w) AND 0x80 = (0x80 :: byte)"
  by (rule bit_word_eqI) (auto simp: bit_simps)

lemma unat_byte_of_nat: "n < 256 \<Longrightarrow> unat (word_of_nat n :: byte) = n"
  by (simp add: unat_of_nat)

lemma rfc_client_frame_short:
  assumes "length payload \<le> 125"
  shows "rfc_client_frame opc key payload =
    (0x80 OR opc) # (0x80 OR word_of_nat (length payload)) # key @ mask_bytes key payload"
  using assms by (simp add: rfc_client_frame_def rfc_length_field_def)

lemma header_size_short:
  assumes "buf ! 1 = 0x80 OR word_of_nat n" and "n \<le> 125"
  shows "header_size buf = 6" and "buf ! 1 AND 0x7F = word_of_nat n"
proof -
  have n: "unat (word_of_nat n :: byte) = n" using assms(2) by (simp add: unat_byte_of_nat)
  then show b: "buf ! 1 AND 0x7F = word_of_nat n" using assms by (simp add: or_and_7F)
  have "word_of_nat n \<noteq> (0x7E :: byte)" "word_of_nat n \<noteq> (0x7F :: byte)"
    using assms(2) n by (auto simp: word_unat_eq_iff simp del: unsigned_of_nat)
  then show "header_size buf = 6" unfolding header_size_def b by simp
qed

text \<open>A short header: the length in it, whether the input has room for it, and the parse.\<close>

lemma short_room:
  fixes len :: c_size
  assumes "n \<le> 125"
  shows "6 + n \<le> unat len \<Longrightarrow> \<not> len - 6 < word_of_nat n"
    and "6 \<le> unat len \<Longrightarrow> unat len < 6 + n \<Longrightarrow> len - 6 < word_of_nat n"
    and "unat len < 6 \<Longrightarrow> \<not> len - 6 < word_of_nat n"
proof -
  have sz: "unat (word_of_nat n :: c_size) = n" using assms by (simp add: unat_of_nat)
  show "\<not> len - 6 < word_of_nat n" if "6 + n \<le> unat len"
    using that by (simp add: word_less_nat_alt unat_sub word_le_nat_alt sz)
  show "len - 6 < word_of_nat n" if "6 \<le> unat len" "unat len < 6 + n"
    using that by (simp add: word_less_nat_alt unat_sub word_le_nat_alt sz)
  show "\<not> len - 6 < word_of_nat n" if "unat len < 6"
  proof -
    have "unat (len - 6) = unat len + 2 ^ 64 - 6" using that unat_sub_if' [of len 6] by simp
    then show ?thesis using assms by (simp only: word_less_nat_alt sz) simp
  qed
qed

lemma parse_short:
  assumes t: "t \<in> data_types" and b: "buf ! 0 = 0x80 OR frame_code t" "buf ! 1 = 0x80 OR word_of_nat n"
    and n: "n \<le> 125" and len: "2 \<le> unat len" "unat len \<le> length buf"
  shows "len - 6 < word_of_nat n \<Longrightarrow> 0 < n \<Longrightarrow> wsParseInputFrame buf len = Inr (no_frame WS_INCOMPLETE_FRAME buf)"
    and "\<not> len - 6 < word_of_nat n \<Longrightarrow> unmask_loop buf 2 6 0 n = Inr buf' \<Longrightarrow>
      wsParseInputFrame buf len = Inr \<lparr>p_type = t, p_buf = buf', p_data = (if n = 0 then None else Some 6),
        p_dlen = Some (word_of_nat n), p_flen = Some (word_of_nat (6 + n))\<rparr>"
proof -
  have "buf ! 1 AND 0x80 = 0x80" unfolding b(2) by (rule or_and_80)
  then have parse: "wsParseInputFrame buf len = parse_payload buf len t"
    using wsParse_data [OF len(1) _ t b(1)] len by simp
  have low: "buf ! 1 AND 0x7F = word_of_nat n" and un: "unat (word_of_nat n :: byte) = n"
    using header_size_short [OF b(2) n] n by (simp_all add: unat_byte_of_nat)
  then have "getPayloadLength buf len 0 t = Inr (ucast (buf ! 1 AND 0x7F), 0, t)"
    using len n by (intro payload_length_short) (auto simp: word_unat_eq_iff simp del: unsigned_of_nat)
  moreover have sz: "unat (word_of_nat n :: c_size) = n" using n by (simp add: unat_of_nat)
  moreover have "(ucast (buf ! 1 AND 0x7F) :: c_size) = word_of_nat n"
    unfolding low by (simp only: word_unat_eq_iff unat_ucast_byte un sz)
  ultimately have gpl: "getPayloadLength buf len 0 t = Inr (word_of_nat n, 0, t)" by simp
  have pos: "0 < (word_of_nat n :: c_size) \<longleftrightarrow> 0 < n" by (simp add: word_less_nat_alt sz)
  show "wsParseInputFrame buf len = Inr (no_frame WS_INCOMPLETE_FRAME buf)"
    if "len - 6 < word_of_nat n" "0 < n"
    using that gpl pos by (simp add: parse parse_payload_def Let_def)
  have flen: "word_of_nat n + 6 = (word_of_nat (6 + n) :: c_size)" by simp
  show "wsParseInputFrame buf len = Inr \<lparr>p_type = t, p_buf = buf', p_data = (if n = 0 then None else Some 6),
      p_dlen = Some (word_of_nat n), p_flen = Some (word_of_nat (6 + n))\<rparr>"
    if "\<not> len - 6 < word_of_nat n" "unmask_loop buf 2 6 0 n = Inr buf'"
    using that gpl pos flen unfolding parse
    by (cases "n = 0") (simp_all add: parse_payload_def Let_def sz unmask_loop.simps [of _ _ _ 0 0])
qed

lemma parse_short_frame:
  assumes t: "t \<in> data_types" and key: "length key = 4" and n: "length payload \<le> 125"
    and buf: "buf = rfc_client_frame (frame_code t) key payload @ rest"
    and len: "2 \<le> unat len" "unat len \<le> length buf"
  shows "6 + length payload \<le> unat len \<Longrightarrow>
      wsParseInputFrame buf len = Inr
        \<lparr>p_type = t, p_buf = take 6 buf @ payload @ rest,
         p_data = (if payload = [] then None else Some 6),
         p_dlen = Some (word_of_nat (length payload)),
         p_flen = Some (word_of_nat (6 + length payload))\<rparr>"
    and "6 \<le> unat len \<Longrightarrow> unat len < 6 + length payload \<Longrightarrow>
      wsParseInputFrame buf len = Inr (no_frame WS_INCOMPLETE_FRAME buf)"
    and "unat len < 6 \<Longrightarrow> payload \<noteq> [] \<Longrightarrow>
      wsParseInputFrame buf len = Inr
        \<lparr>p_type = t, p_buf = take 6 buf @ payload @ rest, p_data = Some 6,
         p_dlen = Some (word_of_nat (length payload)),
         p_flen = Some (word_of_nat (6 + length payload))\<rparr>"
proof -
  let ?n = "length payload"
  have b: "buf ! 0 = 0x80 OR frame_code t" "buf ! 1 = 0x80 OR word_of_nat ?n"
    using key n by (simp_all add: buf rfc_client_frame_short)
  note parse = parse_short [OF t b n len]
  have "length (take 2 buf) = 2" "buf = take 2 buf @ key @ mask_bytes key payload @ rest"
    "take 6 buf = take 2 buf @ key"
    using key n by (simp_all add: buf rfc_client_frame_short)
  with unmask_loop_correct [OF this(1) key, of "mask_bytes key payload" rest]
  have unmask: "unmask_loop buf 2 6 0 ?n = Inr (take 6 buf @ payload @ rest)"
    by (simp add: mask_bytes_involution)
  show "wsParseInputFrame buf len = Inr \<lparr>p_type = t, p_buf = take 6 buf @ payload @ rest,
         p_data = (if payload = [] then None else Some 6),
         p_dlen = Some (word_of_nat ?n), p_flen = Some (word_of_nat (6 + ?n))\<rparr>"
    if "6 + ?n \<le> unat len"
    using parse(2) [OF short_room(1) [OF n that] unmask] by simp
  show "wsParseInputFrame buf len = Inr (no_frame WS_INCOMPLETE_FRAME buf)"
    if "6 \<le> unat len" "unat len < 6 + ?n"
    using that by (intro parse(1) short_room(2) n) auto
  show "wsParseInputFrame buf len = Inr \<lparr>p_type = t, p_buf = take 6 buf @ payload @ rest, p_data = Some 6,
         p_dlen = Some (word_of_nat ?n), p_flen = Some (word_of_nat (6 + ?n))\<rparr>"
    if "unat len < 6" "payload \<noteq> []"
    using parse(2) [OF short_room(3) [OF n that(1)] unmask] that(2) by simp
qed

text \<open>The two-byte length: what the parser makes of a length in network byte order.\<close>

definition swapped :: "nat \<Rightarrow> nat" where
  "swapped n = n div 256 + 256 * (n mod 256)"

lemma load_le_store_be: "n < 65536 \<Longrightarrow> load_le (store_be 2 n) = swapped n"
  by (simp add: store_be_def swapped_def numeral_2_eq_2 unat_byte_of_nat div_less_iff_less_mult)

lemma rfc_client_frame_16:
  assumes "125 < length payload" and "length payload \<le> 65535"
  shows "rfc_client_frame opc key payload =
    (0x80 OR opc) # 0xFE # store_be 2 (length payload) @ key @ mask_bytes key payload"
  using assms by (simp add: rfc_client_frame_def rfc_length_field_def)

lemma parse_two_byte_length:
  assumes t: "t \<in> data_types" and key: "length key = 4"
    and n: "125 < length payload" "length payload \<le> 65535"
    and buf: "buf = rfc_client_frame (frame_code t) key payload @ rest"
    and len: "8 \<le> unat len" "unat len \<le> length buf"
  shows "unat len < 8 + swapped (length payload) \<Longrightarrow>
      wsParseInputFrame buf len = Inr (no_frame WS_INCOMPLETE_FRAME buf)"
    and "8 + swapped (length payload) \<le> unat len \<Longrightarrow>
      \<exists>r. wsParseInputFrame buf len = Inr r \<and>
          frame_at buf (unat len) t (swapped (length payload)) r"
proof -
  let ?n = "length payload"
  obtain e f where ef: "store_be 2 ?n = [e, f]" using length_2 [OF length_store_be] by blast
  have b: "buf ! 0 = 0x80 OR frame_code t" "buf ! 1 = 0xFE" "take 2 (drop 2 buf) = store_be 2 ?n"
    and blen: "8 \<le> length buf"
    using len by (simp_all add: buf rfc_client_frame_16 [OF n] ef numeral_2_eq_2)
  have parse: "wsParseInputFrame buf len = parse_payload buf len t"
    using wsParse_data [OF _ _ t b(1), of len] len blen by (simp add: b(2) [simplified])
  have gpl: "getPayloadLength buf len 0 t = Inr (word_of_nat (swapped ?n), 2, t)"
  proof -
    have "buf ! 1 AND 0x7F = 0x7E" by (simp only: b(2)) simp
    from payload_length_16 [OF _ this, of len t] show ?thesis
      using len blen n(2) by (simp add: b(3) load_le_store_be)
  qed
  have hs: "header_size buf = 8" by (simp only: header_size_def b(2)) simp
  have sz: "unat (word_of_nat (swapped ?n) :: c_size) = swapped ?n"
  proof -
    have "swapped ?n < 65536"
      using n(2) load_le_bound [of "store_be 2 ?n"] by (simp add: load_le_store_be)
    then show ?thesis by (simp add: unat_of_nat)
  qed
  note frame = parse_payload_frame [OF gpl _ _ len(2), unfolded hs sz]
  show "unat len < 8 + swapped ?n \<Longrightarrow>
      wsParseInputFrame buf len = Inr (no_frame WS_INCOMPLETE_FRAME buf)"
    using frame(1) len(1) by (simp add: parse)
  show "8 + swapped ?n \<le> unat len \<Longrightarrow>
      \<exists>r. wsParseInputFrame buf len = Inr r \<and> frame_at buf (unat len) t (swapped ?n) r"
    using frame(2) len(1) by (simp add: parse)
qed

lemma wsMakeFrame_buffer:
  assumes "length data < 2 ^ 63" and "length out = 16001" and "t \<in> data_types"
  shows "\<exists>out' r. wsMakeFrame (Some data) (word_of_nat (length data)) out 16000 t = Inr (out', r) \<and>
    length out' = 16001 \<and> (r = -1 \<longleftrightarrow> 15996 < length data) \<and>
    (length data \<le> 15996 \<longrightarrow> r = int (header_length (length data) + length data) \<and>
     take (nat r) out' = rfc_server_frame (frame_code t) data)"
proof (cases "length data \<le> 65535")
  case True
  let ?h = "header_length (length data)"
  have t: "frame_code t < 0x10" using assms(3) by (auto simp: data_types_def)
  have h: "16000 < ?h + length data \<longleftrightarrow> 15996 < length data"
    by (simp add: header_length_def)
  have frame: "length (rfc_server_frame (frame_code t) data) = ?h + length data"
    by (simp add: rfc_server_frame_def header_length_def)
  obtain out' where "wsMakeFrame (Some data) (word_of_nat (length data)) out 16000 t =
      Inr (out', if 16000 < ?h + length data then -1 else int (?h + length data))"
    "length out' = 16001" "?h + length data \<le> 16000 \<longrightarrow>
     out' = rfc_server_frame (frame_code t) data @ drop (?h + length data) out"
    using wsMakeFrame_correct [OF t True, of 16000 out] assms(2) by auto
  with h frame show ?thesis by auto
next
  case False
  have "frame_code t < 0x10" using assms(3) by (auto simp: data_types_def)
  with wsMakeFrame_huge [of t data 16000 out] False assms(1,2) show ?thesis by auto
qed

text \<open>The closing frame: two bytes and no payload.\<close>

lemma wsMakeFrame_closing:
  assumes "2 \<le> length out"
  shows "wsMakeFrame None 0 out 16000 WS_CLOSING_FRAME = Inr (0x88 # 0 # drop 2 out, 2)"
proof -
  obtain a b out' where "out = a # b # out'"
    using assms by (cases out; cases "tl out") auto
  moreover have "int_of_size 2 = 2" using int_of_size_small [of 2] by simp
  ultimately show ?thesis
    by (simp add: wsMakeFrame_def put_length_def mem_ok word_less_nat_alt read_bytes_def)
qed

lemma wsParse_complete:
  assumes "header_size buf \<le> unat len" and "unat len \<le> length buf"
  shows "\<exists>r. wsParseInputFrame buf len = Inr r \<and> length (p_buf r) = length buf \<and>
    (p_type r \<in> data_types \<longrightarrow> (\<exists>n. frame_at buf (unat len) (p_type r) n r)) \<and>
    (p_type r \<notin> data_types \<longrightarrow> p_type r \<in> {WS_ERROR_FRAME, WS_INCOMPLETE_FRAME} \<and> p_buf r = buf)"
proof -
  have "len \<noteq> 0" using assms(1) by (auto simp: header_size_def)
  from wsParse_cases [OF this assms(2)] show ?thesis
  proof (elim disjE bexE conjE)
    fix t assume t: "t \<in> data_types" and parse: "wsParseInputFrame buf len = parse_payload buf len t"
    obtain r where r: "parse_payload buf len t = Inr r" "r = no_frame WS_INCOMPLETE_FRAME buf \<or>
        (p_type r = WS_ERROR_FRAME \<and> p_buf r = buf) \<or> (\<exists>n. frame_at buf (unat len) t n r)"
      using parse_payload_complete [OF assms, of t] by blast
    from r(2) have "length (p_buf r) = length buf \<and>
        (p_type r \<in> data_types \<longrightarrow> (\<exists>n. frame_at buf (unat len) (p_type r) n r)) \<and>
        (p_type r \<notin> data_types \<longrightarrow>
         p_type r \<in> {WS_ERROR_FRAME, WS_INCOMPLETE_FRAME} \<and> p_buf r = buf)"
    proof (elim disjE exE conjE)
      fix n assume f: "frame_at buf (unat len) t n r"
      then have "p_type r = t" by (simp add: frame_at_def Let_def)
      with f t frame_at_length [OF f assms(2)] show ?thesis by blast
    qed (simp_all add: no_frame_def data_types_def)
    with r(1) parse show ?thesis by simp
  qed (simp_all add: no_frame_def data_types_def)
qed

text \<open>
  A frame of which only the first \<open>len\<close> bytes are in the buffer; what follows them there
  is not part of the input.
\<close>

lemma parse_received:
  assumes t: "t \<in> data_types" and key: "length key = 4" and n: "length payload \<le> 125"
    and len: "2 \<le> unat len" "unat len \<le> length buf"
    and pre: "take (unat len) buf = take (unat len) (rfc_client_frame (frame_code t) key payload @ rest)"
  shows "6 + length payload \<le> unat len \<Longrightarrow>
      wsParseInputFrame buf len = Inr
        \<lparr>p_type = t, p_buf = take 6 buf @ payload @ drop (6 + length payload) buf,
         p_data = (if payload = [] then None else Some 6),
         p_dlen = Some (word_of_nat (length payload)),
         p_flen = Some (word_of_nat (6 + length payload))\<rparr>"
    and "6 \<le> unat len \<Longrightarrow> unat len < 6 + length payload \<Longrightarrow>
      wsParseInputFrame buf len = Inr (no_frame WS_INCOMPLETE_FRAME buf)"
    and "unat len < 6 \<Longrightarrow> 6 + length payload \<le> length buf \<Longrightarrow>
      \<exists>b. wsParseInputFrame buf len = Inr
        \<lparr>p_type = t, p_buf = b, p_data = (if payload = [] then None else Some 6),
         p_dlen = Some (word_of_nat (length payload)),
         p_flen = Some (word_of_nat (6 + length payload))\<rparr> \<and> length b = length buf"
proof -
  let ?n = "length payload" and ?f = "rfc_client_frame (frame_code t) key payload"
  have flen: "length ?f = 6 + ?n" using key n by (simp add: rfc_client_frame_short)
  have nth: "buf ! i = (?f @ rest) ! i" if "i < unat len" for i
    using that pre by (metis nth_take)
  have b: "buf ! 0 = 0x80 OR frame_code t" "buf ! 1 = 0x80 OR word_of_nat ?n"
    using nth [of 0] nth [of 1] len(1) n by (simp_all add: rfc_client_frame_short)
  note parse = parse_short [OF t b n len]
  show "wsParseInputFrame buf len = Inr \<lparr>p_type = t, p_buf = take 6 buf @ payload @ drop (6 + ?n) buf,
         p_data = (if payload = [] then None else Some 6),
         p_dlen = Some (word_of_nat ?n), p_flen = Some (word_of_nat (6 + ?n))\<rparr>"
    if whole: "6 + ?n \<le> unat len"
  proof -
    have "take (6 + ?n) buf = take (6 + ?n) (?f @ rest)"
      using arg_cong [OF pre, of "take (6 + ?n)"] whole by (simp add: min_absorb1 flen)
    then have "buf = ?f @ drop (6 + ?n) buf" using flen by (metis append_take_drop_id append_eq_conv_conj)
    from parse_short_frame(1) [OF t key n this len whole] show ?thesis .
  qed
  show "wsParseInputFrame buf len = Inr (no_frame WS_INCOMPLETE_FRAME buf)"
    if "6 \<le> unat len" "unat len < 6 + ?n"
    using that by (intro parse(1) short_room(2) n) auto
  show "\<exists>b. wsParseInputFrame buf len = Inr \<lparr>p_type = t, p_buf = b, p_data = (if payload = [] then None else Some 6),
         p_dlen = Some (word_of_nat ?n), p_flen = Some (word_of_nat (6 + ?n))\<rparr> \<and> length b = length buf"
    if cut: "unat len < 6" "6 + ?n \<le> length buf"
  proof -
    obtain b where "unmask_loop buf 2 6 0 ?n = Inr b" "length b = length buf"
      using unmask_loop_nth [of 6 ?n buf 2 0] cut(2) by simp
    with parse(2) [OF short_room(3) [OF n cut(1)]] show ?thesis by (intro exI [of _ b]) simp
  qed
qed

lemma parse_one_byte:
  assumes "unat len = 1"
  shows "wsParseInputFrame buf len = Inr (no_frame WS_INCOMPLETE_FRAME buf)"
proof -
  have "len \<noteq> 0" "len < 2" using assms by (auto simp: word_less_nat_alt)
  then show ?thesis by (simp add: wsParseInputFrame_def)
qed

section \<open>Properties\<close>

text \<open>
  C24: Building into the 16001-byte send buffer with the limit 16000 of the client: the call
  never faults, fails with -1 exactly for payloads of more than 15996 bytes, and otherwise
  leaves exactly the RFC 6455 server frame in the bytes it reports.
\<close>

theorem wsMakeFrame_send_buffer:
  assumes "length data < 2 ^ 63" and "length out = 16001" and "t \<in> data_types"
  shows "\<exists>out' r. wsMakeFrame (Some data) (word_of_nat (length data)) out 16000 t = Inr (out', r) \<and>
    length out' = 16001 \<and> (r = -1 \<longleftrightarrow> 15996 < length data) \<and>
    (length data \<le> 15996 \<longrightarrow> take (nat r) out' = rfc_server_frame (frame_code t) data)"
  using wsMakeFrame_buffer [OF assms] by blast

theorem wsMakeFrame_send_buffer_witness:
  "\<exists>out' r. wsMakeFrame (Some (bytes_of ''hi'')) 2 (replicate 16001 0) 16000 WS_TEXT_FRAME =
     Inr (out', r) \<and> r \<noteq> -1 \<and> take (nat r) out' = [0x81, 2, 0x68, 0x69]"
proof -
  have "rfc_server_frame (frame_code WS_TEXT_FRAME) (bytes_of ''hi'') = [0x81, 2, 0x68, 0x69]"
    by (simp add: rfc_server_frame_def rfc_length_field_def)
  then show ?thesis
    using wsMakeFrame_send_buffer [of "bytes_of ''hi''" "replicate 16001 0" WS_TEXT_FRAME]
    by (auto simp: data_types_def simp del: replicate.simps)
qed

text \<open>
  C22: When the input holds the whole header, parsing is memory safe: it never faults, keeps
  the size of the buffer, and a frame it reports lies inside the input, with its payload
  unmasked in place and every other byte unchanged.
\<close>

theorem wsParseInputFrame_safe:
  assumes "header_size buf \<le> unat len" and "unat len \<le> length buf"
  shows "\<exists>r. wsParseInputFrame buf len = Inr r \<and> length (p_buf r) = length buf \<and>
    (p_type r \<in> data_types \<longrightarrow> (\<exists>n. frame_at buf (unat len) (p_type r) n r)) \<and>
    (p_type r \<notin> data_types \<longrightarrow> p_type r \<in> {WS_ERROR_FRAME, WS_INCOMPLETE_FRAME} \<and> p_buf r = buf)"
  using assms by (rule wsParse_complete)

theorem wsParseInputFrame_safe_witness:
  "\<exists>r. wsParseInputFrame [0x81, 0x82, 1, 2, 3, 4, 0x69, 0x6b] 8 = Inr r \<and> length (p_buf r) = 8"
  using wsParseInputFrame_safe [of "[0x81, 0x82, 1, 2, 3, 4, 0x69, 0x6b]" 8]
  by (auto simp: header_size_def)

text \<open>
  C23: Round trip with a conforming client for payloads of at most 125 bytes: once the whole
  frame is in the buffer the parser returns its type and exact length and leaves the
  unmasked payload where the frame held the masked one; with a part of the payload missing
  it reports an incomplete frame and changes nothing.
\<close>

theorem parse_client_frame:
  assumes "t \<in> data_types" and "length key = 4" and "length payload \<le> 125"
    and "6 \<le> unat len" and "unat len \<le> length (rfc_client_frame (frame_code t) key payload @ rest)"
  shows "wsParseInputFrame (rfc_client_frame (frame_code t) key payload @ rest) len =
    Inr (if unat len < 6 + length payload
         then no_frame WS_INCOMPLETE_FRAME (rfc_client_frame (frame_code t) key payload @ rest)
         else \<lparr>p_type = t,
               p_buf = [0x80 OR frame_code t, 0x80 OR word_of_nat (length payload)] @ key @ payload @ rest,
               p_data = (if payload = [] then None else Some 6),
               p_dlen = Some (word_of_nat (length payload)),
               p_flen = Some (word_of_nat (6 + length payload))\<rparr>)"
proof (cases "unat len < 6 + length payload")
  case True
  then show ?thesis using parse_short_frame(2) [OF assms(1-3) refl _ assms(5)] assms(4) by simp
next
  case False
  have "take 6 (rfc_client_frame (frame_code t) key payload @ rest) =
      [0x80 OR frame_code t, 0x80 OR word_of_nat (length payload)] @ key"
    using assms(2,3) by (simp add: rfc_client_frame_short)
  then show ?thesis
    using False parse_short_frame(1) [OF assms(1-3) refl _ assms(5)] assms(4) by simp
qed

theorem parse_client_frame_witness:
  "wsParseInputFrame (rfc_client_frame 1 [1, 2, 3, 4] (bytes_of ''hi'') @ [7]) 9 =
   Inr \<lparr>p_type = WS_TEXT_FRAME, p_buf = [0x81, 0x82, 1, 2, 3, 4, 0x68, 0x69, 7],
        p_data = Some 6, p_dlen = Some 2, p_flen = Some 8\<rparr>"
  using parse_client_frame [of WS_TEXT_FRAME "[1, 2, 3, 4]" "bytes_of ''hi''" 9 "[7]"]
  by (simp add: data_types_def rfc_client_frame_short mask_bytes_def)

text \<open>
  C39: An input that ends inside the header of a frame is not recognised as incomplete: the
  unsigned difference \<^verbatim>\<open>inputLength-6\<close> wraps, so with two to five bytes of a non-empty
  masked frame the parser reports a complete frame, longer than the input, and unmasks bytes
  of the buffer that were never received.
\<close>

theorem parse_truncated_header:
  assumes "t \<in> data_types" and "length key = 4" and "length payload \<le> 125" and "payload \<noteq> []"
    and "2 \<le> unat len" and "unat len < 6"
  shows "\<exists>r flen. wsParseInputFrame (rfc_client_frame (frame_code t) key payload @ rest) len = Inr r \<and>
    p_type r = t \<and> p_flen r = Some flen \<and> unat len < unat flen \<and>
    unat flen = 6 + length payload \<and>
    p_buf r = take 6 (rfc_client_frame (frame_code t) key payload @ rest) @ payload @ rest"
proof -
  have "unat len \<le> length (rfc_client_frame (frame_code t) key payload @ rest)"
    using assms by (simp add: rfc_client_frame_short)
  moreover have "unat (word_of_nat (6 + length payload) :: c_size) = 6 + length payload"
    using assms(3) by (simp add: unat_of_nat del: of_nat_add)
  ultimately show ?thesis
    using parse_short_frame(3) [OF assms(1-3) refl assms(5) _ assms(6,4)] assms(6) by simp
qed

theorem parse_truncated_header_witness:
  "\<exists>r flen. wsParseInputFrame (rfc_client_frame 1 [1, 2, 3, 4] (bytes_of ''hi'') @ []) 3 = Inr r \<and>
    p_type r = WS_TEXT_FRAME \<and> p_flen r = Some flen \<and> unat (3 :: c_size) < unat flen"
  using parse_truncated_header [of WS_TEXT_FRAME "[1, 2, 3, 4]" "bytes_of ''hi''" 3 "[]"]
  by (auto simp: data_types_def)

text \<open>
  C40: A two-byte payload length is read in host order although it is sent in network order:
  for every conforming frame of 126 to 65535 payload bytes the parser works with the length
  whose bytes are swapped, so it waits for bytes that do not belong to the frame or cuts the
  frame short.
\<close>

theorem parse_two_byte_length_swapped:
  assumes "t \<in> data_types" and "length key = 4"
    and "125 < length payload" and "length payload \<le> 65535"
    and "8 + length payload \<le> unat len"
    and "unat len \<le> length (rfc_client_frame (frame_code t) key payload @ rest)"
  shows "if unat len < 8 + swapped (length payload)
    then wsParseInputFrame (rfc_client_frame (frame_code t) key payload @ rest) len =
      Inr (no_frame WS_INCOMPLETE_FRAME (rfc_client_frame (frame_code t) key payload @ rest))
    else \<exists>r. wsParseInputFrame (rfc_client_frame (frame_code t) key payload @ rest) len = Inr r \<and>
      frame_at (rfc_client_frame (frame_code t) key payload @ rest) (unat len) t
        (swapped (length payload)) r"
  using parse_two_byte_length [OF assms(1-4) refl _ assms(6)] assms(5) by auto

theorem parse_two_byte_length_swapped_witness:
  "wsParseInputFrame (rfc_client_frame 1 [1, 2, 3, 4] (replicate 126 65) @ []) 134 =
   Inr (no_frame WS_INCOMPLETE_FRAME (rfc_client_frame 1 [1, 2, 3, 4] (replicate 126 65) @ []))"
proof -
  have "swapped 126 = 32256" by (simp add: swapped_def)
  then show ?thesis
    using parse_two_byte_length_swapped [of WS_TEXT_FRAME "[1, 2, 3, 4]" "replicate 126 65" 134 "[]"]
    by (simp add: data_types_def rfc_client_frame_16 del: replicate.simps)
qed

end
