(* ===== verification/Frame_Truncated.thy ===== *)
theory Frame_Truncated
  imports Frame_Laws
begin

text \<open>
  What \<open>wsParseInputFrame\<close> does with an input that ends before the masking key does: it waits,
  rejects the frame, runs out of the buffer, or reports a frame longer than the input. In no
  case does it report a frame the input holds.
\<close>

text \<open>A frame reported although it goes past the end of the input of \<open>len\<close> bytes.\<close>

definition frame_beyond :: "byte list \<Rightarrow> nat \<Rightarrow> wsFrameType \<Rightarrow> parsed \<Rightarrow> bool" where
  "frame_beyond buf len t r \<longleftrightarrow>
     (\<exists>n k. p_type r = t \<and> length (p_buf r) = length buf \<and> len < k + n \<and> k \<le> 14 \<and>
       p_dlen r = Some (word_of_nat n) \<and> p_flen r = Some (word_of_nat (k + n)) \<and>
       (n = 0 \<or> k + n \<le> length buf) \<and> p_data r = (if n = 0 then None else Some k))"

lemma frame_beyond_type: "frame_beyond buf len t r \<Longrightarrow> p_type r = t"
  by (auto simp: frame_beyond_def)

lemma frame_beyondI:
  assumes "length b = length buf" and "len < k + n" and "k \<le> 14" and "n = 0 \<or> k + n \<le> length buf"
  shows "frame_beyond buf len t \<lparr>p_type = t, p_buf = b, p_data = (if n = 0 then None else Some k),
    p_dlen = Some (word_of_nat n), p_flen = Some (word_of_nat (k + n))\<rparr>"
  unfolding frame_beyond_def using assms by (intro exI [of _ n] exI [of _ k]) simp

lemma unmask_loop_total:
  assumes "k + 4 \<le> d"
  shows "unmask_loop buf k d 0 n = Inl OutOfBounds \<or>
    (\<exists>b. unmask_loop buf k d 0 n = Inr b \<and> length b = length buf \<and> (n = 0 \<or> d + n \<le> length buf))"
proof (cases "d + n \<le> length buf")
  case True
  then show ?thesis using unmask_loop_nth [OF True assms, of 0] by simp
next
  case False
  then show ?thesis
    using unmask_loop_out_of_bounds [of buf d n k 0] assms unmask_loop.simps [of buf k d 0 0] by (cases "n = 0") auto
qed

text \<open>Once the length is known and counted as received, the payload is unmasked.\<close>

lemma parse_payload_unmasks:
  assumes gpl: "getPayloadLength buf len 0 t = Inr (word_of_nat n, extra, t)" and n: "n < 2 ^ 64"
    and all: "n = 0 \<or> \<not> len - 6 - ucast extra < word_of_nat n"
  shows "parse_payload buf len t = bind_r (unmask_loop buf (2 + unat extra) (6 + unat extra) 0 n)
    (\<lambda>b. Inr \<lparr>p_type = t, p_buf = b, p_data = (if n = 0 then None else Some (6 + unat extra)),
      p_dlen = Some (word_of_nat n), p_flen = Some (word_of_nat (6 + unat extra + n))\<rparr>)"
proof (cases "n = 0")
  case True
  then show ?thesis using gpl unmask_loop.simps [of buf "2 + unat extra" "6 + unat extra" 0 0]
    by (simp add: parse_payload_def Let_def)
next
  case False
  have un: "unat (word_of_nat n :: c_size) = n" using n by (simp add: unat_of_nat)
  have pos: "0 < (word_of_nat n :: c_size)" using False un by (simp add: word_less_nat_alt)
  have flen: "word_of_nat n + ucast extra + 6 = (word_of_nat (6 + unat extra + n) :: c_size)" by simp
  have k4: "2 + unat extra + 4 = 6 + unat extra" by simp
  show ?thesis
    unfolding parse_payload_def gpl using False all pos
    by (simp only: bind_r_simps prod.case Let_def flen k4 un if_True if_False not_False_eq_True) simp
qed

lemma parse_payload_truncated:
  assumes gpl: "getPayloadLength buf len 0 t = Inr (pl, extra, t)"
    and cut: "unat len < 6 + unat extra" and extra: "unat extra \<le> 8"
    and buf: "length buf < 2 ^ 32"
  shows "parse_payload buf len t = Inl OutOfBounds \<or>
    parse_payload buf len t = Inr (no_frame WS_INCOMPLETE_FRAME buf) \<or>
    (\<exists>r. parse_payload buf len t = Inr r \<and> frame_beyond buf (unat len) t r)"
proof -
  let ?k = "6 + unat extra" and ?n = "unat pl"
  have n: "getPayloadLength buf len 0 t = Inr (word_of_nat ?n, extra, t)" "?n < 2 ^ 64"
    using gpl unsigned_less [of pl] by simp_all
  show ?thesis
  proof (cases "?n = 0 \<or> \<not> len - 6 - ucast extra < word_of_nat ?n")
    case False
    then show ?thesis by (simp add: parse_payload_def gpl Let_def word_gt_0 unat_eq_zero)
  next
    case True
    note step = parse_payload_unmasks [OF n True]
    from unmask_loop_total [of "2 + unat extra" ?k buf ?n]
    consider "unmask_loop buf (2 + unat extra) ?k 0 ?n = Inl OutOfBounds"
      | b where "unmask_loop buf (2 + unat extra) ?k 0 ?n = Inr b" "length b = length buf"
        "?n = 0 \<or> ?k + ?n \<le> length buf" by auto
    then show ?thesis
    proof cases
      case 1
      then show ?thesis by (simp add: step)
    next
      case (2 b)
      have "unat len < ?k + ?n" "?k \<le> 14" using cut extra by simp_all
      from frame_beyondI [OF 2(2) this 2(3), of t] step 2(1) show ?thesis by (metis bind_r_simps(2))
    qed
  qed
qed

lemma parse_payload_no_length:
  "getPayloadLength buf len 0 t = Inr (0, 0, t') \<Longrightarrow>
   \<exists>r. parse_payload buf len t = Inr r \<and> p_type r = t' \<and> p_buf r = buf"
  by (simp add: parse_payload_def Let_def)

lemma parse_payload_cut:
  assumes t: "t \<in> data_types" and two: "2 \<le> unat len"
    and len: "unat len \<le> length buf" "unat len < header_size buf" and buf: "length buf < 2 ^ 32"
  shows "parse_payload buf len t = Inl OutOfBounds \<or> (\<exists>r. parse_payload buf len t = Inr r \<and>
      (p_type r \<in> {WS_ERROR_FRAME, WS_INCOMPLETE_FRAME} \<and> p_buf r = buf \<or>
       p_type r \<in> data_types \<and> frame_beyond buf (unat len) (p_type r) r))"
proof -
  have decoded: ?thesis if "getPayloadLength buf len 0 t = Inr (pl, extra, t)"
    and "header_size buf = 6 + unat extra" "unat extra \<le> 8" for pl extra
    using parse_payload_truncated [OF that(1) _ that(3) buf] that(2) len(2) t
    by (auto simp: no_frame_def dest: frame_beyond_type)
  have undecoded: ?thesis if "getPayloadLength buf len 0 t = Inr (0, 0, t')"
    and "t' \<in> {WS_ERROR_FRAME, WS_INCOMPLETE_FRAME}" for t'
    using parse_payload_no_length [OF that(1)] that(2) by auto
  consider "buf ! 1 AND 0x7F = 0x7E" "unat len < 4" | "buf ! 1 AND 0x7F = 0x7E" "4 \<le> unat len"
    | "buf ! 1 AND 0x7F = 0x7F" "unat len < 10" | "buf ! 1 AND 0x7F = 0x7F" "10 \<le> unat len"
    | "buf ! 1 AND 0x7F \<noteq> 0x7E" "buf ! 1 AND 0x7F \<noteq> 0x7F"
    by (cases "unat len < 4"; cases "unat len < 10") (auto simp: not_less)
  then show ?thesis
  proof cases
    case 1
    then show ?thesis using two len by (intro undecoded [OF payload_length_truncated]) auto
  next
    case 2
    then show ?thesis
      using len by (intro decoded [OF payload_length_16]) (simp_all add: header_size_def)
  next
    case 3
    then show ?thesis using two len by (intro undecoded [OF payload_length_truncated]) auto
  next
    case 4
    then have g: "getPayloadLength buf len 0 t =
        (if buf ! 3 AND 0x80 \<noteq> 0 then Inr (0, 0, WS_ERROR_FRAME)
         else Inr (word_of_nat (load_le (take 8 (drop 2 buf))), 8, t))"
      using len by (intro payload_length_64) simp_all
    show ?thesis
    proof (cases "buf ! 3 AND 0x80 \<noteq> 0")
      case True
      with g show ?thesis by (intro undecoded [of WS_ERROR_FRAME]) simp_all
    next
      case False
      with g 4 show ?thesis by (intro decoded [of _ 8]) (simp_all add: header_size_def)
    qed
  next
    case 5
    then show ?thesis using two len
      by (intro decoded [OF payload_length_short]) (simp_all add: header_size_def)
  qed
qed

lemma wsParse_truncated:
  assumes len: "len \<noteq> 0" "unat len \<le> length buf" "unat len < header_size buf"
    and buf: "length buf < 2 ^ 32"
  shows "wsParseInputFrame buf len = Inl OutOfBounds \<or>
    (\<exists>r. wsParseInputFrame buf len = Inr r \<and>
      (p_type r \<in> {WS_ERROR_FRAME, WS_INCOMPLETE_FRAME} \<and> p_buf r = buf \<or>
       p_type r \<in> data_types \<and> frame_beyond buf (unat len) (p_type r) r))"
  using wsParse_cases [OF len(1,2)]
proof (elim disjE bexE conjE)
  fix t assume "t \<in> data_types" "2 \<le> unat len" "wsParseInputFrame buf len = parse_payload buf len t"
  with parse_payload_cut [OF _ _ len(2,3) buf, of t] show ?thesis by simp
qed (simp_all add: no_frame_def)

end
