(* ===== verification/Handshake.thy ===== *)
theory Handshake
  imports Frame Sha1 Base64
begin

text \<open>
  The opening handshake of \<^verbatim>\<open>cwebsocket/websocket.c\<close>: parsing the HTTP upgrade request out
  of the receive buffer (\<open>wsParseHandshake\<close>, with pointers as offsets) and building the
  answer (\<open>wsGetHandshakeAnswer\<close>). Blocks from \<^verbatim>\<open>malloc\<close> are the list of their bytes with
  the size the code asks for; a write past it is \<open>HeapOverflow\<close>.
\<close>

section \<open>Constants and the handshake structure\<close>

definition rn :: "byte list" where "rn = [13, 10]"

definition connectionField :: "byte list" where "connectionField = bytes_of ''Connection: ''"
definition upgrade :: "byte list" where "upgrade = bytes_of ''upgrade''"
definition upgrade2 :: "byte list" where "upgrade2 = bytes_of ''Upgrade''"
definition upgradeField :: "byte list" where "upgradeField = bytes_of ''Upgrade: ''"
definition websocket :: "byte list" where "websocket = bytes_of ''websocket''"
definition hostField :: "byte list" where "hostField = bytes_of ''Host: ''"
definition originField :: "byte list" where "originField = bytes_of ''Origin: ''"
definition keyField :: "byte list" where "keyField = bytes_of ''Sec-WebSocket-Key: ''"
definition protocolField :: "byte list" where "protocolField = bytes_of ''Sec-WebSocket-Protocol: ''"
definition versionField :: "byte list" where "versionField = bytes_of ''Sec-WebSocket-Version: ''"
definition version :: "byte list" where "version = bytes_of ''13''"
definition secret :: "byte list" where
  "secret = bytes_of ''258EAFA5-E914-47DA-95CA-C5AB0DC85B11''"

record handshake =
  hs_host :: "byte list option"
  hs_origin :: "byte list option"
  hs_key :: "byte list option"
  hs_resource :: "byte list option"
  hs_type :: wsFrameType

definition nullHandshake :: handshake where
  "nullHandshake = \<lparr>hs_host = None, hs_origin = None, hs_key = None, hs_resource = None,
     hs_type = WS_EMPTY_FRAME\<rparr>"

definition freeHandshake :: "handshake \<Rightarrow> handshake" where
  "freeHandshake hs = nullHandshake"

section \<open>Parsing the request\<close>

text \<open>The value from offset \<open>p\<close> up to the line end; its length is kept in a \<^verbatim>\<open>uint8_t\<close>.\<close>

definition getUptoLinefeed :: "byte list \<Rightarrow> nat \<Rightarrow> byte list result" where
  "getUptoLinefeed buf p =
     (case strstr (drop p buf) rn of
        None \<Rightarrow> Inl NullDeref
      | Some d \<Rightarrow>
          let newLength = word_of_nat d :: byte in
          bind_r (assert_c (newLength \<noteq> 0)) (\<lambda>_. read_bytes buf p (unat newLength)))"

text \<open>
  \<^verbatim>\<open>sscanf(inputPtr, "GET %s HTTP/1.1\r\n", hs->resource)\<close> after the request is known to
  start with \<^verbatim>\<open>GET\<close>: the first word after white space, if there is one.
\<close>

definition sscanf_get :: "byte list \<Rightarrow> byte list option" where
  "sscanf_get s =
     (let r = dropWhile isspace (drop 3 s) in
      if r = [] then None else Some (takeWhile (\<lambda>b. \<not> isspace b) r))"

record hs_state =
  st_hs :: handshake
  connectionFlag :: bool
  upgradeFlag :: bool
  subprotocolFlag :: bool
  versionMismatch :: bool

text \<open>One iteration of the header loop before the jump to the next line.\<close>

definition parse_line :: "byte list \<Rightarrow> nat \<Rightarrow> hs_state \<Rightarrow> (nat \<times> hs_state) result" where
  "parse_line buf p st =
     (if memcmp_eq (drop p buf) hostField then
        let q = p + length hostField in
        bind_r (getUptoLinefeed buf q) (\<lambda>v.
        Inr (q, st\<lparr>st_hs := (st_hs st)\<lparr>hs_host := Some v\<rparr>\<rparr>))
      else if memcmp_eq (drop p buf) originField then
        let q = p + length originField in
        bind_r (getUptoLinefeed buf q) (\<lambda>v.
        Inr (q, st\<lparr>st_hs := (st_hs st)\<lparr>hs_origin := Some v\<rparr>\<rparr>))
      else if memcmp_eq (drop p buf) protocolField then
        Inr (p + length protocolField, st\<lparr>subprotocolFlag := True\<rparr>)
      else if memcmp_eq (drop p buf) keyField then
        let q = p + length keyField in
        bind_r (getUptoLinefeed buf q) (\<lambda>v.
        Inr (q, st\<lparr>st_hs := (st_hs st)\<lparr>hs_key := Some v\<rparr>\<rparr>))
      else if memcmp_eq (drop p buf) versionField then
        let q = p + length versionField in
        bind_r (getUptoLinefeed buf q) (\<lambda>v.
        Inr (q, if \<not> memcmp_eq (v @ [0]) version then st\<lparr>versionMismatch := True\<rparr> else st))
      else if memcmp_eq (drop p buf) connectionField then
        let q = p + length connectionField in
        bind_r (getUptoLinefeed buf q) (\<lambda>v.
        Inr (q, if strstr (map tolower v) upgrade \<noteq> None then st\<lparr>connectionFlag := True\<rparr> else st))
      else if memcmp_eq (drop p buf) upgradeField then
        let q = p + length upgradeField in
        bind_r (getUptoLinefeed buf q) (\<lambda>v.
        Inr (q, if memcmp_eq (map tolower v @ [0]) websocket then st\<lparr>upgradeFlag := True\<rparr> else st))
      else Inr (p, st))"

lemma parse_line_ge: "parse_line buf p st = Inr qst \<Longrightarrow> p \<le> fst qst"
  by (auto simp: parse_line_def Let_def bind_r_eq_Inr split: if_splits)

text \<open>The header loop; it stops at a line starting with \<^verbatim>\<open>\r\<close> or with a newline second.\<close>

function parse_lines :: "byte list \<Rightarrow> nat \<Rightarrow> nat \<Rightarrow> hs_state \<Rightarrow> hs_state result" where
  "parse_lines buf endPtr p st =
     (if p < endPtr then
        bind_r (read_at buf p) (\<lambda>c0.
        if c0 = 13 then Inr st
        else
          bind_r (read_at buf (p + 1)) (\<lambda>c1.
          if c1 = 10 then Inr st
          else
            bind_r (parse_line buf p st) (\<lambda>qst.
            case strstr (drop (fst qst) buf) rn of
              None \<Rightarrow> Inl NullDeref
            | Some d \<Rightarrow> parse_lines buf endPtr (fst qst + d + 2) (snd qst))))
      else Inr st)"
  by pat_completeness auto
termination
  by (relation "measure (\<lambda>(buf, endPtr, p, st). endPtr - p)")
    (auto dest!: parse_line_ge)

declare parse_lines.simps [simp del]

definition hs_start :: "handshake \<Rightarrow> hs_state" where
  "hs_start hs = \<lparr>st_hs = hs, connectionFlag = False, upgradeFlag = False,
     subprotocolFlag = False, versionMismatch = False\<rparr>"

text \<open>The checks after the loop.\<close>

definition hs_verdict :: "hs_state \<Rightarrow> wsFrameType" where
  "hs_verdict st =
     (if hs_host (st_hs st) = None \<or> hs_key (st_hs st) = None \<or> \<not> connectionFlag st \<or>
         \<not> upgradeFlag st \<or> subprotocolFlag st \<or> versionMismatch st
      then WS_ERROR_FRAME else WS_OPENING_FRAME)"

text \<open>
  The result is the frame type, the structure, and \<^verbatim>\<open>*frameLength\<close> where it is set. After a
  failed \<^verbatim>\<open>sscanf\<close> the resource block is allocated and its content unused: \<open>Some []\<close>.
\<close>

definition wsParseHandshake ::
  "byte list \<Rightarrow> nat \<Rightarrow> handshake \<Rightarrow> (wsFrameType \<times> handshake \<times> nat option) result" where
  "wsParseHandshake buf inputLength hs =
     (case strstr buf (rn @ rn) of
        None \<Rightarrow> if 0 \<in> set buf then Inr (WS_INCOMPLETE_FRAME, hs, None) else Inl OutOfBounds
      | Some frame_end \<Rightarrow>
          let frameLength = Some (frame_end + 2 + 2) in
          if \<not> memcmp_eq buf (bytes_of ''GET '') then Inr (WS_ERROR_FRAME, hs, frameLength)
          else
            case strchr buf 32 of
              None \<Rightarrow> Inr (WS_ERROR_FRAME, hs, frameLength)
            | Some i \<Rightarrow>
                let first = i + 1 in
                case strchr (drop first buf) 32 of
                  None \<Rightarrow> Inr (WS_ERROR_FRAME, hs, frameLength)
                | Some sz \<Rightarrow>
                    case sscanf_get (cstr buf) of
                      None \<Rightarrow> Inr (WS_ERROR_FRAME, hs\<lparr>hs_resource := Some []\<rparr>, frameLength)
                    | Some word \<Rightarrow>
                        if length word + 1 > sz + 1 then Inl HeapOverflow
                        else
                          case strstr buf rn of
                            None \<Rightarrow> Inl NullDeref
                          | Some d \<Rightarrow>
                              bind_r (parse_lines buf inputLength (d + 2)
                                  (hs_start (hs\<lparr>hs_resource := Some word\<rparr>))) (\<lambda>st.
                              let t = hs_verdict st in
                              Inr (t, (st_hs st)\<lparr>hs_type := t\<rparr>, frameLength)))"

section \<open>The answer\<close>

definition answer_text :: "byte list \<Rightarrow> byte list" where
  "answer_text responseKey =
     bytes_of ''HTTP/1.1 101 Switching Protocols'' @ rn @
     upgradeField @ websocket @ rn @
     connectionField @ upgrade2 @ rn @
     bytes_of ''Sec-WebSocket-Accept: '' @ responseKey @ rn @ rn"

text \<open>
  \<open>wsGetHandshakeAnswer\<close> returns the buffer and \<^verbatim>\<open>*outLength\<close>. The block \<^verbatim>\<open>responseKey\<close> has
  \<^verbatim>\<open>length\<close> bytes, a \<^verbatim>\<open>uint8_t\<close>; it holds the key and the secret, and then the 28 characters
  of the digest with their final zero.
\<close>

definition wsGetHandshakeAnswer ::
  "handshake \<Rightarrow> byte list \<Rightarrow> nat \<Rightarrow> (byte list \<times> nat) result" where
  "wsGetHandshakeAnswer hs outFrame outLength =
     bind_r (assert_c (outLength \<noteq> 0)) (\<lambda>_.
     bind_r (assert_c (hs_type hs = WS_OPENING_FRAME)) (\<lambda>_.
     case hs_key hs of
       None \<Rightarrow> Inl AssertFail
     | Some key \<Rightarrow>
         let len = word_of_nat (length key + length secret) :: byte in
         if unat len < length key + length secret then Inl HeapOverflow
         else
           bind_r (sha1 (key @ secret) (ucast len * 8)) (\<lambda>shaHash.
           bind_r (base64enc shaHash 20) (\<lambda>responseKey.
           if unat len < length responseKey then Inl HeapOverflow
           else
             let text = answer_text (cstr responseKey) in
             bind_r (write_bytes outFrame 0 (text @ [0])) (\<lambda>outFrame'.
             bind_r (assert_c (length text \<le> outLength)) (\<lambda>_.
             Inr (outFrame', length text)))))))"

end
