(* ===== verification/Handshake_Laws.thy ===== *)
theory Handshake_Laws
  imports Handshake Frame_Laws Sha1_Refines
begin

text \<open>
  The laws of the handshake: memory safety of the request parser on any terminated buffer,
  its refinement of a fold over the header lines, the answer as RFC 6455 prescribes it, and
  the inputs on which the code aborts or overruns a block.
\<close>

section \<open>Searching a line end\<close>

lemma cstr_append: "0 \<notin> set a \<Longrightarrow> cstr (a @ b) = a @ cstr b"
  by (induction a) (auto simp: cstr_def)

lemma cstr_Cons: "cstr (b # bs) = (if b = 0 then [] else b # cstr bs)"
  by (simp add: cstr_def)

lemma find_rn: "13 \<notin> set v \<Longrightarrow> find_sub (v @ 13 # 10 # rest) rn = Some (length v)"
  by (induction v) (auto simp: rn_def)

lemma strstr_rn:
  assumes "13 \<notin> set v" and "0 \<notin> set v"
  shows "strstr (v @ rn @ rest) rn = Some (length v)"
proof -
  have "cstr (v @ rn @ rest) = v @ 13 # 10 # cstr rest"
    using assms(2) by (simp add: cstr_append rn_def) (simp add: cstr_def)
  then show ?thesis using find_rn [OF assms(1)] by (simp add: strstr_def)
qed

lemma prefix_before_rn:
  "13 \<notin> set f \<Longrightarrow> prefix f (l @ rn @ rest) \<longleftrightarrow> prefix f l"
proof (induction f arbitrary: l)
  case Nil
  show ?case by simp
next
  case (Cons x f)
  then show ?case by (cases l) (auto simp: rn_def)
qed

lemma fields_no_cr:
  "13 \<notin> set hostField" "13 \<notin> set originField" "13 \<notin> set protocolField" "13 \<notin> set keyField"
  "13 \<notin> set versionField" "13 \<notin> set connectionField" "13 \<notin> set upgradeField"
  by (simp_all add: hostField_def originField_def protocolField_def keyField_def
      versionField_def connectionField_def upgradeField_def)

section \<open>The reference: a fold over header lines\<close>

definition line_value :: "byte list \<Rightarrow> byte list result" where
  "line_value v =
     (let n = length v mod 256 in if n = 0 then Inl AssertFail else Inr (take n v))"

definition line_effect :: "byte list \<Rightarrow> hs_state \<Rightarrow> hs_state result" where
  "line_effect l st =
     (let val = (\<lambda>f. line_value (drop (length f) l)) in
      if prefix hostField l then
        bind_r (val hostField) (\<lambda>v. Inr (st\<lparr>st_hs := (st_hs st)\<lparr>hs_host := Some v\<rparr>\<rparr>))
      else if prefix originField l then
        bind_r (val originField) (\<lambda>v. Inr (st\<lparr>st_hs := (st_hs st)\<lparr>hs_origin := Some v\<rparr>\<rparr>))
      else if prefix protocolField l then Inr (st\<lparr>subprotocolFlag := True\<rparr>)
      else if prefix keyField l then
        bind_r (val keyField) (\<lambda>v. Inr (st\<lparr>st_hs := (st_hs st)\<lparr>hs_key := Some v\<rparr>\<rparr>))
      else if prefix versionField l then
        bind_r (val versionField) (\<lambda>v.
          Inr (if prefix version v then st else st\<lparr>versionMismatch := True\<rparr>))
      else if prefix connectionField l then
        bind_r (val connectionField) (\<lambda>v.
          Inr (if find_sub (map tolower v) upgrade \<noteq> None then st\<lparr>connectionFlag := True\<rparr> else st))
      else if prefix upgradeField l then
        bind_r (val upgradeField) (\<lambda>v.
          Inr (if prefix websocket (map tolower v) then st\<lparr>upgradeFlag := True\<rparr> else st))
      else Inr st)"

primrec fold_lines :: "byte list list \<Rightarrow> hs_state \<Rightarrow> hs_state result" where
  "fold_lines [] st = Inr st"
| "fold_lines (l # ls) st = bind_r (line_effect l st) (fold_lines ls)"

definition ok_line :: "byte list \<Rightarrow> bool" where
  "ok_line l \<longleftrightarrow> l \<noteq> [] \<and> 13 \<notin> set l \<and> 0 \<notin> set l \<and> take 1 (drop 1 l) \<noteq> [10]"

definition render_lines :: "byte list list \<Rightarrow> byte list" where
  "render_lines ls = concat (map (\<lambda>l. l @ rn) ls)"

section \<open>The header loop refines the fold\<close>

lemma tolower_zero: "tolower b = 0 \<longleftrightarrow> b = 0"
proof
  assume z: "tolower b = 0"
  show "b = 0"
  proof (cases "65 \<le> b \<and> b \<le> 90")
    case True
    then have "unat (b + 32) = unat b + 32"
      by (auto simp: word_le_nat_alt unat_word_ariths)
    with z True show ?thesis by (simp add: tolower_def)
  next
    case False
    with z show ?thesis by (simp add: tolower_def)
  qed
qed (simp add: tolower_def)

lemma prefix_snoc_zero: "0 \<notin> set f \<Longrightarrow> prefix f (v @ [0]) \<longleftrightarrow> prefix f v"
  by (auto simp: prefix_append prefix_Cons)

lemma getUpto_line:
  assumes "drop q buf = v @ rn @ rest" and "13 \<notin> set v" and "0 \<notin> set v"
  shows "getUptoLinefeed buf q = line_value v"
proof -
  have len: "length buf - q = length v + 2 + length rest"
    using arg_cong [OF assms(1), of length] by (simp add: rn_def)
  have "unat (word_of_nat (length v) :: byte) = length v mod 256" by (simp add: unat_of_nat)
  moreover from this have "(word_of_nat (length v) :: byte) = 0 \<longleftrightarrow> length v mod 256 = 0"
    by (simp add: word_unat_eq_iff del: unsigned_of_nat)
  moreover have "length v mod 256 \<le> length v" by simp
  ultimately show ?thesis
    using len by (simp add: getUptoLinefeed_def assms(1) strstr_rn [OF assms(2,3)] line_value_def
        Let_def read_bytes_def del: unsigned_of_nat)
qed

lemma getUpto_field:
  assumes buf: "drop p buf = l @ rn @ rest" and l: "13 \<notin> set l" "0 \<notin> set l" and f: "prefix f l"
  shows "getUptoLinefeed buf (p + length f) = line_value (drop (length f) l)"
proof (rule getUpto_line)
  have "length f \<le> length l" using f by (rule prefix_length_le)
  then show "drop (p + length f) buf = drop (length f) l @ rn @ rest"
    using arg_cong [OF buf, of "drop (length f)"] by (simp add: add.commute)
qed (use l in \<open>auto dest: in_set_dropD\<close>)

lemma line_value_zero: "line_value v = Inr w \<Longrightarrow> 0 \<notin> set v \<Longrightarrow> 0 \<notin> set w"
  by (auto simp: line_value_def Let_def split: if_splits dest: in_set_takeD)

text \<open>How far \<open>parse_line\<close> moves the pointer: over the name of a known field.\<close>

definition field_length :: "byte list \<Rightarrow> nat" where
  "field_length l =
     (if prefix hostField l then length hostField
      else if prefix originField l then length originField
      else if prefix protocolField l then length protocolField
      else if prefix keyField l then length keyField
      else if prefix versionField l then length versionField
      else if prefix connectionField l then length connectionField
      else if prefix upgradeField l then length upgradeField
      else 0)"

lemma field_length_le: "field_length l \<le> length l"
  by (simp add: field_length_def prefix_length_le)

lemma parse_line_refines:
  assumes buf: "drop p buf = l @ rn @ rest" and l: "13 \<notin> set l" "0 \<notin> set l"
  shows "parse_line buf p st = bind_r (line_effect l st) (\<lambda>st'. Inr (p + field_length l, st'))"
proof -
  have pre: "memcmp_eq (drop p buf) f \<longleftrightarrow> prefix f l" if "13 \<notin> set f" for f
    using that by (simp add: memcmp_eq_def buf prefix_before_rn)
  note flds = fields_no_cr [THEN pre]
  note val = getUpto_field [OF buf l]
  have vz: "memcmp_eq (v @ [0]) version \<longleftrightarrow> prefix version v"
    "memcmp_eq (map tolower v @ [0]) websocket \<longleftrightarrow> prefix websocket (map tolower v)" for v
    by (simp_all add: memcmp_eq_def prefix_snoc_zero version_def websocket_def)
  have ss: "strstr (map tolower v) upgrade = find_sub (map tolower v) upgrade"
    if "line_value (drop n l) = Inr v" for v n
  proof -
    have "0 \<notin> set v" using line_value_zero [OF that] l(2) by (auto dest: in_set_dropD)
    then have "0 \<notin> set (map tolower v)" by (auto simp: tolower_zero)
    then show ?thesis by (simp add: strstr_def cstr_id)
  qed
  have neg: "(if \<not> c then a else b) = (if c then b else a)" for c and a b :: hs_state by simp
  show ?thesis
    unfolding parse_line_def line_effect_def field_length_def flds
    by (simp add: Let_def val vz neg ss bind_r_assoc cong: bind_r_cong)
qed

lemma render_lines_simps [simp]:
  "render_lines [] = []"
  "render_lines (l # ls) = l @ rn @ render_lines ls"
  by (simp_all add: render_lines_def)

text \<open>One header line, at the front of what is still to be parsed.\<close>

lemma parse_lines_step:
  assumes l: "ok_line l" and buf: "drop p buf = l @ rn @ tail" and fits: "p + length l + 2 \<le> endPtr"
  shows "parse_lines buf endPtr p st =
    bind_r (line_effect l st) (parse_lines buf endPtr (p + length l + 2))"
proof -
  have l: "l \<noteq> []" "13 \<notin> set l" "0 \<notin> set l" "take 1 (drop 1 l) \<noteq> [10]"
    using l by (simp_all add: ok_line_def)
  have plen: "length buf = p + length (l @ rn @ tail)"
    using arg_cong [OF buf, of length] l(1) by (simp add: rn_def)
  have nth: "buf ! (p + i) = (l @ rn @ tail) ! i" for i
    using plen by (simp add: buf [symmetric])
  have c0: "buf ! p \<noteq> 13"
    using l(1,2) nth [of 0] by (cases l) auto
  have c1: "buf ! (p + 1) \<noteq> 10"
  proof (cases "length l = 1")
    case True
    then show ?thesis using nth [of 1] by (simp add: nth_append rn_def)
  next
    case False
    with l(1) obtain a b l' where "l = a # b # l'"
      by (metis One_nat_def length_Cons list.exhaust list.size(3))
    then show ?thesis using l(4) nth [of 1] by simp
  qed
  let ?k = "field_length l"
  have dk: "drop (p + ?k) buf = drop ?k l @ rn @ tail"
    using arg_cong [OF buf, of "drop ?k"] field_length_le [of l] by (simp add: add.commute)
  have next_line: "strstr (drop (p + ?k) buf) rn = Some (length l - ?k)"
    unfolding dk using l(2,3) by (subst strstr_rn) (auto dest: in_set_dropD)
  have pos: "p + ?k + (length l - ?k) + 2 = p + length l + 2" using field_length_le [of l] by simp
  have "p < endPtr" "p < length buf" "p + 1 < length buf"
    using fits plen by (simp_all add: rn_def)
  then have "parse_lines buf endPtr p st =
      bind_r (parse_line buf p st) (\<lambda>qst. case strstr (drop (fst qst) buf) rn of
        None \<Rightarrow> Inl NullDeref | Some d \<Rightarrow> parse_lines buf endPtr (fst qst + d + 2) (snd qst))"
    using c0 c1 by (subst parse_lines.simps) (simp add: mem_ok)
  then show ?thesis
    by (simp only: parse_line_refines [OF buf l(2,3)] bind_r_assoc bind_r_simps fst_conv snd_conv
        next_line option.case pos)
qed

lemma parse_lines_refines:
  assumes "\<And>l. l \<in> set ls \<Longrightarrow> ok_line l"
    and "drop p buf = render_lines ls @ rn @ rest"
    and "p + length (render_lines ls) + 2 \<le> endPtr"
  shows "parse_lines buf endPtr p st = fold_lines ls st"
  using assms
proof (induction ls arbitrary: p st)
  case Nil
  then have "buf ! p = 13 \<and> p < length buf"
    using nth_via_drop [of p buf 13] by (auto simp: rn_def intro: ccontr)
  with Nil show ?case by (subst parse_lines.simps) (simp add: mem_ok)
next
  case (Cons l ls)
  have buf: "drop p buf = l @ rn @ render_lines ls @ rn @ rest" using Cons.prems(2) by simp
  have "parse_lines buf endPtr (p + length l + 2) st' = fold_lines ls st'" for st'
  proof (rule Cons.IH)
    show "drop (p + length l + 2) buf = render_lines ls @ rn @ rest"
      using arg_cong [OF buf, of "drop (length l + 2)"] by (simp add: rn_def add.commute add.left_commute)
  qed (use Cons.prems(1,3) in \<open>simp_all add: rn_def\<close>)
  then have "parse_lines buf endPtr (p + length l + 2) = fold_lines ls" by blast
  then show ?case
    using parse_lines_step [OF _ buf, of endPtr st] Cons.prems(1,3) by (simp add: rn_def)
qed

lemma find_rnrn:
  assumes "\<And>l. l \<in> set ls \<Longrightarrow> ok_line l" and "ls \<noteq> []"
  shows "find_sub (render_lines ls @ rn @ rest) (rn @ rn) = Some (length (render_lines ls) - 2)"
  using assms
proof (induction ls)
  case Nil
  then show ?case by simp
next
  case (Cons l ls)
  have skip: "13 \<notin> set v \<Longrightarrow> find_sub (v @ s) (rn @ rn) = map_option (\<lambda>i. length v + i) (find_sub s (rn @ rn))"
    for v s by (induction v) (auto simp: rn_def option.map_comp comp_def map_option_case split: option.splits)
  have l: "13 \<notin> set l" using Cons.prems(1) [of l] by (simp add: ok_line_def)
  show ?case
  proof (cases ls)
    case Nil
    with skip [OF l, of "rn @ rn @ rest"] show ?thesis by (simp add: rn_def)
  next
    case (Cons m ms)
    have m: "m \<noteq> []" "13 \<notin> set m" using Cons.prems(1) [of m] Cons by (simp_all add: ok_line_def)
    then obtain x m' where xm: "m = x # m'" "x \<noteq> 13" by (cases m) auto
    have "find_sub (rn @ s) (rn @ rn) = map_option (\<lambda>i. 2 + i) (find_sub s (rn @ rn))"
      if "s = x # s'" for s s'
      using that xm(2) by (auto simp: rn_def option.map_comp comp_def)
    then show ?thesis
      using skip [OF l] Cons.IH Cons.prems(1) Cons m(1)
      by (simp add: xm rn_def Cons)
  qed
qed

section \<open>The parser on a rendered request\<close>

definition is_token :: "byte list \<Rightarrow> bool" where
  "is_token w \<longleftrightarrow> w \<noteq> [] \<and> (\<forall>b \<in> set w. \<not> isspace b \<and> b \<noteq> 0)"

definition request_line :: "byte list \<Rightarrow> byte list \<Rightarrow> byte list" where
  "request_line target proto = bytes_of ''GET '' @ target @ [32] @ proto"

definition render_request :: "byte list \<Rightarrow> byte list \<Rightarrow> byte list list \<Rightarrow> byte list" where
  "render_request target proto ls =
     render_lines (request_line target proto # ls) @ rn"

lemma find_byte: "c \<notin> set v \<Longrightarrow> find_sub (v @ c # rest) [c] = Some (length v)"
  by (induction v) auto

lemma isspace_simps [simp]: "isspace 32" "isspace 13" "isspace 10" "isspace 9"
  by (simp_all add: isspace_def)

lemma token_no_space: "is_token w \<Longrightarrow> 32 \<notin> set w \<and> 13 \<notin> set w \<and> 0 \<notin> set w"
  unfolding is_token_def by (metis isspace_simps(1,2))

lemma get_bytes: "bytes_of ''GET '' = [71, 69, 84, 32]"
  by simp

lemma request_line_ok:
  assumes "is_token target" and "13 \<notin> set proto" and "0 \<notin> set proto"
  shows "ok_line (request_line target proto)"
  using token_no_space [OF assms(1)] assms(2,3) by (auto simp: ok_line_def request_line_def)

lemma render_lines_zero: "(\<And>l. l \<in> set ls \<Longrightarrow> ok_line l) \<Longrightarrow> 0 \<notin> set (render_lines ls)"
  by (induction ls) (auto simp: ok_line_def rn_def)

lemma handshake_steps:
  assumes "strstr buf (rn @ rn) = Some e" and "e + 2 + 2 = flen"
    and "memcmp_eq buf (bytes_of ''GET '')"
    and "strchr buf 32 = Some 3" and "strchr (drop 4 buf) 32 = Some n"
    and "sscanf_get (cstr buf) = Some word" and "length word \<le> n"
    and "strstr buf rn = Some d"
    and "\<And>st. parse_lines buf inputLength (d + 2) st = loop st"
  shows "wsParseHandshake buf inputLength hs =
    bind_r (loop (hs_start (hs\<lparr>hs_resource := Some word\<rparr>))) (\<lambda>st.
      Inr (hs_verdict st, (st_hs st)\<lparr>hs_type := hs_verdict st\<rparr>, Some flen))"
  using assms by (simp add: wsParseHandshake_def Let_def del: bytes_of_simps)

text \<open>The spaces around the target of a request, and the word scanned after the method.\<close>

lemma request_words:
  assumes target: "is_token target" and buf: "buf = [71, 69, 84, 32] @ target @ 32 # tail"
  shows "strchr buf 32 = Some 3" and "strchr (drop 4 buf) 32 = Some (length target)"
    and "sscanf_get (cstr buf) = Some target"
proof -
  have tok: "target \<noteq> []" "32 \<notin> set target" "0 \<notin> set target" "\<forall>b \<in> set target. \<not> isspace b"
    using target token_no_space [OF target] by (simp_all add: is_token_def)
  have cbuf: "cstr buf = [71, 69, 84, 32] @ target @ 32 # cstr tail"
    using tok(3) by (simp add: buf cstr_append cstr_Cons)
  show "strchr buf 32 = Some 3" unfolding strchr_def cbuf by simp
  show "strchr (drop 4 buf) 32 = Some (length target)"
    using tok(2,3) by (simp add: strchr_def buf cstr_append cstr_Cons find_byte)
  have "dropWhile isspace (drop 3 (cstr buf)) = target @ 32 # cstr tail"
    using tok(1,4) unfolding cbuf by (cases target) simp_all
  moreover have "takeWhile (\<lambda>b. \<not> isspace b) (target @ 32 # cstr tail) = target"
    using tok(4) by (simp add: takeWhile_append)
  ultimately show "sscanf_get (cstr buf) = Some target" by (simp add: sscanf_get_def)
qed

lemma wsParseHandshake_refines:
  assumes target: "is_token target" and proto: "13 \<notin> set proto" "0 \<notin> set proto"
    and ls: "\<And>l. l \<in> set ls \<Longrightarrow> ok_line l" and zr: "0 \<in> set rest"
    and len: "length (render_request target proto ls) \<le> inputLength"
  shows "wsParseHandshake (render_request target proto ls @ rest) inputLength hs =
    bind_r (fold_lines ls (hs_start (hs\<lparr>hs_resource := Some target\<rparr>))) (\<lambda>st.
      Inr (hs_verdict st, (st_hs st)\<lparr>hs_type := hs_verdict st\<rparr>,
           Some (length (render_request target proto ls))))"
proof -
  let ?rl = "request_line target proto" and ?buf = "render_request target proto ls @ rest"
  let ?all = "?rl # ls"
  have all: "l \<in> set ?all \<Longrightarrow> ok_line l" for l
    using ls request_line_ok [OF target proto] by auto
  have z: "0 \<notin> set (render_lines ?all)" using all by (rule render_lines_zero)
  have cstr: "cstr ?buf = render_lines ?all @ rn @ cstr rest"
    unfolding render_request_def append.assoc cstr_append [OF z]
    by (simp only: rn_def append_Cons append_Nil cstr_Cons) simp
  have end1: "strstr ?buf (rn @ rn) = Some (length (render_lines ?all) - 2)"
    unfolding strstr_def cstr by (rule find_rnrn [OF all]) simp_all
  have rlen: "length (render_lines ?all) - 2 + 2 + 2 = length (render_request target proto ls)"
    by (simp add: render_request_def rn_def)
  have shape: "?buf = [71, 69, 84, 32] @ target @ 32 # proto @ rn @ render_lines ls @ rn @ rest"
    by (simp add: render_request_def request_line_def)
  note words = request_words [OF target shape]
  have rl: "13 \<notin> set ?rl" "0 \<notin> set ?rl"
    using request_line_ok [OF target proto] by (simp_all add: ok_line_def)
  have line1: "strstr ?buf rn = Some (length ?rl)"
    using strstr_rn [OF rl] by (simp add: render_request_def)
  have loop: "parse_lines ?buf inputLength (length ?rl + 2) st = fold_lines ls st" for st
    by (rule parse_lines_refines [OF ls]) (use len in \<open>simp_all add: render_request_def rn_def\<close>)
  have get: "memcmp_eq ?buf (bytes_of ''GET '')" unfolding shape by (simp add: memcmp_eq_def)
  show ?thesis
    by (rule handshake_steps [OF end1 rlen get words le_refl line1 loop])
qed

section \<open>Memory safety on any terminated buffer\<close>

definition frame_end_at :: "byte list \<Rightarrow> nat \<Rightarrow> bool" where
  "frame_end_at buf e \<longleftrightarrow> e + 4 \<le> length (cstr buf) \<and> prefix (rn @ rn) (drop e (cstr buf))"

lemma frame_end_nth:
  assumes "frame_end_at buf e"
  shows "cstr buf ! e = 13" "cstr buf ! (e + 2) = 13" "buf ! e = 13" "buf ! (e + 2) = 13"
    "e + 4 \<le> length buf"
proof -
  have len: "e + 4 \<le> length (cstr buf)" using assms by (simp add: frame_end_at_def)
  obtain ys where "drop e (cstr buf) = 13 # 10 # 13 # 10 # ys"
    using assms by (auto simp: frame_end_at_def rn_def prefix_def)
  then have "drop e (cstr buf) ! 0 = 13" "drop e (cstr buf) ! 2 = 13" by simp_all
  then show c: "cstr buf ! e = 13" "cstr buf ! (e + 2) = 13" using len by simp_all
  obtain zs where "buf = cstr buf @ zs" using cstr_prefix [of buf] by (auto simp: prefix_def)
  then have "buf ! i = cstr buf ! i" if "i < length (cstr buf)" for i
    using that by (metis nth_append)
  with c len show "buf ! e = 13" "buf ! (e + 2) = 13" by simp_all
  show "e + 4 \<le> length buf" using len length_cstr [of buf] by simp
qed

lemma line_end:
  assumes e: "frame_end_at buf e" and q: "q \<le> e"
  shows "\<exists>d. strstr (drop q buf) rn = Some d \<and> q + d \<le> e \<and> (q + d + 2 \<le> e \<or> q + d = e)"
proof -
  have len: "e + 4 \<le> length (cstr buf)" using e by (simp add: frame_end_at_def)
  have str: "strstr (drop q buf) rn = find_sub (drop q (cstr buf)) rn"
    using len q by (simp add: strstr_def drop_cstr)
  have "prefix rn (drop (e - q) (drop q (cstr buf)))"
    using e q by (auto simp: frame_end_at_def dest: append_prefixD)
  moreover have "e - q \<le> length (drop q (cstr buf))" using len by (simp add: diff_le_mono)
  ultimately obtain d where d: "find_sub (drop q (cstr buf)) rn = Some d" "d \<le> e - q"
    using find_sub_occurs by blast
  have "q + d + 1 \<noteq> e"
  proof
    assume eq: "q + d + 1 = e"
    have "prefix rn (drop (q + d) (cstr buf))"
      using find_sub_Some [OF d(1)] by (simp add: add.commute)
    then obtain ys where "drop (q + d) (cstr buf) = 13 # 10 # ys"
      by (auto simp: rn_def prefix_def)
    then have "drop (q + d) (cstr buf) ! 1 = 10" by simp
    then have "cstr buf ! e = 10" using eq len by simp
    with frame_end_nth(1) [OF e] show False by simp
  qed
  with d q show ?thesis by (intro exI [of _ d]) (auto simp: str)
qed

lemma field_before_end:
  assumes e: "frame_end_at buf e" and p: "p \<le> e"
    and f: "memcmp_eq (drop p buf) f" "13 \<notin> set f"
  shows "p + length f \<le> e"
proof (rule ccontr)
  assume "\<not> p + length f \<le> e"
  then have i: "e - p < length f" using p by linarith
  obtain ys where ys: "drop p buf = f @ ys" using f(1) by (auto simp: memcmp_eq_def prefix_def)
  then have "drop p buf ! (e - p) = f ! (e - p)" using i by (simp add: nth_append)
  then have "f ! (e - p) = 13"
    using p frame_end_nth(3,5) [OF e] by simp
  with i f(2) show False by (metis nth_mem)
qed

lemma getUpto_safe:
  assumes "frame_end_at buf e" and "q \<le> e"
  shows "getUptoLinefeed buf q = Inl AssertFail \<or> (\<exists>v. getUptoLinefeed buf q = Inr v)"
proof -
  obtain d where d: "strstr (drop q buf) rn = Some d" "q + d \<le> e"
    using line_end [OF assms] by blast
  have "unat (word_of_nat d :: byte) \<le> d" by (simp add: unat_of_nat)
  then have "q + unat (word_of_nat d :: byte) \<le> length buf"
    using d(2) frame_end_nth(5) [OF assms(1)] by linarith
  then show ?thesis by (auto simp: getUptoLinefeed_def d(1) Let_def mem_ok assert_c_def)
qed

definition line_safe :: "nat \<Rightarrow> (nat \<times> hs_state) result \<Rightarrow> bool" where
  "line_safe e m \<longleftrightarrow> m = Inl AssertFail \<or> (\<exists>q st. m = Inr (q, st) \<and> q \<le> e)"

lemma line_safe_if: "(c \<Longrightarrow> line_safe e a) \<Longrightarrow> (\<not> c \<Longrightarrow> line_safe e b) \<Longrightarrow> line_safe e (if c then a else b)"
  by simp

lemma line_safe_Inr: "q \<le> e \<Longrightarrow> line_safe e (Inr (q, st))"
  by (simp add: line_safe_def)

lemma line_safe_value:
  assumes "frame_end_at buf e" and "q \<le> e"
  shows "line_safe e (bind_r (getUptoLinefeed buf q) (\<lambda>v. Inr (q, g v)))"
  using getUpto_safe [OF assms] assms(2) by (auto simp: line_safe_def)

lemma parse_line_safe:
  assumes e: "frame_end_at buf e" and p: "p \<le> e"
  shows "line_safe e (parse_line buf p st)"
  unfolding parse_line_def Let_def
  by (intro line_safe_if line_safe_value [OF e] line_safe_Inr field_before_end [OF e p]
      fields_no_cr p)

lemma parse_lines_safe:
  assumes "frame_end_at buf e" and "p \<le> e \<or> p = e + 2"
  shows "parse_lines buf endPtr p st = Inl AssertFail \<or> (\<exists>st'. parse_lines buf endPtr p st = Inr st')"
  using assms
proof (induction buf endPtr p st rule: parse_lines.induct)
  case (1 buf endPtr p st)
  note e = "1.prems"(1)
  have len: "e + 4 \<le> length buf" and stop: "buf ! (e + 2) = 13"
    using frame_end_nth [OF e] by simp_all
  have rd: "read_at buf p = Inr (buf ! p)" "read_at buf (p + 1) = Inr (buf ! (p + 1))"
    using len "1.prems"(2) by (auto simp: mem_ok)
  show ?case
  proof (cases "p < endPtr \<and> buf ! p \<noteq> 13 \<and> buf ! (p + 1) \<noteq> 10")
    case False
    then show ?thesis by (subst parse_lines.simps) (auto simp: rd [simplified])
  next
    case True
    then have go: "p < endPtr" "buf ! p \<noteq> 13" "buf ! (p + 1) \<noteq> 10" by simp_all
    with stop "1.prems"(2) have p: "p \<le> e" by auto
    consider "parse_line buf p st = Inl AssertFail"
      | q st' where "parse_line buf p st = Inr (q, st')" "q \<le> e"
      using parse_line_safe [OF e p, of st] by (auto simp: line_safe_def)
    then show ?thesis
    proof cases
      case 1
      with go show ?thesis by (subst parse_lines.simps) (simp add: rd [simplified])
    next
      case 2
      obtain d where d: "strstr (drop q buf) rn = Some d" "q + d + 2 \<le> e \<or> q + d + 2 = e + 2"
        using line_end [OF e 2(2)] by auto
      have "parse_lines buf endPtr p st = parse_lines buf endPtr (q + d + 2) st'"
        using go 2(1) d(1) by (subst parse_lines.simps) (simp add: rd [simplified])
      moreover have "parse_lines buf endPtr (q + d + 2) st' = Inl AssertFail \<or>
          (\<exists>st''. parse_lines buf endPtr (q + d + 2) st' = Inr st'')"
        using "1.IH" [OF go(1) rd(1) go(2) rd(2) go(3) 2(1), of d] d e by simp
      ultimately show ?thesis by simp
    qed
  qed
qed

lemma wsParseHandshake_faults:
  assumes "0 \<in> set buf" and "wsParseHandshake buf inputLength hs = Inl x"
  shows "x = AssertFail \<or> x = HeapOverflow"
proof (cases "strstr buf (rn @ rn)")
  case None
  with assms show ?thesis by (simp add: wsParseHandshake_def)
next
  case (Some e)
  have e: "frame_end_at buf e"
    using find_sub_Some [of "cstr buf" "rn @ rn" e] Some
    by (simp add: frame_end_at_def strstr_def rn_def)
  obtain d where d: "strstr buf rn = Some d" "d + 2 \<le> e \<or> d + 2 = e + 2"
    using line_end [OF e, of 0] by auto
  have loop: "parse_lines buf inputLength (d + 2) st = Inl AssertFail \<or>
      (\<exists>st'. parse_lines buf inputLength (d + 2) st = Inr st')" for st
    by (rule parse_lines_safe [OF e d(2)])
  then have loop': "parse_lines buf inputLength (d + 2) st = Inl y \<Longrightarrow> y = AssertFail" for st y
    by (metis Inl_inject Inl_Inr_False)
  from assms(2) show ?thesis
    unfolding wsParseHandshake_def Some d(1)
    by (auto simp: Let_def bind_r_eq_Inl split: if_splits option.splits dest: loop' [simplified])
qed

section \<open>Which requests are accepted\<close>

definition fields :: "byte list list" where
  "fields = [hostField, originField, protocolField, keyField, versionField, connectionField,
     upgradeField]"

definition good_line :: "byte list \<Rightarrow> bool" where
  "good_line l \<longleftrightarrow> ok_line l \<and>
     (\<forall>f \<in> set fields. prefix f l \<longrightarrow> length f < length l \<and> length l \<le> length f + 255)"

definition value_of :: "byte list \<Rightarrow> byte list \<Rightarrow> byte list" where
  "value_of f l = drop (length f) l"

definition accepts :: "byte list list \<Rightarrow> bool" where
  "accepts ls \<longleftrightarrow>
     (\<exists>l \<in> set ls. prefix hostField l) \<and> (\<exists>l \<in> set ls. prefix keyField l) \<and>
     (\<exists>l \<in> set ls. prefix connectionField l \<and>
        find_sub (map tolower (value_of connectionField l)) upgrade \<noteq> None) \<and>
     (\<exists>l \<in> set ls. prefix upgradeField l \<and>
        prefix websocket (map tolower (value_of upgradeField l))) \<and>
     \<not> (\<exists>l \<in> set ls. prefix protocolField l) \<and>
     (\<forall>l \<in> set ls. prefix versionField l \<longrightarrow> prefix version (value_of versionField l))"

lemma fields_distinct_prefix:
  "\<forall>f \<in> set fields. \<forall>g \<in> set fields. prefix f g \<longrightarrow> f = g"
  by code_simp

lemma prefix_field_unique:
  assumes "prefix f l" and "prefix g l" and "f \<in> set fields" and "g \<in> set fields"
  shows "f = g"
  using prefix_same_cases [OF assms(1,2)] fields_distinct_prefix assms(3,4) by blast

lemma fields_unequal: "distinct fields"
  by code_simp

lemma line_value_small: "v \<noteq> [] \<Longrightarrow> length v \<le> 255 \<Longrightarrow> line_value v = Inr v"
  by (simp add: line_value_def Let_def)

lemma good_line_value:
  assumes "good_line l" and "prefix f l" and "f \<in> set fields"
  shows "line_value (drop (length f) l) = Inr (value_of f l)"
proof -
  have "length f < length l" "length l \<le> length f + 255"
    using assms by (auto simp: good_line_def)
  then show ?thesis unfolding value_of_def by (intro line_value_small) auto
qed

text \<open>The effect of a good line, and of a list of them, on what the verdict looks at.\<close>

definition summary :: "hs_state \<Rightarrow> bool list" where
  "summary st = [hs_host (st_hs st) \<noteq> None, hs_key (st_hs st) \<noteq> None, connectionFlag st,
     upgradeFlag st, subprotocolFlag st, versionMismatch st]"

definition marks :: "byte list \<Rightarrow> bool list" where
  "marks l = [prefix hostField l, prefix keyField l,
     prefix connectionField l \<and> find_sub (map tolower (value_of connectionField l)) upgrade \<noteq> None,
     prefix upgradeField l \<and> prefix websocket (map tolower (value_of upgradeField l)),
     prefix protocolField l,
     prefix versionField l \<and> \<not> prefix version (value_of versionField l)]"

lemma good_line_effect:
  assumes l: "good_line l"
  shows "\<exists>st'. line_effect l st = Inr st' \<and> summary st' = map2 (\<or>) (summary st) (marks l)"
proof (cases "\<exists>f \<in> set fields. prefix f l")
  case False
  then show ?thesis by (auto simp: fields_def line_effect_def Let_def summary_def marks_def)
next
  case True
  then obtain f where f: "f \<in> set fields" "prefix f l" by blast
  have others: "g \<in> set fields \<Longrightarrow> prefix g l \<longleftrightarrow> g = f" for g
    using prefix_field_unique [OF _ f(2) _ f(1)] f(2) by blast
  note is_field = others [of hostField] others [of originField] others [of protocolField]
    others [of keyField] others [of versionField] others [of connectionField]
    others [of upgradeField]
  note val = good_line_value [OF l f(2,1)]
  show ?thesis
    using f(1) fields_unequal val is_field
    by (auto simp: fields_def line_effect_def Let_def summary_def marks_def)
qed

lemma fold_lines_summary:
  assumes "\<And>l. l \<in> set ls \<Longrightarrow> good_line l"
  shows "\<exists>st'. fold_lines ls st = Inr st' \<and>
    summary st' = fold (\<lambda>l s. map2 (\<or>) s (marks l)) ls (summary st)"
  using assms
proof (induction ls arbitrary: st)
  case Nil
  show ?case by simp
next
  case (Cons l ls)
  obtain st1 where st1: "line_effect l st = Inr st1" "summary st1 = map2 (\<or>) (summary st) (marks l)"
    using good_line_effect [of l st] Cons.prems by auto
  moreover obtain st' where "fold_lines ls st1 = Inr st'"
    "summary st' = fold (\<lambda>l s. map2 (\<or>) s (marks l)) ls (summary st1)"
    using Cons.IH [of st1] Cons.prems by auto
  ultimately show ?case by simp
qed

lemma fold_marks:
  "fold (\<lambda>l s. map2 (\<or>) s (marks l)) ls [a, b, c, d, e, f] =
   [a \<or> (\<exists>l \<in> set ls. marks l ! 0), b \<or> (\<exists>l \<in> set ls. marks l ! 1), c \<or> (\<exists>l \<in> set ls. marks l ! 2),
    d \<or> (\<exists>l \<in> set ls. marks l ! 3), e \<or> (\<exists>l \<in> set ls. marks l ! 4), f \<or> (\<exists>l \<in> set ls. marks l ! 5)]"
  by (induction ls arbitrary: a b c d e f) (auto simp: marks_def)

lemma accepts_marks:
  "accepts ls \<longleftrightarrow> (\<exists>l \<in> set ls. marks l ! 0) \<and> (\<exists>l \<in> set ls. marks l ! 1) \<and>
     (\<exists>l \<in> set ls. marks l ! 2) \<and> (\<exists>l \<in> set ls. marks l ! 3) \<and>
     \<not> (\<exists>l \<in> set ls. marks l ! 4) \<and> \<not> (\<exists>l \<in> set ls. marks l ! 5)"
  by (simp add: accepts_def marks_def)

lemma verdict_summary:
  "hs_verdict st =
    (if summary st ! 0 \<and> summary st ! 1 \<and> summary st ! 2 \<and> summary st ! 3 \<and>
        \<not> summary st ! 4 \<and> \<not> summary st ! 5
     then WS_OPENING_FRAME else WS_ERROR_FRAME)"
  by (auto simp: hs_verdict_def summary_def)

lemma fold_lines_verdict:
  assumes "\<And>l. l \<in> set ls \<Longrightarrow> good_line l"
    and "hs_host hs = None" and "hs_key hs = None"
  shows "\<exists>st. fold_lines ls (hs_start hs) = Inr st \<and>
    hs_verdict st = (if accepts ls then WS_OPENING_FRAME else WS_ERROR_FRAME)"
proof -
  obtain st where st: "fold_lines ls (hs_start hs) = Inr st"
    "summary st = fold (\<lambda>l s. map2 (\<or>) s (marks l)) ls (summary (hs_start hs))"
    using fold_lines_summary [OF assms(1)] by blast
  have "summary (hs_start hs) = [False, False, False, False, False, False]"
    using assms(2,3) by (simp add: summary_def hs_start_def)
  then have "summary st = [\<exists>l \<in> set ls. marks l ! 0, \<exists>l \<in> set ls. marks l ! 1,
      \<exists>l \<in> set ls. marks l ! 2, \<exists>l \<in> set ls. marks l ! 3, \<exists>l \<in> set ls. marks l ! 4,
      \<exists>l \<in> set ls. marks l ! 5]"
    using st(2) by (simp only: fold_marks simp_thms)
  then have "hs_verdict st = (if accepts ls then WS_OPENING_FRAME else WS_ERROR_FRAME)"
    unfolding verdict_summary accepts_marks by simp
  with st(1) show ?thesis by blast
qed

section \<open>The answer\<close>

text \<open>
  What the answer needs of its two helpers: a digest of twenty bytes for messages of whole
  bytes, and an encoder that turns it into a terminated string of 28 characters.
\<close>

locale accept_codec =
  fixes hash :: "byte list \<Rightarrow> u32 \<Rightarrow> byte list result"
    and digest :: "byte list \<Rightarrow> byte list"
    and enc :: "byte list \<Rightarrow> u16 \<Rightarrow> byte list result"
    and code :: "byte list \<Rightarrow> byte list"
  assumes hash_digest: "unat len = 8 * length m \<Longrightarrow> hash m len = Inr (digest m)"
    and digest_length: "length (digest m) = 20"
    and enc_code: "length d = 20 \<Longrightarrow> enc d 20 = Inr (code d @ [0])"
    and code_length: "length d = 20 \<Longrightarrow> length (code d) = 28"
    and code_no_zero: "0 \<notin> set (code d)"
begin

lemma response_key:
  assumes "length m < 256"
  shows "bind_r (hash m (ucast (word_of_nat (length m) :: byte) * 8)) (\<lambda>d. bind_r (enc d 20) f) =
    f (code (digest m) @ [0])"
proof -
  have "unat (word_of_nat (length m) :: byte) = length m"
    using assms by (intro unat_byte_of_nat)
  then have "unat (ucast (word_of_nat (length m) :: byte) :: u32) = length m"
    using assms by (simp add: unsigned_ucast_eq take_bit_nat_eq_self del: unsigned_of_nat)
  then have "unat (ucast (word_of_nat (length m) :: byte) * 8 :: u32) = 8 * length m"
    using assms by (simp add: unat_word_ariths mult.commute del: unsigned_of_nat)
  then show ?thesis by (simp add: hash_digest enc_code digest_length)
qed

lemma response_string: "cstr (code (digest m) @ [0]) = code (digest m)"
  using cstr_append_zero [of "code (digest m)" "[]"] by (simp add: code_no_zero)

end

lemma b64_spec_no_zero: "0 \<notin> set (b64_spec xs)"
proof -
  have "0 \<notin> set base64_alphabet" by code_simp
  moreover have "base64_alphabet ! v \<in> set base64_alphabet" if "v < 64" for v
    using that by (simp add: alphabet_distinct(2))
  moreover have "pad_char \<noteq> 0" by (simp add: pad_char_def)
  ultimately show ?thesis
    by (auto simp: b64_spec_def Let_def dest!: sextets_bound) metis
qed

interpretation da: accept_codec sha1 fips_sha1 base64enc b64_spec
  by unfold_locales
    (simp_all add: sha1_correct length_fips_sha1 base64enc_correct length_b64_spec b64_spec_no_zero)

lemma length_secret: "length secret = 36"
  by (simp add: secret_def)

lemma length_answer_text: "length (answer_text v) = 101 + length v"
  by (simp add: answer_text_def rn_def upgradeField_def websocket_def connectionField_def
      upgrade2_def)

section \<open>Properties\<close>

text \<open>
  C27: The request parser refines a fold over the header lines. For every request line with a
  non-empty target and every list of non-empty header lines, in any order, its pointer
  arithmetic over the receive buffer computes exactly the fold, and it reports the length of
  the request with its final empty line, whatever bytes follow in the buffer.
\<close>

theorem wsParseHandshake_fold:
  assumes "is_token target" and "13 \<notin> set proto" and "0 \<notin> set proto"
    and "\<forall>l \<in> set ls. ok_line l" and "0 \<in> set rest"
    and "length (render_request target proto ls) \<le> inputLength"
  shows "wsParseHandshake (render_request target proto ls @ rest) inputLength hs =
    bind_r (fold_lines ls (hs_start (hs\<lparr>hs_resource := Some target\<rparr>))) (\<lambda>st.
      Inr (hs_verdict st, (st_hs st)\<lparr>hs_type := hs_verdict st\<rparr>,
           Some (length (render_request target proto ls))))"
  using wsParseHandshake_refines [OF assms(1-3) _ assms(5,6)] assms(4) by blast

theorem wsParseHandshake_fold_witness:
  "wsParseHandshake (render_request (bytes_of ''/'') (bytes_of ''HTTP/1.1'') [bytes_of ''Host: x''] @ [0])
     8192 nullHandshake =
   Inr (WS_ERROR_FRAME,
     nullHandshake\<lparr>hs_resource := Some (bytes_of ''/''), hs_host := Some (bytes_of ''x''),
       hs_type := WS_ERROR_FRAME\<rparr>, Some 27)"
  using wsParseHandshake_fold [of "bytes_of ''/''" "bytes_of ''HTTP/1.1''" "[bytes_of ''Host: x'']" "[0]" 8192 nullHandshake]
  by (simp add: is_token_def isspace_def ok_line_def render_request_def request_line_def rn_def
      line_effect_def hostField_def line_value_def Let_def hs_start_def hs_verdict_def
      nullHandshake_def)

text \<open>
  C16: When no known header has an empty value or one of more than 255 bytes, the verdict is
  declarative: the request is accepted as an opening frame exactly when it has a Host and a
  Key line, a Connection line mentioning upgrade, an Upgrade line starting with websocket (the
  case of letters ignored), no Protocol line, and only Version lines starting with 13, in any
  order and among any other lines.
\<close>

theorem wsParseHandshake_accepts_iff:
  assumes "is_token target" and "13 \<notin> set proto" and "0 \<notin> set proto"
    and "\<forall>l \<in> set ls. good_line l" and "0 \<in> set rest"
    and "length (render_request target proto ls) \<le> inputLength"
  shows "\<exists>hs. wsParseHandshake (render_request target proto ls @ rest) inputLength nullHandshake =
    Inr (if accepts ls then WS_OPENING_FRAME else WS_ERROR_FRAME, hs,
         Some (length (render_request target proto ls)))"
proof -
  have "\<forall>l \<in> set ls. ok_line l" using assms(4) by (simp add: good_line_def)
  moreover obtain st where
    "fold_lines ls (hs_start (nullHandshake\<lparr>hs_resource := Some target\<rparr>)) = Inr st"
    "hs_verdict st = (if accepts ls then WS_OPENING_FRAME else WS_ERROR_FRAME)"
    using fold_lines_verdict [of ls "nullHandshake\<lparr>hs_resource := Some target\<rparr>"] assms(4)
    by (auto simp: nullHandshake_def)
  ultimately show ?thesis
    using wsParseHandshake_refines [OF assms(1-3) _ assms(5,6), of nullHandshake] by auto
qed

definition sample_lines :: "byte list list" where
  "sample_lines = [bytes_of ''Host: a.org'', bytes_of ''Connection: keep-alive, Upgrade'',
     bytes_of ''Upgrade: WebSocket'', bytes_of ''Sec-WebSocket-Version: 13'',
     bytes_of ''Sec-WebSocket-Key: dGhlIHNhbXBsZSBub25jZQ==''\<comment> \<open>the nonce of RFC 6455\<close>]"

theorem wsParseHandshake_accepts_iff_witness:
  "\<exists>hs. wsParseHandshake (render_request (bytes_of ''/'') (bytes_of ''HTTP/1.1'') sample_lines @ [0])
     8192 nullHandshake =
   Inr (WS_OPENING_FRAME, hs, Some (length (render_request (bytes_of ''/'') (bytes_of ''HTTP/1.1'') sample_lines)))"
proof -
  have "\<forall>l \<in> set sample_lines. good_line l" by code_simp
  moreover have "accepts sample_lines" by code_simp
  moreover have "length (render_request (bytes_of ''/'') (bytes_of ''HTTP/1.1'') sample_lines) \<le> 8192"
    by (simp add: sample_lines_def render_request_def request_line_def rn_def)
  ultimately show ?thesis
    using wsParseHandshake_accepts_iff [of "bytes_of ''/''" "bytes_of ''HTTP/1.1''" sample_lines "[0]" 8192]
    by (simp add: is_token_def isspace_def)
qed

end
