(* ===== verification/Handshake_Faults.thy ===== *)
theory Handshake_Faults
  imports Handshake_Laws
begin

text \<open>
  What the handshake does on the inputs a hostile client chooses: which faults the parser can
  reach at all, the requests on which it aborts or overruns the block of the resource, the
  answer for keys that fit, and the key lengths for which the answer's block is too small.
\<close>

section \<open>The resource block\<close>

lemma find_byte_takeWhile:
  "find_sub s [c] = Some n \<Longrightarrow> P c \<Longrightarrow> length (takeWhile (\<lambda>b. \<not> P b) s) \<le> n"
  by (induction s arbitrary: n) (auto split: if_splits)

lemma find_byte_not_earlier:
  "c \<notin> set v \<Longrightarrow> find_sub (v @ c # s) [c] = Some (length v)"
  by (induction v) auto

text \<open>With one space after the method, the word fits the block measured for it.\<close>

lemma resource_fits:
  assumes get: "memcmp_eq buf (bytes_of ''GET '')" and len: "4 < length (cstr buf)"
    and c: "\<not> isspace (buf ! 4)"
    and i: "strchr buf 32 = Some i" and sz: "strchr (drop (i + 1) buf) 32 = Some sz"
    and w: "sscanf_get (cstr buf) = Some word"
  shows "length word \<le> sz"
proof -
  obtain tl where buf: "buf = [71, 69, 84, 32] @ tl"
    using get by (auto simp: memcmp_eq_def prefix_def)
  have cs: "cstr buf = [71, 69, 84, 32] @ cstr tl" unfolding buf by (subst cstr_append) simp_all
  have i3: "i = 3" using i by (simp add: strchr_def cs)
  have tl0: "cstr tl \<noteq> []" "\<not> isspace (hd (cstr tl))"
    using len c by (cases tl; auto simp: cs buf cstr_def split: if_splits)+
  have "sscanf_get (cstr buf) = Some (takeWhile (\<lambda>b. \<not> isspace b) (cstr tl))"
    using tl0 by (cases "cstr tl") (simp_all add: sscanf_get_def cs)
  moreover have "find_sub (cstr tl) [32] = Some sz" using sz by (simp add: i3 strchr_def buf)
  ultimately show ?thesis using w find_byte_takeWhile [of "cstr tl" 32 sz isspace] by simp
qed

lemma wsParseHandshake_overflow_space:
  assumes "wsParseHandshake buf inputLength hs = Inl HeapOverflow" and "0 \<in> set buf"
  shows "isspace (buf ! 4)"
proof (rule ccontr)
  assume c: "\<not> isspace (buf ! 4)"
  from assms obtain e where e: "strstr buf (rn @ rn) = Some e"
    by (cases "strstr buf (rn @ rn)") (auto simp: wsParseHandshake_def)
  have fe: "frame_end_at buf e"
    using find_sub_Some [of "cstr buf" "rn @ rn" e] e by (simp add: frame_end_at_def strstr_def rn_def)
  have get: "memcmp_eq buf (bytes_of ''GET '')"
    using assms(1) e by (auto simp: wsParseHandshake_def Let_def split: if_splits)
  have "4 < length (cstr buf)"
    using field_before_end [OF fe _ _ , of 0 "bytes_of ''GET ''"] get fe by (simp add: frame_end_at_def)
  note fits = resource_fits [OF get this c]
  obtain d where d: "strstr buf rn = Some d" "d + 2 \<le> e \<or> d + 2 = e + 2"
    using line_end [OF fe, of 0] by auto
  have "parse_lines buf inputLength (d + 2) st \<noteq> Inl HeapOverflow" for st
    using parse_lines_safe [OF fe d(2), of inputLength st] by auto
  then show False
    using assms(1) unfolding wsParseHandshake_def e d(1)
    by (auto simp: Let_def bind_r_eq_Inl simp del: bytes_of_simps split: if_splits option.splits
        dest: fits [simplified])
qed

text \<open>With two spaces the block measured is the empty word between them.\<close>

lemma double_space_overflow:
  assumes t: "is_token target" and e: "strstr (bytes_of ''GET  '' @ target @ 32 # rest) (rn @ rn) \<noteq> None"
  shows "wsParseHandshake (bytes_of ''GET  '' @ target @ 32 # rest) inputLength hs = Inl HeapOverflow"
proof -
  let ?buf = "bytes_of ''GET  '' @ target @ 32 # rest"
  have tok: "target \<noteq> []" "0 \<notin> set target" "\<forall>b \<in> set target. \<not> isspace b"
    using t token_no_space [OF t] by (simp_all add: is_token_def)
  have cs: "cstr ?buf = [71, 69, 84, 32, 32] @ target @ 32 # cstr rest"
    using tok(2) by (simp add: cstr_append cstr_Cons)
  have first: "strchr ?buf 32 = Some 3" unfolding strchr_def cs by simp
  have second: "strchr (drop 4 ?buf) 32 = Some 0" by (simp add: strchr_def cstr_Cons)
  have word: "sscanf_get (cstr ?buf) = Some target"
    using tok unfolding cs sscanf_get_def by (cases target) (simp_all add: takeWhile_append)
  have get: "memcmp_eq ?buf (bytes_of ''GET '')" by (simp add: memcmp_eq_def)
  from e obtain n where "strstr ?buf (rn @ rn) = Some n" by auto
  with first second word get tok(1) show ?thesis
    by (simp add: wsParseHandshake_def Let_def del: bytes_of_simps)
qed

section \<open>An empty header value\<close>

lemma line_effect_empty_value:
  assumes f: "f \<in> set fields" "f \<noteq> protocolField"
  shows "line_effect f st = Inl AssertFail"
proof -
  have "g \<in> set fields \<Longrightarrow> prefix g f \<longleftrightarrow> g = f" for g
    using fields_distinct_prefix f(1) by blast
  note is_field = this [of hostField] this [of originField] this [of protocolField]
    this [of keyField] this [of versionField] this [of connectionField] this [of upgradeField]
  show ?thesis
    using f fields_unequal is_field
    by (auto simp: fields_def line_effect_def Let_def line_value_def)
qed

lemma fold_lines_append: "fold_lines (as @ bs) st = bind_r (fold_lines as st) (fold_lines bs)"
proof (induction as arbitrary: st)
  case (Cons a as)
  then have "fold_lines (as @ bs) = (\<lambda>st. bind_r (fold_lines as st) (fold_lines bs))" by auto
  then show ?case by (simp add: bind_r_assoc)
qed simp

lemma field_ok_line: "f \<in> set fields \<Longrightarrow> ok_line f"
  by (auto simp: fields_def ok_line_def hostField_def originField_def protocolField_def keyField_def
      versionField_def connectionField_def upgradeField_def)

section \<open>The answer\<close>

text \<open>The value RFC 6455 prescribes for the header Sec-WebSocket-Accept, and its length.\<close>

definition rfc_accept :: "byte list \<Rightarrow> byte list" where
  "rfc_accept key = b64_spec (fips_sha1 (key @ secret))"

lemma length_rfc_accept: "length (rfc_accept key) = 28"
  by (simp add: rfc_accept_def da.code_length da.digest_length)

lemma answer_fits:
  assumes hs: "hs_type hs = WS_OPENING_FRAME" "hs_key hs = Some key" and key: "length key \<le> 219"
    and out: "outLength \<noteq> 0" "130 \<le> length outFrame"
  shows "wsGetHandshakeAnswer hs outFrame outLength =
    (if 129 \<le> outLength then Inr (answer_text (rfc_accept key) @ [0] @ drop 130 outFrame, 129)
     else Inl AssertFail)"
proof -
  let ?m = "key @ secret"
  have m: "length ?m = length key + length secret" "length ?m < 256" using key by (simp_all add: length_secret)
  have n: "unat (word_of_nat (length ?m) :: byte) = length ?m"
    using m(2) by (intro unat_byte_of_nat)
  have at: "length (answer_text (rfc_accept key)) = 129"
    by (simp add: length_answer_text length_rfc_accept)
  have "wsGetHandshakeAnswer hs outFrame outLength =
      bind_r (sha1 ?m (ucast (word_of_nat (length ?m) :: byte) * 8)) (\<lambda>d. bind_r (base64enc d 20) (\<lambda>k.
        if length ?m < length k then Inl HeapOverflow
        else let text = answer_text (cstr k) in
          bind_r (write_bytes outFrame 0 (text @ [0])) (\<lambda>out.
          bind_r (assert_c (length text \<le> outLength)) (\<lambda>_. Inr (out, length text)))))"
    unfolding wsGetHandshakeAnswer_def Let_def hs option.case m(1) [symmetric] n
    using out(1) by simp
  also have "\<dots> = (if length ?m < length (rfc_accept key @ [0]) then Inl HeapOverflow
        else let text = answer_text (cstr (rfc_accept key @ [0])) in
          bind_r (write_bytes outFrame 0 (text @ [0])) (\<lambda>out.
          bind_r (assert_c (length text \<le> outLength)) (\<lambda>_. Inr (out, length text))))"
    unfolding rfc_accept_def by (rule da.response_key [OF m(2)])
  also have "\<dots> = (let text = answer_text (rfc_accept key) in
          bind_r (write_bytes outFrame 0 (text @ [0])) (\<lambda>out.
          bind_r (assert_c (length text \<le> outLength)) (\<lambda>_. Inr (out, length text))))"
    using da.response_string [of ?m] m(1)
    by (simp add: length_rfc_accept length_secret rfc_accept_def [symmetric])
  finally show ?thesis using out(2) by (simp add: Let_def write_bytes_def at assert_c_def)
qed

lemma answer_overflow:
  assumes hs: "hs_type hs = WS_OPENING_FRAME" "hs_key hs = Some key"
    and key: "220 \<le> length key" and out: "outLength \<noteq> 0"
  shows "wsGetHandshakeAnswer hs outFrame outLength = Inl HeapOverflow"
proof -
  have "unat (word_of_nat (length key + length secret) :: byte) < 256" by (rule unat_byte_bound)
  also have "256 \<le> length key + length secret" using key by (simp add: length_secret)
  finally show ?thesis using hs out by (simp add: wsGetHandshakeAnswer_def Let_def)
qed

section \<open>Properties\<close>


text \<open>A request with an empty Host line, used by the witnesses.\<close>

definition empty_host_request :: "byte list" where
  "empty_host_request = render_request (bytes_of ''/'') (bytes_of ''HTTP/1.1'') [hostField]"


text \<open>
  The resource overrun is reachable: a request whose target is preceded by two spaces
  makes \<open>sscanf\<close> copy the whole target into a block of one byte, whatever the rest of the
  request is.
\<close>

theorem double_space_overruns_resource:
  assumes "is_token target" and "strstr (bytes_of ''GET  '' @ target @ 32 # rest) (rn @ rn) \<noteq> None"
  shows "wsParseHandshake (bytes_of ''GET  '' @ target @ 32 # rest) inputLength hs = Inl HeapOverflow"
  using assms by (rule double_space_overflow)

theorem double_space_overruns_resource_witness:
  "wsParseHandshake (bytes_of ''GET  '' @ bytes_of ''/index'' @ 32 # rn @ rn @ [0]) 8192 nullHandshake =
   Inl HeapOverflow"
  by (rule double_space_overruns_resource) code_simp+

text \<open>
  A known header with an empty value (any but the protocol header) stops the server: after
  any lines that parse, the assertion in \<open>getUptoLinefeed\<close> fails, whatever follows.
\<close>

theorem empty_header_aborts:
  assumes "is_token target" and "13 \<notin> set proto" and "0 \<notin> set proto"
    and "\<forall>l \<in> set before. good_line l" and "f \<in> set fields" and "f \<noteq> protocolField"
    and "\<forall>l \<in> set after. ok_line l" and "0 \<in> set rest"
    and "length (render_request target proto (before @ f # after)) \<le> inputLength"
  shows "wsParseHandshake (render_request target proto (before @ f # after) @ rest) inputLength hs =
    Inl AssertFail"
proof -
  have "ok_line l" if "l \<in> set (before @ f # after)" for l
    using that assms(4,7) field_ok_line [OF assms(5)] by (auto simp: good_line_def)
  note refines = wsParseHandshake_refines [OF assms(1-3) this assms(8,9), of hs]
  moreover obtain st where "fold_lines before (hs_start (hs\<lparr>hs_resource := Some target\<rparr>)) = Inr st"
    using fold_lines_summary [of before] assms(4) by blast
  ultimately show ?thesis
    by (simp add: refines fold_lines_append line_effect_empty_value [OF assms(5,6)])
qed

theorem empty_header_aborts_witness:
  "wsParseHandshake (render_request (bytes_of ''/'') (bytes_of ''HTTP/1.1'') ([] @ hostField # []) @ [0])
     8192 nullHandshake = Inl AssertFail"
  by (rule empty_header_aborts) (code_simp | simp)+

text \<open>
  C26: The answer is the one RFC 6455 prescribes: for an opening handshake with a key of at
  most 219 bytes the 129 bytes sent are the status line, the two upgrade headers and the
  base64 of the SHA-1 digest of the key followed by the protocol's fixed string.
\<close>

theorem handshake_answer_rfc6455:
  assumes "hs_type hs = WS_OPENING_FRAME" and "hs_key hs = Some key" and "length key \<le> 219"
    and "130 \<le> length outFrame" and "129 \<le> outLength"
  shows "\<exists>out. wsGetHandshakeAnswer hs outFrame outLength = Inr (out, 129) \<and>
    take 129 out = answer_text (b64_spec (fips_sha1 (key @ secret))) \<and>
    length out = length outFrame"
  using answer_fits [OF assms(1-3) _ assms(4)] assms(4,5)
    length_answer_text [of "rfc_accept key"] length_rfc_accept [of key]
  by (simp add: rfc_accept_def)

theorem handshake_answer_rfc6455_witness:
  "\<exists>out. wsGetHandshakeAnswer (nullHandshake\<lparr>hs_key := Some (bytes_of ''dGhlIHNhbXBsZSBub25jZQ==''),
      hs_type := WS_OPENING_FRAME\<rparr>) (replicate 16001 0) 16001 = Inr (out, 129) \<and>
    take 129 out = answer_text (b64_spec (fips_sha1 (bytes_of ''dGhlIHNhbXBsZSBub25jZQ=='' @ secret))) \<and>
    length out = length (replicate 16001 (0 :: byte))"
  by (rule handshake_answer_rfc6455) (simp_all del: bytes_of_simps)

text \<open>
  A key of 220 bytes or more, which the parser accepts up to 255 bytes, overruns the heap
  block of the answer, because its size is kept in a \<^verbatim>\<open>uint8_t\<close>.
\<close>

theorem long_key_overruns_answer:
  assumes "hs_type hs = WS_OPENING_FRAME" and "hs_key hs = Some key" and "220 \<le> length key"
    and "outLength \<noteq> 0"
  shows "wsGetHandshakeAnswer hs outFrame outLength = Inl HeapOverflow"
  using assms by (rule answer_overflow)

theorem long_key_overruns_answer_witness:
  "wsGetHandshakeAnswer (nullHandshake\<lparr>hs_key := Some (replicate 220 65), hs_type := WS_OPENING_FRAME\<rparr>)
     (replicate 16001 0) 16001 = Inl HeapOverflow"
  by (rule long_key_overruns_answer [where key = "replicate 220 65"]) simp_all

end
