(* ===== verification/Connection.thy ===== *)
theory Connection
  imports Frame Handshake
begin

text \<open>
  One client connection, the class \<open>Client\<close> of \<^verbatim>\<open>client.cpp\<close>: its receive and send
  buffers, the TLS handshake and the calls of OpenSSL and of the socket API, receiving a
  message, the opening handshake, sending a frame and disconnecting. OpenSSL, \<^verbatim>\<open>select\<close>,
  \<^verbatim>\<open>accept\<close> and \<^verbatim>\<open>fcntl\<close> are not part of the sources: they are the record \<open>tls_api\<close> of
  functions on a connection state \<open>'s\<close>, an argument of every definition that calls them.
\<close>

section \<open>The interface of OpenSSL and of select\<close>

datatype ssl_error = SSL_ERROR_NONE | SSL_ERROR_WANT_READ | SSL_ERROR_WANT_WRITE | SSL_ERROR_OTHER

text \<open>
  \<open>SSL_read\<close> takes the size of the destination and returns its result, the bytes it stored
  and what \<^verbatim>\<open>SSL_get_error\<close> says of it; \<open>SSL_write\<close> takes the bytes; \<open>select_rw\<close> is the
  blocking \<^verbatim>\<open>select\<close> on the connection's socket: whether it is readable and writable.
\<close>

record 's tls_api =
  SSL_read :: "'s \<Rightarrow> int \<Rightarrow> (int \<times> byte list \<times> ssl_error) \<times> 's"
  SSL_write :: "'s \<Rightarrow> byte list \<Rightarrow> (int \<times> ssl_error) \<times> 's"
  SSL_shutdown :: "'s \<Rightarrow> int \<times> 's"
  select_rw :: "'s \<Rightarrow> (bool \<times> bool) \<times> 's"

text \<open>\<^verbatim>\<open>FD_SET\<close> on a descriptor outside 0 to \<^verbatim>\<open>FD_SETSIZE\<close> - 1 writes outside the set.\<close>

definition FD_SETSIZE :: int where
  "FD_SETSIZE = 1024"

definition fd_set_ok :: "int \<Rightarrow> unit result" where
  "fd_set_ok fd = (if 0 \<le> fd \<and> fd < FD_SETSIZE then Inr () else Inl OutOfBounds)"

section \<open>The state of a client\<close>

definition BUF_LEN :: int where "BUF_LEN = 8192"
definition SEND_BUF_LEN :: int where "SEND_BUF_LEN = 16000"

definition READ_SUCCEED :: int where "READ_SUCCEED = 0"
definition READ_SUCCEED_DATA_AVAILABLE :: int where "READ_SUCCEED_DATA_AVAILABLE = 1"
definition WAITING_FOR_MORE_DATA :: int where "WAITING_FOR_MORE_DATA = 2"
definition HANDSHAKE_SUCCEED :: int where "HANDSHAKE_SUCCEED = 3"
definition NETWORK_ERROR :: int where "NETWORK_ERROR = -1"
definition HANDSHAKE_FAILED :: int where "HANDSHAKE_FAILED = -6"
definition INVALID_FRAME :: int where "INVALID_FRAME = -5"
definition CLIENT_DISCONNECTED :: int where "CLIENT_DISCONNECTED = -4"
definition BUFFER_TOO_SMALL :: int where "BUFFER_TOO_SMALL = -3"

lemmas return_codes = READ_SUCCEED_def READ_SUCCEED_DATA_AVAILABLE_def WAITING_FOR_MORE_DATA_def
  HANDSHAKE_SUCCEED_def NETWORK_ERROR_def HANDSHAKE_FAILED_def INVALID_FRAME_def
  CLIENT_DISCONNECTED_def BUFFER_TOO_SMALL_def

record 's client =
  cl_id :: int
  socket :: int
  last_error :: int
  frame_buf :: "byte list"
  send_buf :: "byte list"
  frame_buf_pos :: int
  handshaked :: bool
  tls_connection :: 's

text \<open>
  The default constructor; the fields it leaves unset (the buffers, the error and the TLS
  pointer) keep the contents of the given object.
\<close>

definition Client :: "'s client \<Rightarrow> 's client" where
  "Client c = c\<lparr>cl_id := -1, socket := -1, frame_buf_pos := 0, handshaked := False\<rparr>"

definition set_id :: "'s client \<Rightarrow> int \<Rightarrow> 's client" where
  "set_id c new_id = c\<lparr>cl_id := new_id\<rparr>"

definition get_id :: "'s client \<Rightarrow> int" where
  "get_id c = cl_id c"

definition get_socket :: "'s client \<Rightarrow> int" where
  "get_socket c = socket c"

definition get_last_error :: "'s client \<Rightarrow> int" where
  "get_last_error c = last_error c"

section \<open>Accepting and closing\<close>

text \<open>What the calls in \<open>Accept\<close> return: the descriptor and \<^verbatim>\<open>errno\<close> of \<^verbatim>\<open>accept\<close>, the
  connection made by \<^verbatim>\<open>SSL_new\<close>, and the results of \<^verbatim>\<open>SSL_set_fd\<close> and \<^verbatim>\<open>SSL_accept\<close>.\<close>

record 's accept_calls =
  ac_accept :: int
  ac_errno :: int
  ac_SSL_new :: "'s option"
  ac_SSL_set_fd :: int
  ac_SSL_accept :: "int \<times> 's"

text \<open>A null pointer in \<^verbatim>\<open>tls_connection\<close> is not represented: the only caller drops the client.\<close>

definition Accept :: "'s accept_calls \<Rightarrow> 's client \<Rightarrow> int \<times> 's client" where
  "Accept calls c =
     (let c1 = c\<lparr>socket := ac_accept calls\<rparr> in
      if ac_accept calls \<le> 0 then (-1, c1\<lparr>last_error := ac_errno calls\<rparr>)
      else
        case ac_SSL_new calls of
          None \<Rightarrow> (-3, c1)
        | Some tls \<Rightarrow>
            let c2 = c1\<lparr>tls_connection := tls\<rparr> in
            if ac_SSL_set_fd calls = 0 then (-4, c2)
            else
              let (ret, tls') = ac_SSL_accept calls; c3 = c2\<lparr>tls_connection := tls'\<rparr> in
              if ret \<le> 0 then (-5, c3) else (0, c3))"

text \<open>
  The second constructor, which nothing calls: it accepts, and leaves the id, the position and the
  flag as they are in the memory of the object.
\<close>

definition Client_listener :: "'s accept_calls \<Rightarrow> 's client \<Rightarrow> 's client" where
  "Client_listener calls c =
     (let (ret, c1) = Accept calls c in if ret < 0 then c1\<lparr>socket := -1\<rparr> else c1)"

definition CloseSocket :: "'s tls_api \<Rightarrow> 's client \<Rightarrow> 's client" where
  "CloseSocket api c =
     (let (ret, s) = SSL_shutdown api (tls_connection c);
          s' = (if ret = 0 then snd (SSL_shutdown api s) else s);
          c' = c\<lparr>tls_connection := s'\<rparr> in
      if socket c > 0 then c'\<lparr>socket := -1\<rparr> else c')"

text \<open>The result of \<^verbatim>\<open>fcntl\<close> and \<^verbatim>\<open>errno\<close> are arguments; on success no value is returned.\<close>

definition SetNonBlocking :: "'s tls_api \<Rightarrow> int \<Rightarrow> int \<Rightarrow> 's client \<Rightarrow> int option \<times> 's client" where
  "SetNonBlocking api fcntl errno c =
     (if fcntl < 0 then (Some (-1), CloseSocket api (c\<lparr>last_error := errno\<rparr>)) else (None, c))"

section \<open>Sending\<close>

text \<open>
  The loop of \<open>SendFrame\<close>; it may wait for ever, which is the value \<open>None\<close>. A \<^verbatim>\<open>continue\<close> goes
  to the loop's condition, which holds then.
\<close>

partial_function (option) send_loop ::
  "'s tls_api \<Rightarrow> byte list \<Rightarrow> ssl_error \<Rightarrow> 's \<Rightarrow> (int \<times> 's) option" where
  "send_loop api buffer err s =
     (let ((readable, writable), s1) = select_rw api s in
      if err = SSL_ERROR_WANT_WRITE \<and> \<not> writable \<or> err = SSL_ERROR_WANT_READ \<and> \<not> readable
      then send_loop api buffer err s1
      else
        let ((ret, err'), s2) = SSL_write api s1 buffer in
        if err' = SSL_ERROR_WANT_READ \<or> err' = SSL_ERROR_WANT_WRITE
        then send_loop api buffer err' s2
        else Some (ret, s2))"

definition SendFrame :: "'s tls_api \<Rightarrow> 's client \<Rightarrow> byte list \<Rightarrow> (int \<times> 's client) result" where
  "SendFrame api c buffer =
     bind_r (fd_set_ok (socket c)) (\<lambda>_.
     case send_loop api buffer SSL_ERROR_WANT_WRITE (tls_connection c) of
       None \<Rightarrow> Inl NoReturn
     | Some (ret, s) \<Rightarrow> Inr (if ret \<le> 0 then -1 else 0, c\<lparr>tls_connection := s\<rparr>))"

definition Send :: "'s tls_api \<Rightarrow> 's client \<Rightarrow> byte list \<Rightarrow> (int \<times> 's client) result" where
  "Send api c message =
     bind_r (wsMakeFrame (Some message) (word_of_nat (length message)) (send_buf c)
         (word_of_int SEND_BUF_LEN) WS_TEXT_FRAME) (\<lambda>(sb, frame_len).
     let c1 = c\<lparr>send_buf := sb\<rparr> in
     if frame_len < 0 then Inr (-10, c1)
     else bind_r (read_bytes sb 0 (nat frame_len)) (\<lambda>frame. SendFrame api c1 frame))"

definition Disconnect :: "'s tls_api \<Rightarrow> 's client \<Rightarrow> 's client result" where
  "Disconnect api c =
     bind_r (wsMakeFrame None 0 (send_buf c) (word_of_int SEND_BUF_LEN) WS_CLOSING_FRAME)
       (\<lambda>(sb, frame_size).
     let c1 = c\<lparr>send_buf := sb\<rparr> in
     bind_r (if frame_size > 0
             then bind_r (read_bytes sb 0 (nat frame_size)) (\<lambda>frame.
                  bind_r (SendFrame api c1 frame) (\<lambda>(ret, c2). Inr c2))
             else Inr c1) (\<lambda>c2.
     Inr (CloseSocket api c2)))"

section \<open>Receiving\<close>

text \<open>
  \<open>SSL_read\<close> into the free part of the receive buffer. The buffer and the position change
  only for a positive result.
\<close>

definition read_more ::
  "'s tls_api \<Rightarrow> 's client \<Rightarrow> (int \<times> ssl_error \<times> 's client) result" where
  "read_more api c =
     (let ((ret, bytes, err), s) = SSL_read api (tls_connection c) (BUF_LEN - frame_buf_pos c);
          c1 = c\<lparr>tls_connection := s\<rparr> in
      if ret > 0 then
        if frame_buf_pos c < 0 then Inl OutOfBounds
        else
          bind_r (write_bytes (frame_buf c) (nat (frame_buf_pos c)) bytes) (\<lambda>buf.
          Inr (ret, err, c1\<lparr>frame_buf := buf, frame_buf_pos := frame_buf_pos c + ret\<rparr>))
      else Inr (ret, err, c1))"

text \<open>
  Taking a frame off the front of the buffer. The difference is computed in \<^verbatim>\<open>size_t\<close> and
  stored in an \<^verbatim>\<open>int\<close>, which \<^verbatim>\<open>memcpy\<close> takes as a \<^verbatim>\<open>size_t\<close> again. The regions of the
  \<^verbatim>\<open>memcpy\<close> may overlap; the model copies as \<^verbatim>\<open>memmove\<close> does.
\<close>

definition drop_frame :: "c_size \<Rightarrow> 's client \<Rightarrow> 's client result" where
  "drop_frame frame_size c =
     (let pos = int_of_size (word_of_int (frame_buf_pos c) - frame_size) in
      bind_r (read_bytes (frame_buf c) (unat frame_size) (unat (word_of_int pos :: c_size))) (\<lambda>bs.
      bind_r (write_bytes (frame_buf c) 0 bs) (\<lambda>buf.
      Inr (c\<lparr>frame_buf := buf, frame_buf_pos := pos\<rparr>))))"

definition bad_request :: "byte list" where
  "bad_request =
     bytes_of ''HTTP/1.1 400 Bad Request'' @ rn @ versionField @ version @ rn @ rn"

text \<open>
  \<open>Handshake\<close> from the parse on. The answer to a malformed request is written over the cleared
  send buffer with its final zero; the result of sending it is ignored.
\<close>

definition clear_send_buf :: "'s client \<Rightarrow> 's client result" where
  "clear_send_buf c =
     bind_r (write_bytes (send_buf c) 0 (replicate (nat BUF_LEN) 0)) (\<lambda>sb. Inr (c\<lparr>send_buf := sb\<rparr>))"

definition reject_request :: "'s tls_api \<Rightarrow> 's client \<Rightarrow> (int \<times> 's client) result" where
  "reject_request api c =
     bind_r (clear_send_buf c) (\<lambda>c1.
     bind_r (write_bytes (send_buf c1) 0 (bad_request @ [0])) (\<lambda>sb.
     bind_r (SendFrame api (c1\<lparr>send_buf := sb\<rparr>) (take (length bad_request) sb)) (\<lambda>(ret, c2).
     Inr (INVALID_FRAME, c2))))"

definition answer_request ::
  "'s tls_api \<Rightarrow> handshake \<Rightarrow> nat \<Rightarrow> 's client \<Rightarrow> (int \<times> 's client) result" where
  "answer_request api hs frame_size c =
     bind_r (clear_send_buf c) (\<lambda>c1.
     bind_r (wsGetHandshakeAnswer hs (send_buf c1) (nat BUF_LEN)) (\<lambda>(sb, send_size).
     let c2 = c1\<lparr>send_buf := sb\<rparr> in
     bind_r (assert_c (int frame_size \<le> frame_buf_pos c2)) (\<lambda>_.
     bind_r (drop_frame (word_of_nat frame_size) c2) (\<lambda>c3.
     bind_r (read_bytes (send_buf c3) 0 send_size) (\<lambda>answer.
     bind_r (SendFrame api c3 answer) (\<lambda>(ret, c4).
     if ret = -1 then Inr (NETWORK_ERROR, c4)
     else
       let c5 = c4\<lparr>handshaked := True\<rparr> in
       Inr (if frame_buf_pos c5 = 0 then READ_SUCCEED else READ_SUCCEED_DATA_AVAILABLE, c5)))))))"

definition handshake_frame :: "'s tls_api \<Rightarrow> 's client \<Rightarrow> (int \<times> 's client) result" where
  "handshake_frame api c =
     bind_r (wsParseHandshake (frame_buf c) (nat (frame_buf_pos c)) nullHandshake)
       (\<lambda>(frame_type, hs, frame_size).
     if frame_type = WS_INCOMPLETE_FRAME \<and> BUF_LEN \<le> frame_buf_pos c \<or> frame_type = WS_ERROR_FRAME
     then reject_request api c
     else if frame_type = WS_INCOMPLETE_FRAME then Inr (WAITING_FOR_MORE_DATA, c)
     else if frame_type = WS_OPENING_FRAME
     then case frame_size of None \<Rightarrow> Inl OutOfBounds | Some n \<Rightarrow> answer_request api hs n c
     else Inr (INVALID_FRAME, c))"

definition Handshake :: "'s tls_api \<Rightarrow> 's client \<Rightarrow> (int \<times> 's client) result" where
  "Handshake api c =
     bind_r (read_more api c) (\<lambda>(ret, err, c1).
     if ret < 0 then
       Inr (if err = SSL_ERROR_WANT_READ then WAITING_FOR_MORE_DATA else NETWORK_ERROR, c1)
     else if ret = 0 then Inr (CLIENT_DISCONNECTED, c1)
     else
       bind_r (write_at (frame_buf c1) (nat (frame_buf_pos c1)) 0) (\<lambda>buf.
       handshake_frame api (c1\<lparr>frame_buf := buf\<rparr>)))"

text \<open>
  A text frame: the payload and a final zero go to the caller's buffer, unless it is too small.
  The data pointer is unset for an empty payload, of which \<^verbatim>\<open>memcpy\<close> copies nothing.
\<close>

definition text_frame ::
  "parsed \<Rightarrow> byte list \<Rightarrow> int \<Rightarrow> 's client \<Rightarrow> (int \<times> 's client \<times> byte list \<times> int) result" where
  "text_frame r buf len c =
     (case (p_dlen r, p_flen r) of
        (Some data_size, Some frame_size) \<Rightarrow>
          if data_size \<ge> word_of_int len then
            bind_r (drop_frame frame_size c) (\<lambda>c1. Inr (BUFFER_TOO_SMALL, c1, buf, len))
          else
            bind_r (case p_data r of None \<Rightarrow> Inr []
              | Some d \<Rightarrow> read_bytes (frame_buf c) d (unat data_size)) (\<lambda>bytes.
            bind_r (write_bytes buf 0 bytes) (\<lambda>buf1.
            bind_r (write_at buf1 (unat data_size) 0) (\<lambda>buf2.
            bind_r (assert_c (frame_size \<le> word_of_int (frame_buf_pos c))) (\<lambda>_.
            bind_r (drop_frame frame_size c) (\<lambda>c1.
            Inr (if frame_buf_pos c1 = 0 then READ_SUCCEED else READ_SUCCEED_DATA_AVAILABLE,
                 c1, buf2, int_of_size data_size))))))
      | _ \<Rightarrow> Inl OutOfBounds)"

definition receive_frame ::
  "byte list \<Rightarrow> int \<Rightarrow> 's client \<Rightarrow> (int \<times> 's client \<times> byte list \<times> int) result" where
  "receive_frame buf len c =
     bind_r (wsParseInputFrame (frame_buf c) (word_of_int (frame_buf_pos c))) (\<lambda>r.
     let c1 = c\<lparr>frame_buf := p_buf r\<rparr>; frame_type = p_type r in
     if frame_type = WS_INCOMPLETE_FRAME \<and> BUF_LEN \<le> frame_buf_pos c1 \<or>
        frame_type = WS_ERROR_FRAME
     then Inr (INVALID_FRAME, c1, buf, len)
     else if frame_type = WS_INCOMPLETE_FRAME then Inr (WAITING_FOR_MORE_DATA, c1, buf, len)
     else if frame_type = WS_TEXT_FRAME then text_frame r buf len c1
     else if frame_type = WS_CLOSING_FRAME then Inr (CLIENT_DISCONNECTED, c1, buf, len)
     else Inr (INVALID_FRAME, c1, buf, len))"

text \<open>
  \<open>Receive\<close> with the caller's buffer and \<^verbatim>\<open>*len\<close> as arguments and results.
\<close>

definition Receive ::
  "'s tls_api \<Rightarrow> 's client \<Rightarrow> byte list \<Rightarrow> int \<Rightarrow> (int \<times> 's client \<times> byte list \<times> int) result" where
  "Receive api c buf len =
     (if \<not> handshaked c then
        bind_r (Handshake api c) (\<lambda>(ret, c1).
        Inr (if ret < 0 then HANDSHAKE_FAILED
             else if handshaked c1 then HANDSHAKE_SUCCEED else WAITING_FOR_MORE_DATA, c1, buf, len))
      else
        bind_r (read_more api c) (\<lambda>(ret, err, c1).
        if ret < 0 then
          if err = SSL_ERROR_WANT_READ then
            if frame_buf_pos c1 = 0 then Inr (WAITING_FOR_MORE_DATA, c1, buf, len)
            else receive_frame buf len c1
          else Inr (NETWORK_ERROR, c1, buf, len)
        else if ret = 0 then Inr (CLIENT_DISCONNECTED, c1, buf, len)
        else receive_frame buf len c1))"

end
