(* ===== verification/Connection_Laws.thy ===== *)
theory Connection_Laws
  imports Connection Frame_Truncated Handshake_Faults
begin

text \<open>
  The laws of a connection. The hypotheses on OpenSSL are its documented contract: a read
  stores as many bytes as it returns and no more than asked, a successful write has sent all
  of its bytes. Under them \<open>Receive\<close> keeps the invariant of the buffers and delivers the
  frames of the byte stream in order, and \<open>Send\<close> puts exactly one frame on the wire.
\<close>

section \<open>The contract of OpenSSL\<close>

definition ssl_read_ok :: "'s tls_api \<Rightarrow> bool" where
  "ssl_read_ok api \<longleftrightarrow>
     (\<forall>s n ret bytes err s'. SSL_read api s n = ((ret, bytes, err), s') \<longrightarrow> 0 < ret \<longrightarrow>
        int (length bytes) = ret \<and> ret \<le> n)"

text \<open>\<open>pending s\<close> stands for the bytes of the peer that were not read yet.\<close>

definition ssl_stream_ok :: "'s tls_api \<Rightarrow> ('s \<Rightarrow> byte list) \<Rightarrow> bool" where
  "ssl_stream_ok api pending \<longleftrightarrow>
     (\<forall>s n ret bytes err s'. SSL_read api s n = ((ret, bytes, err), s') \<longrightarrow>
        pending s = (if 0 < ret then bytes @ pending s' else pending s')) \<and>
     (\<forall>s bytes r s'. SSL_write api s bytes = (r, s') \<longrightarrow> pending s' = pending s) \<and>
     (\<forall>s rw s'. select_rw api s = (rw, s') \<longrightarrow> pending s' = pending s)"

text \<open>\<open>sent s\<close> stands for the bytes sent to the peer so far.\<close>

definition ssl_write_ok :: "'s tls_api \<Rightarrow> ('s \<Rightarrow> byte list) \<Rightarrow> bool" where
  "ssl_write_ok api sent \<longleftrightarrow>
     (\<forall>s bytes ret err s'. SSL_write api s bytes = ((ret, err), s') \<longrightarrow>
        sent s' = (if 0 < ret then sent s @ bytes else sent s) \<and>
        (0 < ret \<longrightarrow> err = SSL_ERROR_NONE)) \<and>
     (\<forall>s rw s'. select_rw api s = (rw, s') \<longrightarrow> sent s' = sent s) \<and>
     (\<forall>s n r s'. SSL_read api s n = (r, s') \<longrightarrow> sent s' = sent s) \<and>
     (\<forall>s r s'. SSL_shutdown api s = (r, s') \<longrightarrow> sent s' = sent s)"

section \<open>The invariant of a client\<close>

definition bufs_ok :: "'s client \<Rightarrow> bool" where
  "bufs_ok c \<longleftrightarrow> length (frame_buf c) = 8193 \<and> length (send_buf c) = 16001"

definition client_ok :: "'s client \<Rightarrow> bool" where
  "client_ok c \<longleftrightarrow> bufs_ok c \<and> 0 \<le> frame_buf_pos c \<and> frame_buf_pos c < BUF_LEN"

text \<open>The bytes of the peer's stream that no frame has been taken from yet.\<close>

definition stream :: "('s \<Rightarrow> byte list) \<Rightarrow> 's client \<Rightarrow> byte list" where
  "stream pending c = take (nat (frame_buf_pos c)) (frame_buf c) @ pending (tls_connection c)"

section \<open>Reading and dropping\<close>

lemma read_more_result:
  assumes "ssl_read_ok api" and "client_ok c"
  obtains ret err s b p where
    "read_more api c = Inr (ret, err, c\<lparr>tls_connection := s, frame_buf := b, frame_buf_pos := p\<rparr>)"
    "length b = 8193" "p = frame_buf_pos c + max 0 ret" "0 \<le> p" "p \<le> 8192"
    "ssl_stream_ok api pending \<Longrightarrow> take (nat p) b @ pending s = stream pending c"
proof -
  obtain ret bytes err s where rd:
    "SSL_read api (tls_connection c) (BUF_LEN - frame_buf_pos c) = ((ret, bytes, err), s)"
    by (metis prod.exhaust)
  have c: "length (frame_buf c) = 8193" "0 \<le> frame_buf_pos c" "frame_buf_pos c < 8192"
    using assms(2) by (simp_all add: client_ok_def bufs_ok_def BUF_LEN_def)
  show thesis
  proof (cases "0 < ret")
    case True
    then have n: "int (length bytes) = ret" "ret \<le> 8192 - frame_buf_pos c"
      using assms(1) [unfolded ssl_read_ok_def, rule_format, OF rd True]
      by (simp_all add: BUF_LEN_def)
    let ?p = "nat (frame_buf_pos c)" and ?b = "take (nat (frame_buf_pos c)) (frame_buf c) @ bytes @
      drop (nat (frame_buf_pos c) + length bytes) (frame_buf c)"
    have fits: "?p + length bytes \<le> 8193" using n c by linarith
    have np: "nat (frame_buf_pos c + ret) = ?p + length bytes" using n c by linarith
    show thesis
    proof (rule that)
      show "read_more api c = Inr (ret, err,
          c\<lparr>tls_connection := s, frame_buf := ?b, frame_buf_pos := frame_buf_pos c + ret\<rparr>)"
        using True c fits by (simp add: read_more_def rd mem_ok)
      show "length ?b = 8193" using fits c by simp
      show "take (nat (frame_buf_pos c + ret)) ?b @ pending s = stream pending c"
        if "ssl_stream_ok api pending"
      proof -
        have "pending (tls_connection c) = bytes @ pending s"
          using that True rd by (auto simp: ssl_stream_ok_def)
        then show ?thesis using c fits by (simp add: stream_def np)
      qed
    qed (use True c n in \<open>simp_all\<close>)
  next
    case False
    show thesis
    proof (rule that)
      show "read_more api c = Inr (ret, err, c\<lparr>tls_connection := s, frame_buf := frame_buf c,
          frame_buf_pos := frame_buf_pos c\<rparr>)"
        using False by (simp add: read_more_def rd)
      show "take (nat (frame_buf_pos c)) (frame_buf c) @ pending s = stream pending c"
        if "ssl_stream_ok api pending"
        using that False rd by (auto simp: ssl_stream_ok_def stream_def)
    qed (use False c in \<open>simp_all\<close>)
  qed
qed

lemma read_more_sent:
  assumes "ssl_write_ok api sent" and "read_more api c = Inr (ret, err, c')"
  shows "sent (tls_connection c') = sent (tls_connection c)"
proof -
  obtain r s where rd: "SSL_read api (tls_connection c) (BUF_LEN - frame_buf_pos c) = (r, s)"
    by (metis prod.exhaust)
  have "sent s = sent (tls_connection c)" using assms(1) rd unfolding ssl_write_ok_def by blast
  with assms(2) rd show ?thesis
    by (auto simp: read_more_def Let_def bind_r_eq_Inr split: prod.splits if_splits)
qed

lemma unat_pos: "0 \<le> i \<Longrightarrow> i < 2 ^ 31 \<Longrightarrow> unat (word_of_int i :: c_size) = nat i"
proof -
  assume i: "0 \<le> i" "i < 2 ^ 31"
  then have "word_of_int i = (word_of_nat (nat i) :: c_size)" by simp
  moreover have "nat i < 2 ^ 64" using i(2) by simp
  ultimately show ?thesis by (simp only: unat_of_nat) simp
qed

lemma int_of_size_of_int: "0 \<le> i \<Longrightarrow> i < 2 ^ 31 \<Longrightarrow> int_of_size (word_of_int i) = i"
  using int_of_size_small [of "word_of_int i"] unat_pos [of i] by simp

lemma pos_minus_frame:
  assumes "0 \<le> p" and "p < 2 ^ 31" and "int n \<le> p"
  shows "word_of_int p - word_of_nat n = (word_of_int (p - int n) :: c_size)"
    and "int_of_size (word_of_int p - word_of_nat n) = p - int n"
proof -
  show e: "word_of_int p - word_of_nat n = (word_of_int (p - int n) :: c_size)" by simp
  show "int_of_size (word_of_int p - word_of_nat n) = p - int n"
    unfolding e using assms by (intro int_of_size_of_int) simp_all
qed

lemma drop_frame_ok:
  assumes "length (frame_buf c) = 8193" and "0 \<le> frame_buf_pos c" and "frame_buf_pos c \<le> 8192"
    and "int n \<le> frame_buf_pos c"
  shows "drop_frame (word_of_nat n) c = Inr (c\<lparr>
    frame_buf := take (nat (frame_buf_pos c) - n) (drop n (frame_buf c)) @
      drop (nat (frame_buf_pos c) - n) (frame_buf c),
    frame_buf_pos := frame_buf_pos c - int n\<rparr>)"
proof -
  let ?p = "frame_buf_pos c"
  have pos: "int_of_size (word_of_int ?p - word_of_nat n) = ?p - int n"
    using assms by (intro pos_minus_frame(2)) simp_all
  have n: "unat (word_of_nat n :: c_size) = n" using assms(3,4) by (simp add: unat_of_nat)
  have m: "unat (word_of_int (?p - int n) :: c_size) = nat ?p - n"
    using assms by (subst unat_pos) (simp_all add: nat_diff_distrib)
  have "nat ?p \<le> 8192" using assms(3) by simp
  then show ?thesis using assms(1,4)
    by (simp add: drop_frame_def Let_def pos n m mem_ok del: of_int_diff)
qed

section \<open>Receiving one frame\<close>

text \<open>Only the receive buffer, its position and the TLS state differ.\<close>

definition buf_only :: "'s client \<Rightarrow> 's client \<Rightarrow> bool" where
  "buf_only c c' \<longleftrightarrow>
     cl_id c' = cl_id c \<and> socket c' = socket c \<and> last_error c' = last_error c \<and>
     send_buf c' = send_buf c \<and> handshaked c' = handshaked c \<and> length (frame_buf c') = 8193"

text \<open>After a read: the state \<open>receive_frame\<close> works on.\<close>

definition filled :: "'s client \<Rightarrow> bool" where
  "filled c \<longleftrightarrow> length (frame_buf c) = 8193 \<and> 0 < frame_buf_pos c \<and> frame_buf_pos c \<le> 8192"

lemma filled_take:
  assumes "filled c"
  shows "length (take (nat (frame_buf_pos c)) (frame_buf c)) = nat (frame_buf_pos c)"
proof -
  have "nat (frame_buf_pos c) \<le> length (frame_buf c)" using assms by (auto simp: filled_def)
  then show ?thesis by simp
qed

text \<open>The buffer holds the front of the stream; what is taken off it is taken off the stream.\<close>

lemma stream_front:
  assumes "filled c" and "stream pending c = xs"
  shows "take (nat (frame_buf_pos c)) (frame_buf c) = take (nat (frame_buf_pos c)) xs"
  using assms(2) filled_take [OF assms(1)] unfolding stream_def by (metis append_eq_conv_conj)

lemma stream_drop:
  assumes "filled c" and "int m \<le> frame_buf_pos c"
    and "take (nat (frame_buf_pos c')) (frame_buf c') = drop m (take (nat (frame_buf_pos c)) (frame_buf c))"
    and "pending (tls_connection c') = pending (tls_connection c)"
  shows "stream pending c' = drop m (stream pending c)" and "m \<le> length (stream pending c)"
proof -
  have "m \<le> nat (frame_buf_pos c)" using assms(2) by linarith
  with assms(3,4) filled_take [OF assms(1)]
  show "stream pending c' = drop m (stream pending c)" and "m \<le> length (stream pending c)"
    by (simp_all add: stream_def)
qed

lemma filled_len:
  assumes "filled c"
  shows "unat (word_of_int (frame_buf_pos c) :: c_size) = nat (frame_buf_pos c)"
    and "unat (word_of_int (frame_buf_pos c) :: c_size) \<le> length (frame_buf c)"
    and "(word_of_int (frame_buf_pos c) :: c_size) \<noteq> 0"
proof -
  show u: "unat (word_of_int (frame_buf_pos c) :: c_size) = nat (frame_buf_pos c)"
    using assms by (intro unat_pos) (simp_all add: filled_def)
  then show "unat (word_of_int (frame_buf_pos c) :: c_size) \<le> length (frame_buf c)"
    using assms by (auto simp: filled_def nat_le_iff)
  show "(word_of_int (frame_buf_pos c) :: c_size) \<noteq> 0"
    using u assms by (metis filled_def unat_0 zero_less_nat_eq less_irrefl)
qed

lemma int_of_size_nat: "n < 2 ^ 31 \<Longrightarrow> int_of_size (word_of_nat n) = int n"
  using int_of_size_small [of "word_of_nat n"] by (simp add: unat_of_nat)

text \<open>A text frame of \<open>n\<close> payload bytes after a header of \<open>k\<close> bytes, all in the buffer.\<close>

lemma text_frame_ok:
  assumes c: "filled c" and r: "p_dlen r = Some (word_of_nat n)" "p_flen r = Some (word_of_nat (k + n))"
    "p_data r = (if n = 0 then None else Some k)"
    and fits: "int (k + n) \<le> frame_buf_pos c" "0 < k" and buf: "length buf = 2048"
  shows "text_frame r buf 2048 c =
    (let p = nat (frame_buf_pos c) - (k + n);
         c' = c\<lparr>frame_buf := take p (drop (k + n) (frame_buf c)) @ drop p (frame_buf c),
               frame_buf_pos := int p\<rparr> in
     if 2048 \<le> n then Inr (BUFFER_TOO_SMALL, c', buf, 2048)
     else Inr (if p = 0 then READ_SUCCEED else READ_SUCCEED_DATA_AVAILABLE, c',
       take n (drop k (frame_buf c)) @ 0 # drop (Suc n) buf, int n))"
proof -
  let ?p = "nat (frame_buf_pos c) - (k + n)"
  have pos: "length (frame_buf c) = 8193" "0 \<le> frame_buf_pos c" "frame_buf_pos c \<le> 8192"
    using c by (simp_all add: filled_def)
  have hn: "k + n \<le> 8192" using fits pos by linarith
  have sz: "unat (word_of_nat n :: c_size) = n" "unat (word_of_nat (k + n) :: c_size) = k + n"
    using hn by (simp_all add: unat_of_nat del: of_nat_add)
  have big: "(2048 :: c_size) \<le> word_of_nat n \<longleftrightarrow> 2048 \<le> n" by (simp add: word_le_nat_alt sz)
  have asrt: "word_of_nat (k + n) \<le> (word_of_int (frame_buf_pos c) :: c_size)"
    using fits(1) by (simp only: word_le_nat_alt sz filled_len(1) [OF c])
  have eqp: "frame_buf_pos c - int (k + n) = int ?p" using fits(1) by linarith
  have drp: "drop_frame (word_of_nat (k + n)) c = Inr (c\<lparr>
      frame_buf := take ?p (drop (k + n) (frame_buf c)) @ drop ?p (frame_buf c),
      frame_buf_pos := int ?p\<rparr>)"
    unfolding drop_frame_ok [OF pos fits(1)] eqp ..
  have bytes: "(case p_data r of None \<Rightarrow> Inr [] | Some d \<Rightarrow> read_bytes (frame_buf c) d (unat (word_of_nat n :: c_size))) =
      Inr (take n (drop k (frame_buf c)))"
    using r(3) hn pos(1) by (cases "n = 0") (auto simp: sz mem_ok)
  have wr: "write_bytes buf 0 (take n (drop k (frame_buf c))) = Inr (take n (drop k (frame_buf c)) @ drop n buf)"
    "write_at (take n (drop k (frame_buf c)) @ drop n buf) n 0 =
      Inr (take n (drop k (frame_buf c)) @ 0 # drop (Suc n) buf)" if lt: "n < 2048"
  proof -
    have ln: "length (take n (drop k (frame_buf c))) = n" using hn pos(1) by simp
    obtain x xs where "drop n buf = x # xs" using buf lt by (cases "drop n buf") auto
    moreover from this have "drop (Suc n) buf = xs" by (metis drop_Suc drop_tl list.sel(3))
    ultimately show "write_bytes buf 0 (take n (drop k (frame_buf c))) =
        Inr (take n (drop k (frame_buf c)) @ drop n buf)"
      "write_at (take n (drop k (frame_buf c)) @ drop n buf) n 0 =
        Inr (take n (drop k (frame_buf c)) @ 0 # drop (Suc n) buf)"
      using ln lt buf by (simp_all add: write_bytes_def write_at_def list_update_append)
  qed
  show ?thesis
    unfolding text_frame_def r(1,2) option.case prod.case
    using wr asrt int_of_size_nat [of n] hn
    by (simp add: big drp bytes sz(1) Let_def del: of_nat_add)
qed

lemma int_of_size_int:
  assumes "- (2 ^ 31) \<le> i" and "i < 2 ^ 31"
  shows "int_of_size (word_of_int i) = i"
proof -
  have "(ucast (word_of_int i :: c_size) :: u32) = word_of_int i"
    by (rule bit_word_eqI) (simp add: bit_simps)
  moreover have "signed_take_bit 31 i = i"
    using assms by (intro signed_take_bit_int_eq_self) simp_all
  ultimately show ?thesis by (simp add: int_of_size_def signed_of_int)
qed

lemma uint_ge_unat: "2 ^ 32 \<le> uint (w :: c_size) \<Longrightarrow> 2 ^ 32 \<le> unat w"
proof -
  assume "2 ^ 32 \<le> uint w"
  then have "int (2 ^ 32) \<le> int (unat w)" by simp
  then show ?thesis by (simp only: of_nat_le_iff)
qed

lemma drop_frame_beyond:
  assumes c: "filled c" and k: "frame_buf_pos c < int k" "k < 2 ^ 31"
  shows "drop_frame (word_of_nat k) c = Inl OutOfBounds"
proof -
  let ?i = "frame_buf_pos c - int k"
  have i: "- (2 ^ 31) \<le> ?i" "?i < 0" using c k by (simp_all add: filled_def)
  have d: "word_of_int (frame_buf_pos c) - word_of_nat k = (word_of_int ?i :: c_size)" by simp
  have pos: "int_of_size (word_of_int (frame_buf_pos c) - word_of_nat k) = ?i"
    unfolding d using i by (intro int_of_size_int) simp_all
  have "uint (word_of_int ?i :: c_size) = ?i mod 2 ^ 64" by (simp add: unsigned_of_int take_bit_eq_mod del: of_int_diff)
  also have "\<dots> = ?i + 2 ^ 64" using i by (intro int_mod_pos_eq [of _ _ "- 1"]) simp_all
  finally have "2 ^ 32 \<le> uint (word_of_int ?i :: c_size)" using i by simp
  then have "2 ^ 32 \<le> unat (word_of_int ?i :: c_size)" by (rule uint_ge_unat)
  then show ?thesis
    using c by (simp add: drop_frame_def Let_def pos read_bytes_def filled_def del: of_int_diff)
qed

lemma text_frame_past:
  assumes c: "filled c" and r: "p_dlen r = Some (word_of_nat n)" "p_flen r = Some (word_of_nat (k + n))"
    "p_data r = (if n = 0 then None else Some k)" and k: "nat (frame_buf_pos c) < k + n" "k \<le> 14"
    "n = 0 \<or> k + n \<le> 8193" and buf: "length buf = 2048"
  shows "text_frame r buf 2048 c = Inl (if 2048 \<le> n then OutOfBounds else AssertFail)"
proof -
  have kn: "k + n \<le> 8193" "n \<le> 8193" using k by auto
  then have sz: "unat (word_of_nat n :: c_size) = n" "unat (word_of_nat (k + n) :: c_size) = k + n"
    by (simp_all add: unat_of_nat del: of_nat_add)
  have big: "(2048 :: c_size) \<le> word_of_nat n \<longleftrightarrow> 2048 \<le> n" by (simp add: word_le_nat_alt sz)
  have "\<not> word_of_nat (k + n) \<le> (word_of_int (frame_buf_pos c) :: c_size)"
    using k(1) by (simp only: word_le_nat_alt sz filled_len(1) [OF c])
  then have asrt: "assert_c (word_of_nat (k + n) \<le> (word_of_int (frame_buf_pos c) :: c_size)) = Inl AssertFail"
    by (simp only: assert_c_def if_False)
  have drp: "drop_frame (word_of_nat (k + n)) c = Inl OutOfBounds"
    using k(1) kn c by (intro drop_frame_beyond) (auto simp: filled_def)
  obtain bytes where bytes: "(case p_data r of None \<Rightarrow> Inr [] |
      Some d \<Rightarrow> read_bytes (frame_buf c) d (unat (word_of_nat n :: c_size))) = Inr bytes" "length bytes = n"
    using r(3) k(3) c by (cases "n = 0") (auto simp: sz mem_ok filled_def)
  have "\<exists>buf2. bind_r (write_bytes buf 0 bytes) (\<lambda>buf1. write_at buf1 n 0) = Inr buf2" if "n < 2048"
    using that bytes(2) buf by (simp add: mem_ok)
  then show ?thesis
    unfolding text_frame_def r(1,2) option.case prod.case
    by (cases "2048 \<le> n") (auto simp: big drp asrt bytes(1) sz(1) bind_r_eq_Inr not_le simp del: of_nat_add)
qed

lemma text_frame_beyond:
  assumes "filled c" and "frame_beyond b (nat (frame_buf_pos c)) t r" and "length b = 8193"
    and "length buf = 2048"
  shows "text_frame r buf 2048 c = Inl AssertFail \<or> text_frame r buf 2048 c = Inl OutOfBounds"
proof -
  obtain n k where "p_dlen r = Some (word_of_nat n)" "p_flen r = Some (word_of_nat (k + n))"
    "p_data r = (if n = 0 then None else Some k)" "nat (frame_buf_pos c) < k + n" "k \<le> 14"
    "n = 0 \<or> k + n \<le> 8193"
    using assms(2,3) by (auto simp: frame_beyond_def)
  from text_frame_past [OF assms(1) this assms(4)] show ?thesis by simp
qed

text \<open>The message handed to the caller: a string in a buffer of 2048 bytes.\<close>

definition delivered :: "byte list \<Rightarrow> int \<Rightarrow> bool" where
  "delivered buf len \<longleftrightarrow> length buf = 2048 \<and> 0 \<le> len \<and> len < 2048 \<and> buf ! nat len = 0"

text \<open>
  The outcomes of \<open>receive_frame\<close>: a fault only on a truncated header; a wait with the state as
  it was; a message with at least six bytes taken off the buffer; or a rejection.
\<close>

definition frame_outcome :: "'s client \<Rightarrow> byte list \<Rightarrow> (int \<times> 's client \<times> byte list \<times> int) result \<Rightarrow> bool" where
  "frame_outcome c buf m \<longleftrightarrow>
     (case m of
        Inl x \<Rightarrow> (x = AssertFail \<or> x = OutOfBounds) \<and> nat (frame_buf_pos c) < header_size (frame_buf c)
      | Inr (ret, c', buf', len') \<Rightarrow>
          buf_only c c' \<and> tls_connection c' = tls_connection c \<and>
          (ret = WAITING_FOR_MORE_DATA \<and> c' = c \<and> frame_buf_pos c < 8192 \<and> buf' = buf \<or>
           ret = (if frame_buf_pos c' = 0 then READ_SUCCEED else READ_SUCCEED_DATA_AVAILABLE) \<and>
             0 \<le> frame_buf_pos c' \<and> frame_buf_pos c' + 6 \<le> frame_buf_pos c \<and> delivered buf' len' \<or>
           ret \<in> {INVALID_FRAME, CLIENT_DISCONNECTED, BUFFER_TOO_SMALL} \<and> buf' = buf))"

lemma header_size_ge: "6 \<le> header_size b"
  by (simp add: header_size_def)

lemma text_frame_outcome:
  assumes c: "filled c" and f: "frame_at b (nat (frame_buf_pos c)) t n r" and buf: "length buf = 2048"
    and b': "length b' = 8193"
  shows "frame_outcome c buf (text_frame r buf 2048 (c\<lparr>frame_buf := b'\<rparr>))"
proof -
  let ?k = "header_size b" and ?c = "c\<lparr>frame_buf := b'\<rparr>"
  have r: "p_dlen r = Some (word_of_nat n)" "p_flen r = Some (word_of_nat (?k + n))"
    "p_data r = (if n = 0 then None else Some ?k)" and fit: "?k + n \<le> nat (frame_buf_pos c)"
    using f by (auto simp: frame_at_def Let_def)
  have c': "filled ?c" using c b' by (simp add: filled_def)
  have pos: "0 < frame_buf_pos c" "frame_buf_pos c \<le> 8192" "frame_buf_pos ?c = frame_buf_pos c"
    using c by (simp_all add: filled_def)
  have k: "0 < ?k" "6 \<le> ?k" using header_size_ge [of b] by simp_all
  have fits: "int (?k + n) \<le> frame_buf_pos ?c" using fit pos by linarith
  have "?k + n \<le> 8193" using fit pos(2) by linarith
  then have "length (take n (drop ?k b')) = n" using b' by simp
  then have "n < 2048 \<Longrightarrow> delivered (take n (drop ?k b') @ 0 # drop (Suc n) buf) (int n)"
    using buf by (simp add: delivered_def nth_append)
  moreover have "int (nat (frame_buf_pos c) - (?k + n)) + 6 \<le> frame_buf_pos c" using fits k by simp
  moreover have "min (8193 - (?k + n)) (nat (frame_buf_pos c) - (?k + n)) +
      (8193 - (nat (frame_buf_pos c) - (?k + n))) = 8193"
    using fit pos(2) by (simp add: min_def) linarith
  ultimately show ?thesis
    unfolding text_frame_ok [OF c' r fits k(1) buf] Let_def
    using b' by (simp add: frame_outcome_def buf_only_def)
qed

lemma receive_frame_step:
  assumes c: "filled c" and buf: "length buf = 2048"
    and r: "wsParseInputFrame (frame_buf c) (word_of_int (frame_buf_pos c)) = Inr r"
    and keep: "length (p_buf r) = 8193"
    and same: "p_type r = WS_INCOMPLETE_FRAME \<Longrightarrow> p_buf r = frame_buf c"
    and tf: "p_type r = WS_TEXT_FRAME \<Longrightarrow>
      frame_outcome c buf (text_frame r buf 2048 (c\<lparr>frame_buf := p_buf r\<rparr>))"
  shows "frame_outcome c buf (receive_frame buf 2048 c)"
proof (cases "p_type r = WS_TEXT_FRAME")
  case True
  with tf show ?thesis by (simp add: receive_frame_def r Let_def)
next
  case False
  have rejected: "frame_outcome c buf (Inr (ret, c\<lparr>frame_buf := p_buf r\<rparr>, buf, 2048))"
    if "ret \<in> {INVALID_FRAME, CLIENT_DISCONNECTED}" for ret
    using that keep by (auto simp: frame_outcome_def buf_only_def)
  have waiting: "frame_outcome c buf (Inr (WAITING_FOR_MORE_DATA, c\<lparr>frame_buf := p_buf r\<rparr>, buf, 2048))"
    if "p_type r = WS_INCOMPLETE_FRAME" "frame_buf_pos c < 8192"
    using that same keep by (simp add: frame_outcome_def buf_only_def)
  show ?thesis
    using False rejected waiting by (auto simp: receive_frame_def r Let_def BUF_LEN_def)
qed

lemma receive_frame_complete:
  assumes c: "filled c" and buf: "length buf = 2048" and h: "header_size (frame_buf c) \<le> nat (frame_buf_pos c)"
  shows "frame_outcome c buf (receive_frame buf 2048 c)"
proof -
  let ?len = "word_of_int (frame_buf_pos c) :: c_size" and ?b = "frame_buf c"
  note len = filled_len [OF c]
  have b: "length ?b = 8193" using c by (simp add: filled_def)
  obtain r where r: "wsParseInputFrame ?b ?len = Inr r" "length (p_buf r) = 8193"
    "p_type r \<in> data_types \<longrightarrow> (\<exists>n. frame_at ?b (unat ?len) (p_type r) n r)"
    "p_type r \<notin> data_types \<longrightarrow> p_buf r = ?b"
    using wsParse_complete [OF h [folded len(1)] len(2)] b by auto
  show ?thesis
  proof (rule receive_frame_step [OF c buf r(1,2)])
    assume "p_type r = WS_TEXT_FRAME"
    then obtain n where "frame_at ?b (nat (frame_buf_pos c)) WS_TEXT_FRAME n r"
      using r(3) by (auto simp: data_types_def len(1))
    then show "frame_outcome c buf (text_frame r buf 2048 (c\<lparr>frame_buf := p_buf r\<rparr>))"
      using c buf r(2) by (intro text_frame_outcome)
  qed (use r(4) in \<open>simp add: data_types_def\<close>)
qed

lemma receive_frame_truncated:
  assumes c: "filled c" and buf: "length buf = 2048" and h: "nat (frame_buf_pos c) < header_size (frame_buf c)"
  shows "frame_outcome c buf (receive_frame buf 2048 c)"
proof -
  let ?len = "word_of_int (frame_buf_pos c) :: c_size" and ?b = "frame_buf c"
  note len = filled_len [OF c]
  have b: "length ?b = 8193" "length ?b < 2 ^ 32" using c by (simp_all add: filled_def)
  from wsParse_truncated [OF len(3,2) _ b(2)] h
  consider "wsParseInputFrame ?b ?len = Inl OutOfBounds"
    | r where "wsParseInputFrame ?b ?len = Inr r" "p_type r \<in> {WS_ERROR_FRAME, WS_INCOMPLETE_FRAME}"
      "p_buf r = ?b"
    | r where "wsParseInputFrame ?b ?len = Inr r" "p_type r \<in> data_types"
      "frame_beyond ?b (unat ?len) (p_type r) r" by (auto simp: len(1))
  then show ?thesis
  proof cases
    case 1
    with h show ?thesis by (simp add: frame_outcome_def receive_frame_def)
  next
    case 2
    then show ?thesis using b(1) by (intro receive_frame_step [OF c buf 2(1)]) auto
  next
    case 3
    have keep: "length (p_buf r) = 8193" using 3(3) b(1) by (auto simp: frame_beyond_def)
    show ?thesis
    proof (rule receive_frame_step [OF c buf 3(1) keep])
      have "text_frame r buf 2048 (c\<lparr>frame_buf := p_buf r\<rparr>) = Inl AssertFail \<or>
          text_frame r buf 2048 (c\<lparr>frame_buf := p_buf r\<rparr>) = Inl OutOfBounds"
        using 3(3) c keep b(1) buf by (intro text_frame_beyond [where b = ?b and t = "p_type r"]) (simp_all add: filled_def len(1))
      with h show "frame_outcome c buf (text_frame r buf 2048 (c\<lparr>frame_buf := p_buf r\<rparr>))"
        by (auto simp: frame_outcome_def)
    qed (use 3(2) in \<open>simp add: data_types_def\<close>)
  qed
qed

lemma receive_frame_outcome:
  assumes "filled c" and "length buf = 2048"
  shows "frame_outcome c buf (receive_frame buf 2048 c)"
  using receive_frame_complete [OF assms] receive_frame_truncated [OF assms] by linarith

section \<open>Receiving from a conforming client\<close>

text \<open>
  The buffer begins with a short text frame, or with a part of one: the whole frame is delivered,
  a part is waited for, except that a part of two to five bytes fails the assertion.
\<close>

definition begins_frame :: "byte list \<Rightarrow> byte list \<Rightarrow> byte list \<Rightarrow> 's client \<Rightarrow> bool" where
  "begins_frame key payload rest c \<longleftrightarrow>
     filled c \<and> length key = 4 \<and> length payload \<le> 125 \<and>
     take (nat (frame_buf_pos c)) (frame_buf c) =
       take (nat (frame_buf_pos c)) (rfc_client_frame (frame_code WS_TEXT_FRAME) key payload @ rest)"

lemma begins_parse:
  assumes "begins_frame key payload rest c"
  shows "frame_buf_pos c \<ge> 6 + int (length payload) \<Longrightarrow>
      wsParseInputFrame (frame_buf c) (word_of_int (frame_buf_pos c)) =
        Inr \<lparr>p_type = WS_TEXT_FRAME,
          p_buf = take 6 (frame_buf c) @ payload @ drop (6 + length payload) (frame_buf c),
          p_data = (if payload = [] then None else Some 6), p_dlen = Some (word_of_nat (length payload)),
          p_flen = Some (word_of_nat (6 + length payload))\<rparr>"
    and "6 \<le> frame_buf_pos c \<Longrightarrow> frame_buf_pos c < 6 + int (length payload) \<Longrightarrow>
      wsParseInputFrame (frame_buf c) (word_of_int (frame_buf_pos c)) =
        Inr (no_frame WS_INCOMPLETE_FRAME (frame_buf c))"
    and "2 \<le> frame_buf_pos c \<Longrightarrow> frame_buf_pos c < 6 \<Longrightarrow>
      \<exists>b'. wsParseInputFrame (frame_buf c) (word_of_int (frame_buf_pos c)) =
        Inr \<lparr>p_type = WS_TEXT_FRAME, p_buf = b', p_data = (if payload = [] then None else Some 6),
          p_dlen = Some (word_of_nat (length payload)), p_flen = Some (word_of_nat (6 + length payload))\<rparr> \<and>
        length b' = 8193"
proof -
  have c: "filled c" and key: "length key = 4" and n: "length payload \<le> 125"
    and pre: "take (nat (frame_buf_pos c)) (frame_buf c) =
       take (nat (frame_buf_pos c)) (rfc_client_frame (frame_code WS_TEXT_FRAME) key payload @ rest)"
    using assms by (simp_all add: begins_frame_def)
  have t: "WS_TEXT_FRAME \<in> data_types" by (simp add: data_types_def)
  note len = filled_len [OF c]
  have b: "length (frame_buf c) = 8193" using c by (simp add: filled_def)
  note parse = parse_received [OF t key n _ len(2), unfolded len(1), OF _ pre]
  show "wsParseInputFrame (frame_buf c) (word_of_int (frame_buf_pos c)) =
        Inr \<lparr>p_type = WS_TEXT_FRAME,
          p_buf = take 6 (frame_buf c) @ payload @ drop (6 + length payload) (frame_buf c),
          p_data = (if payload = [] then None else Some 6), p_dlen = Some (word_of_nat (length payload)),
          p_flen = Some (word_of_nat (6 + length payload))\<rparr>"
    if "frame_buf_pos c \<ge> 6 + int (length payload)"
    using that by (intro parse(1)) linarith+
  show "wsParseInputFrame (frame_buf c) (word_of_int (frame_buf_pos c)) =
        Inr (no_frame WS_INCOMPLETE_FRAME (frame_buf c))"
    if "6 \<le> frame_buf_pos c" "frame_buf_pos c < 6 + int (length payload)"
    using that by (intro parse(2)) linarith+
  show "\<exists>b'. wsParseInputFrame (frame_buf c) (word_of_int (frame_buf_pos c)) =
        Inr \<lparr>p_type = WS_TEXT_FRAME, p_buf = b', p_data = (if payload = [] then None else Some 6),
          p_dlen = Some (word_of_nat (length payload)), p_flen = Some (word_of_nat (6 + length payload))\<rparr> \<and>
        length b' = 8193"
    if "2 \<le> frame_buf_pos c" "frame_buf_pos c < 6"
  proof -
    have "2 \<le> nat (frame_buf_pos c)" "nat (frame_buf_pos c) < 6" "6 + length payload \<le> length (frame_buf c)"
      using that b n by linarith+
    from parse(3) [OF this, unfolded b] show ?thesis .
  qed
qed

lemma receive_frame_whole:
  assumes f: "begins_frame key payload rest c" and buf: "length buf = 2048"
    and whole: "6 + int (length payload) \<le> frame_buf_pos c"
  shows "\<exists>c'. receive_frame buf 2048 c = Inr (if frame_buf_pos c' = 0 then READ_SUCCEED
          else READ_SUCCEED_DATA_AVAILABLE, c', payload @ 0 # drop (Suc (length payload)) buf,
          int (length payload)) \<and> buf_only c c' \<and> tls_connection c' = tls_connection c \<and>
        frame_buf_pos c' = frame_buf_pos c - (6 + int (length payload)) \<and>
        stream pending c' = drop (6 + length payload) (stream pending c)"
proof -
  let ?p = "nat (frame_buf_pos c)" and ?n = "length payload" and ?b = "frame_buf c"
  have c: "filled c" and n: "?n \<le> 125" using f by (simp_all add: begins_frame_def)
  have b: "length ?b = 8193" "?p \<le> 8192" using c by (auto simp: filled_def nat_le_iff)
  define b' where "b' = take 6 ?b @ payload @ drop (6 + ?n) ?b"
  define q where "q = ?p - (6 + ?n)"
  let ?r = "\<lparr>p_type = WS_TEXT_FRAME, p_buf = b', p_data = (if payload = [] then None else Some 6),
    p_dlen = Some (word_of_nat ?n), p_flen = Some (word_of_nat (6 + ?n))\<rparr>"
  let ?c' = "c\<lparr>frame_buf := take q (drop (6 + ?n) ?b) @ drop q b', frame_buf_pos := int q\<rparr>"
  have r: "wsParseInputFrame ?b (word_of_int (frame_buf_pos c)) = Inr ?r"
    unfolding b'_def by (rule begins_parse(1) [OF f whole])
  have b': "length b' = 8193" "take ?n (drop 6 b') = payload" "drop (6 + ?n) b' = drop (6 + ?n) ?b"
    using b n by (simp_all add: b'_def add.commute)
  have c': "filled (c\<lparr>frame_buf := b'\<rparr>)" using c b' by (simp add: filled_def)
  have "text_frame ?r buf 2048 (c\<lparr>frame_buf := b'\<rparr>) = Inr (if q = 0 then READ_SUCCEED
      else READ_SUCCEED_DATA_AVAILABLE, ?c', payload @ 0 # drop (Suc ?n) buf, int ?n)"
    using text_frame_ok [OF c', of ?r ?n 6 buf] whole n buf
    unfolding Let_def by (simp add: b' q_def [symmetric])
  then have "receive_frame buf 2048 c = Inr (if q = 0 then READ_SUCCEED
      else READ_SUCCEED_DATA_AVAILABLE, ?c', payload @ 0 # drop (Suc ?n) buf, int ?n)"
    by (simp add: receive_frame_def r Let_def)
  moreover have q: "int q = frame_buf_pos c - (6 + int ?n)" "q \<le> 8193 - (6 + ?n)" "q \<le> 8193"
    "?p = q + (6 + ?n)" "nat (frame_buf_pos c - (6 + int ?n)) = q"
    using whole b unfolding q_def by linarith+
  moreover from q(2) have "length (take q (drop (6 + ?n) ?b)) = q" using b by simp
  moreover from this q have "take q (frame_buf ?c') = drop (6 + ?n) (take ?p ?b)" by (simp add: drop_take)
  with q whole have "stream pending ?c' = drop (6 + ?n) (stream pending c)"
    by (intro stream_drop(1) [OF c]) simp_all
  ultimately show ?thesis
    using b' b(1) by (intro exI [of _ ?c']) (simp add: buf_only_def)
qed

lemma receive_frame_part:
  assumes f: "begins_frame key payload rest c"
    and part: "frame_buf_pos c = 1 \<or> 6 \<le> frame_buf_pos c \<and> frame_buf_pos c < 6 + int (length payload)"
  shows "receive_frame buf 2048 c = Inr (WAITING_FOR_MORE_DATA, c, buf, 2048)"
proof -
  have c: "filled c" "length payload \<le> 125" using f by (simp_all add: begins_frame_def)
  have "wsParseInputFrame (frame_buf c) (word_of_int (frame_buf_pos c)) =
      Inr (no_frame WS_INCOMPLETE_FRAME (frame_buf c))"
    using part parse_one_byte [of "word_of_int (frame_buf_pos c)" "frame_buf c"] filled_len(1) [OF c(1)]
      begins_parse(2) [OF f] by auto
  moreover have "frame_buf_pos c < 8192" using part c(2) by auto
  ultimately show ?thesis by (simp add: receive_frame_def no_frame_def BUF_LEN_def Let_def)
qed

lemma receive_frame_cut:
  assumes f: "begins_frame key payload rest c" and buf: "length buf = 2048"
    and cut: "2 \<le> frame_buf_pos c" "frame_buf_pos c < 6"
  shows "receive_frame buf 2048 c = Inl AssertFail"
proof -
  have c: "filled c" and n: "length payload \<le> 125" using f by (simp_all add: begins_frame_def)
  let ?r = "\<lambda>b'. \<lparr>p_type = WS_TEXT_FRAME, p_buf = b', p_data = (if payload = [] then None else Some 6),
    p_dlen = Some (word_of_nat (length payload)), p_flen = Some (word_of_nat (6 + length payload))\<rparr>"
  obtain b' where r: "wsParseInputFrame (frame_buf c) (word_of_int (frame_buf_pos c)) = Inr (?r b')" "length b' = 8193"
    using begins_parse(3) [OF f cut] by (elim exE conjE) (rule that)
  have "filled (c\<lparr>frame_buf := b'\<rparr>)" using c r(2) by (simp add: filled_def)
  from text_frame_past [OF this, of "?r b'" "length payload" 6 buf]
  have "text_frame (?r b') buf 2048 (c\<lparr>frame_buf := b'\<rparr>) = Inl AssertFail" using cut n buf by simp
  then show ?thesis by (simp add: receive_frame_def r Let_def)
qed

section \<open>Receive on an open connection\<close>

lemma buf_only_trans: "buf_only c c1 \<Longrightarrow> buf_only c1 c2 \<Longrightarrow> buf_only c c2"
  by (simp add: buf_only_def)

lemma buf_only_fields:
  "buf_only c c' \<Longrightarrow> handshaked c' = handshaked c" "buf_only c c' \<Longrightarrow> send_buf c' = send_buf c"
  "buf_only c c' \<Longrightarrow> length (frame_buf c') = 8193"
  by (simp_all add: buf_only_def)

text \<open>The four outcomes of the read, and what \<open>Receive\<close> does with each.\<close>

lemma Receive_read:
  assumes api: "ssl_read_ok api" and c: "client_ok c" and hs: "handshaked c"
  obtains (parse) ret err c1 where "read_more api c = Inr (ret, err, c1)" "buf_only c c1" "filled c1"
      "frame_buf_pos c1 = frame_buf_pos c + max 0 ret"
      "ssl_stream_ok api pending \<Longrightarrow> stream pending c1 = stream pending c"
      "Receive api c buf len = receive_frame buf len c1"
  | (wait) c1 where "buf_only c c1" "frame_buf_pos c1 = frame_buf_pos c"
      "ssl_stream_ok api pending \<Longrightarrow> stream pending c1 = stream pending c"
      "Receive api c buf len = Inr (WAITING_FOR_MORE_DATA, c1, buf, len)"
  | (closed) ret c1 where "buf_only c c1" "ret \<in> {NETWORK_ERROR, CLIENT_DISCONNECTED}"
      "Receive api c buf len = Inr (ret, c1, buf, len)"
proof -
  obtain ret err s b p where rd:
    "read_more api c = Inr (ret, err, c\<lparr>tls_connection := s, frame_buf := b, frame_buf_pos := p\<rparr>)"
    and b: "length b = 8193" "p = frame_buf_pos c + max 0 ret" "0 \<le> p" "p \<le> 8192"
    and str: "ssl_stream_ok api pending \<Longrightarrow> take (nat p) b @ pending s = stream pending c"
    by (rule read_more_result [OF api c, of pending]) (rule that; assumption)
  let ?c = "c\<lparr>tls_connection := s, frame_buf := b, frame_buf_pos := p\<rparr>"
  have only: "buf_only c ?c" using b(1) by (simp add: buf_only_def)
  have str': "ssl_stream_ok api pending \<Longrightarrow> stream pending ?c = stream pending c"
    using str by (simp add: stream_def)
  have go: "thesis" if "0 < p" "Receive api c buf len = receive_frame buf len ?c"
    using that b by (intro parse [OF rd only _ _ str']) (simp_all add: filled_def)
  have stop: "thesis" if "Receive api c buf len = Inr (r, ?c, buf, len)"
    "r \<in> {NETWORK_ERROR, CLIENT_DISCONNECTED}" for r
    using that by (intro closed [OF only]) simp_all
  consider "ret < 0" "err = SSL_ERROR_WANT_READ" "p = 0" | "ret < 0" "err = SSL_ERROR_WANT_READ" "p \<noteq> 0"
    | "ret < 0" "err \<noteq> SSL_ERROR_WANT_READ" | "ret = 0" | "0 < ret" by linarith
  then show thesis
  proof cases
    case 1
    then show thesis using hs rd b(2) by (intro wait [OF only _ str']) (simp_all add: Receive_def)
  next
    case 2
    then show thesis using hs rd b by (intro go) (simp_all add: Receive_def)
  next
    case 3
    then show thesis using hs rd by (intro stop [of NETWORK_ERROR]) (simp_all add: Receive_def)
  next
    case 4
    then show thesis using hs rd by (intro stop [of CLIENT_DISCONNECTED]) (simp_all add: Receive_def)
  next
    case 5
    then show thesis using hs rd b c
      by (intro go) (simp_all add: Receive_def client_ok_def)
  qed
qed

lemma Receive_open:
  assumes api: "ssl_read_ok api" and c: "client_ok c" and hs: "handshaked c" and buf: "length buf = 2048"
  shows "case Receive api c buf 2048 of
      Inl x \<Rightarrow> (x = AssertFail \<or> x = OutOfBounds) \<and>
        (\<exists>ret err c1. read_more api c = Inr (ret, err, c1) \<and>
           nat (frame_buf_pos c1) < header_size (frame_buf c1))
    | Inr (ret, c', buf', len') \<Rightarrow>
        buf_only c c' \<and>
        (ret = WAITING_FOR_MORE_DATA \<and> buf' = buf \<and> client_ok c' \<or>
         ret = (if frame_buf_pos c' = 0 then READ_SUCCEED else READ_SUCCEED_DATA_AVAILABLE) \<and>
           delivered buf' len' \<and> client_ok c' \<or>
         ret < 0 \<and> buf' = buf)"
using api c hs
proof (cases rule: Receive_read [where pending = "\<lambda>_. []" and buf = buf and len = 2048, consumes 3, case_names parse wait closed])
  case (parse ret err c1)
  have bufs: "client_ok c2" if "buf_only c c2" "0 \<le> frame_buf_pos c2" "frame_buf_pos c2 < 8192" for c2
    using that c buf_only_fields [OF that(1)] by (simp add: client_ok_def bufs_ok_def BUF_LEN_def)
  have "frame_outcome c1 buf (Receive api c buf 2048)"
    using receive_frame_outcome [OF parse(3) buf] parse(6) by simp
  moreover have "frame_buf_pos c1 \<le> 8192" "0 < frame_buf_pos c1" using parse(3) by (simp_all add: filled_def)
  ultimately show ?thesis
    using parse(1) buf_only_trans [OF parse(2)] bufs
    by (fastforce simp: frame_outcome_def return_codes split: sum.splits prod.splits)
next
  case (wait c1)
  then show ?thesis using c buf_only_fields [OF wait(1)]
    by (simp add: client_ok_def bufs_ok_def)
next
  case (closed ret c1)
  then show ?thesis by (auto simp: return_codes)
qed

text \<open>With a text frame of a conforming client at the front of the stream.\<close>

lemma length_client_frame:
  "length key = 4 \<Longrightarrow> length payload \<le> 125 \<Longrightarrow> length (rfc_client_frame t key payload) = 6 + length payload"
  by (simp add: rfc_client_frame_short)

lemma Receive_message:
  assumes api: "ssl_read_ok api" "ssl_stream_ok api pending" and c: "client_ok c" and hs: "handshaked c"
    and buf: "length buf = 2048" and key: "length key = 4" and n: "length payload \<le> 125"
    and str: "stream pending c = rfc_client_frame (frame_code WS_TEXT_FRAME) key payload @ rest"
  shows "case Receive api c buf 2048 of
      Inl x \<Rightarrow> x = AssertFail \<and> (\<exists>ret err c1. read_more api c = Inr (ret, err, c1) \<and>
        2 \<le> frame_buf_pos c1 \<and> frame_buf_pos c1 < 6)
    | Inr (ret, c', buf', len') \<Rightarrow> buf_only c c' \<and>
        (ret = WAITING_FOR_MORE_DATA \<and> client_ok c' \<and> stream pending c' = stream pending c \<and> buf' = buf \<or>
         ret = (if frame_buf_pos c' = 0 then READ_SUCCEED else READ_SUCCEED_DATA_AVAILABLE) \<and>
           client_ok c' \<and> stream pending c' = rest \<and>
           buf' = payload @ 0 # drop (Suc (length payload)) buf \<and> len' = int (length payload) \<or>
         ret \<in> {NETWORK_ERROR, CLIENT_DISCONNECTED})"
proof -
  let ?f = "rfc_client_frame (frame_code WS_TEXT_FRAME) key payload" and ?n = "length payload"
  have flen: "length ?f = 6 + ?n" using length_client_frame [OF key n] .
  have ok: "client_ok c2" if "buf_only c c2" "0 \<le> frame_buf_pos c2" "frame_buf_pos c2 < 8192" for c2
    using that c buf_only_fields [OF that(1)] by (simp add: client_ok_def bufs_ok_def BUF_LEN_def)
  from api(1) c hs show ?thesis
  proof (cases rule: Receive_read [where pending = pending and buf = buf and len = 2048, consumes 3, case_names parse wait closed])
    case (parse ret err c1)
    have p: "0 < frame_buf_pos c1" "frame_buf_pos c1 \<le> 8192" using parse(3) by (simp_all add: filled_def)
    have str1: "stream pending c1 = ?f @ rest" using parse(5) [OF api(2)] str by simp
    have "drop (length ?f) (stream pending c1) = rest" using str1 by simp
    then have tail: "drop (6 + ?n) (stream pending c1) = rest" unfolding flen .
    have f: "begins_frame key payload rest c1"
      using parse(3) key n stream_front [OF parse(3) str1] by (simp add: begins_frame_def)
    consider "6 + int ?n \<le> frame_buf_pos c1"
      | "frame_buf_pos c1 = 1 \<or> 6 \<le> frame_buf_pos c1 \<and> frame_buf_pos c1 < 6 + int ?n"
      | "2 \<le> frame_buf_pos c1" "frame_buf_pos c1 < 6"
      using p(1) by linarith
    then show ?thesis
    proof cases
      case 1
      from receive_frame_whole [OF f buf this, of pending, unfolded tail]
      obtain c' where c': "receive_frame buf 2048 c1 = Inr (if frame_buf_pos c' = 0 then READ_SUCCEED
          else READ_SUCCEED_DATA_AVAILABLE, c', payload @ 0 # drop (Suc ?n) buf, int ?n)"
        "buf_only c1 c'" "frame_buf_pos c' = frame_buf_pos c1 - (6 + int ?n)" "stream pending c' = rest"
        by blast
      have "client_ok c'"
        using buf_only_trans [OF parse(2) c'(2)] c'(3) 1 p(2) by (intro ok) simp_all
      then show ?thesis
        using buf_only_trans [OF parse(2) c'(2)] c'(4) by (simp add: parse(6) c'(1))
    next
      case 2
      have "client_ok c1" using parse(2) p 2 n by (intro ok) auto
      then show ?thesis
        using receive_frame_part [OF f 2] parse(2) parse(5) [OF api(2)] by (simp add: parse(6))
    next
      case 3
      then show ?thesis using receive_frame_cut [OF f buf 3] parse(1) by (simp add: parse(6))
    qed
  next
    case (wait c1)
    moreover have "client_ok c1" using wait(1,2) c
      by (intro ok) (simp_all add: client_ok_def BUF_LEN_def)
    ultimately show ?thesis using api(2) by simp
  qed simp
qed

section \<open>Sending\<close>

text \<open>One turn of the loop of \<open>SendFrame\<close>: the next state, or the result.\<close>

definition send_turn ::
  "'s tls_api \<Rightarrow> byte list \<Rightarrow> ssl_error \<times> 's \<Rightarrow> (ssl_error \<times> 's) + (int \<times> 's)" where
  "send_turn api buffer es =
     (let (err, s) = es; ((readable, writable), s1) = select_rw api s in
      if err = SSL_ERROR_WANT_WRITE \<and> \<not> writable \<or> err = SSL_ERROR_WANT_READ \<and> \<not> readable
      then Inl (err, s1)
      else
        let ((ret, err'), s2) = SSL_write api s1 buffer in
        if err' = SSL_ERROR_WANT_READ \<or> err' = SSL_ERROR_WANT_WRITE then Inl (err', s2)
        else Inr (ret, s2))"

lemma send_loop_turn:
  "send_loop api buffer err s =
     (case send_turn api buffer (err, s) of
        Inl (err', s') \<Rightarrow> send_loop api buffer err' s'
      | Inr r \<Rightarrow> Some r)"
proof -
  obtain r w s1 where sel: "select_rw api s = ((r, w), s1)" by (metis prod.exhaust)
  obtain ret err' s2 where wr: "SSL_write api s1 buffer = ((ret, err'), s2)" by (metis prod.exhaust)
  show ?thesis
    by (subst send_loop.simps) (simp add: send_turn_def sel wr)
qed

primrec send_turns ::
  "'s tls_api \<Rightarrow> byte list \<Rightarrow> nat \<Rightarrow> ssl_error \<times> 's \<Rightarrow> (int \<times> 's) option" where
  "send_turns api buffer 0 es = None"
| "send_turns api buffer (Suc n) es =
     (case send_turn api buffer es of Inl es' \<Rightarrow> send_turns api buffer n es' | Inr r \<Rightarrow> Some r)"

lemma send_turns_loop:
  "send_turns api buffer n (err, s) = Some r \<Longrightarrow> send_loop api buffer err s = Some r"
proof (induction n arbitrary: err s)
  case (Suc n)
  then show ?case
    by (subst send_loop_turn) (auto split: sum.splits prod.splits)
qed simp

lemma send_loop_turns:
  assumes "send_loop api buffer err s = Some r"
  shows "\<exists>n. send_turns api buffer n (err, s) = Some r"
proof (rule send_loop.raw_induct [where P = "\<lambda>api buffer err s r.
    \<exists>n. send_turns api buffer n (err, s) = Some r", OF _ assms])
  fix f api buffer err s r
  assume IH: "\<And>api buffer err s r. f api buffer err s = Some r \<Longrightarrow>
      \<exists>n. send_turns api buffer n (err, s) = Some r"
    and body: "(let ((readable, writable), s1) = select_rw api s in
      if err = SSL_ERROR_WANT_WRITE \<and> \<not> writable \<or> err = SSL_ERROR_WANT_READ \<and> \<not> readable
      then f api buffer err s1
      else let ((ret, err'), s2) = SSL_write api s1 buffer in
        if err' = SSL_ERROR_WANT_READ \<or> err' = SSL_ERROR_WANT_WRITE
        then f api buffer err' s2 else Some (ret, s2)) = Some r"
  have "(case send_turn api buffer (err, s) of Inl (err', s') \<Rightarrow> f api buffer err' s' | Inr r' \<Rightarrow> Some r') = Some r"
  proof -
    obtain rd w s1 where sel: "select_rw api s = ((rd, w), s1)" by (metis prod.exhaust)
    obtain ret err' s2 where wr: "SSL_write api s1 buffer = ((ret, err'), s2)" by (metis prod.exhaust)
    show ?thesis unfolding body [symmetric] by (simp add: send_turn_def sel wr)
  qed
  then consider "send_turn api buffer (err, s) = Inr r"
    | err' s' where "send_turn api buffer (err, s) = Inl (err', s')" "f api buffer err' s' = Some r"
    by (auto split: sum.splits)
  then show "\<exists>n. send_turns api buffer n (err, s) = Some r"
  proof cases
    case 1
    then show ?thesis by (intro exI [of _ 1]) simp
  next
    case 2
    obtain n where "send_turns api buffer n (err', s') = Some r" using IH [OF 2(2)] by blast
    with 2(1) show ?thesis by (intro exI [of _ "Suc n"]) simp
  qed
qed

lemma send_turns_sent:
  assumes api: "ssl_write_ok api sent"
  shows "send_turns api buffer n es = Some (ret, s') \<Longrightarrow>
    sent s' = (if 0 < ret then sent (snd es) @ buffer else sent (snd es))"
proof (induction n arbitrary: es)
  case (Suc n)
  obtain err s where es: "es = (err, s)" by (cases es)
  obtain rd w s1 where sel: "select_rw api s = ((rd, w), s1)" by (metis prod.exhaust)
  obtain ret1 err1 s2 where wr: "SSL_write api s1 buffer = ((ret1, err1), s2)" by (metis prod.exhaust)
  have s1: "sent s1 = sent s" using api sel by (auto simp: ssl_write_ok_def)
  have s2: "sent s2 = (if 0 < ret1 then sent s1 @ buffer else sent s1)" "0 < ret1 \<Longrightarrow> err1 = SSL_ERROR_NONE"
    using api wr by (auto simp: ssl_write_ok_def split: if_splits)
  show ?case
    using Suc.prems Suc.IH [of "(err, s1)"] Suc.IH [of "(err1, s2)"] s1 s2
    by (simp add: es send_turn_def sel wr split: if_splits)
qed simp

lemma send_turns_pending:
  assumes api: "ssl_stream_ok api pending"
  shows "send_turns api buffer n es = Some (ret, s') \<Longrightarrow> pending s' = pending (snd es)"
proof (induction n arbitrary: es)
  case (Suc n)
  obtain err s where es: "es = (err, s)" by (cases es)
  obtain rd w s1 where sel: "select_rw api s = ((rd, w), s1)" by (metis prod.exhaust)
  obtain ret1 err1 s2 where wr: "SSL_write api s1 buffer = ((ret1, err1), s2)" by (metis prod.exhaust)
  have "pending s1 = pending s" "pending s2 = pending s1"
    using api sel wr unfolding ssl_stream_ok_def by blast+
  then show ?case
    using Suc.prems Suc.IH [of "(err, s1)"] Suc.IH [of "(err1, s2)"]
    by (simp add: es send_turn_def sel wr split: if_splits)
qed simp

lemma SendFrame_pending:
  assumes "ssl_stream_ok api pending" and "SendFrame api c buffer = Inr (r, c')"
  shows "pending (tls_connection c') = pending (tls_connection c)"
proof -
  obtain ret s where loop: "send_loop api buffer SSL_ERROR_WANT_WRITE (tls_connection c) = Some (ret, s)"
    and c': "c' = c\<lparr>tls_connection := s\<rparr>"
    using assms(2) by (auto simp: SendFrame_def bind_r_eq_Inr split: option.splits)
  obtain n where "send_turns api buffer n (SSL_ERROR_WANT_WRITE, tls_connection c) = Some (ret, s)"
    using send_loop_turns [OF loop] by blast
  from send_turns_pending [OF assms(1) this] c' show ?thesis by simp
qed

text \<open>A ranking of the connection that every unfinished turn of the loop lowers.\<close>

definition turns_end :: "'s tls_api \<Rightarrow> ('s \<Rightarrow> nat) \<Rightarrow> bool" where
  "turns_end api rank \<longleftrightarrow>
     (\<forall>buffer err s err' s'. send_turn api buffer (err, s) = Inl (err', s') \<longrightarrow> rank s' < rank s)"

lemma send_loop_returns:
  assumes "turns_end api rank"
  shows "\<exists>r. send_loop api buffer err s = Some r"
proof (induction "rank s" arbitrary: err s rule: less_induct)
  case less
  show ?case
  proof (cases "send_turn api buffer (err, s)")
    case (Inl es)
    obtain err' s' where es: "es = (err', s')" by (cases es)
    then have "rank s' < rank s" using assms Inl by (auto simp: turns_end_def)
    from less [OF this, of err'] show ?thesis by (subst send_loop_turn) (simp add: Inl es)
  next
    case (Inr r)
    then show ?thesis by (subst send_loop_turn) simp
  qed
qed

lemma SendFrame_outcome:
  assumes "ssl_write_ok api sent" and "SendFrame api c buffer = Inr (r, c')"
  shows "r \<in> {0, -1} \<and> c' = c\<lparr>tls_connection := tls_connection c'\<rparr> \<and>
    sent (tls_connection c') = (if r = 0 then sent (tls_connection c) @ buffer else sent (tls_connection c))"
proof -
  obtain ret s where loop: "send_loop api buffer SSL_ERROR_WANT_WRITE (tls_connection c) = Some (ret, s)"
    and r: "r = (if ret \<le> 0 then -1 else 0)" "c' = c\<lparr>tls_connection := s\<rparr>"
    using assms(2) by (auto simp: SendFrame_def bind_r_eq_Inr split: option.splits)
  obtain n where "send_turns api buffer n (SSL_ERROR_WANT_WRITE, tls_connection c) = Some (ret, s)"
    using send_loop_turns [OF loop] by blast
  from send_turns_sent [OF assms(1) this] r show ?thesis by auto
qed

lemma fd_set_ok_range: "fd_set_ok fd = Inr u \<longleftrightarrow> 0 \<le> fd \<and> fd < 1024"
  by (simp add: fd_set_ok_def FD_SETSIZE_def)

lemma Send_steps:
  assumes "bufs_ok c" and "length message < 2 ^ 31"
  shows "if 15996 < length message
    then \<exists>sb. Send api c message = Inr (-10, c\<lparr>send_buf := sb\<rparr>) \<and> length sb = 16001
    else \<exists>sb. Send api c message = SendFrame api (c\<lparr>send_buf := sb\<rparr>)
        (rfc_server_frame (frame_code WS_TEXT_FRAME) message) \<and> length sb = 16001"
proof -
  obtain out r where mk: "wsMakeFrame (Some message) (word_of_nat (length message)) (send_buf c) 16000
      WS_TEXT_FRAME = Inr (out, r)" "length out = 16001" "r = -1 \<longleftrightarrow> 15996 < length message"
    "length message \<le> 15996 \<longrightarrow> r = int (header_length (length message) + length message) \<and>
     take (nat r) out = rfc_server_frame (frame_code WS_TEXT_FRAME) message"
    using wsMakeFrame_buffer [of message "send_buf c" WS_TEXT_FRAME] assms
    by (auto simp: bufs_ok_def data_types_def)
  have cap: "(word_of_int SEND_BUF_LEN :: c_size) = 16000" by (simp add: SEND_BUF_LEN_def)
  show ?thesis
  proof (cases "15996 < length message")
    case True
    with mk show ?thesis by (auto simp: Send_def cap)
  next
    case False
    moreover from this have "header_length (length message) \<le> 4" by (simp add: header_length_def)
    ultimately have "0 \<le> r" "nat r \<le> 16000" using mk(4) by simp_all
    with False mk show ?thesis by (auto simp: Send_def cap mem_ok)
  qed
qed

end
