(* ===== verification/Connection_Handshake.thy ===== *)
theory Connection_Handshake
  imports Connection_Laws
begin

text \<open>
  The opening handshake of a connection: on any input it keeps the invariant of the buffers or
  stops at one of the faults of the parser and of the answer, and on the request of a
  conforming client, however the bytes arrive, it sends the answer of RFC 6455 and leaves in
  the buffer what follows the request.
\<close>

section \<open>The key the answer is computed from\<close>

definition key_of :: "byte list list \<Rightarrow> byte list option" where
  "key_of ls = fold (\<lambda>l k. if prefix keyField l then Some (value_of keyField l) else k) ls None"

lemma line_effect_key:
  assumes l: "good_line l" and e: "line_effect l st = Inr st'"
  shows "hs_key (st_hs st') =
    (if prefix keyField l then Some (value_of keyField l) else hs_key (st_hs st))"
proof (cases "\<exists>f \<in> set fields. prefix f l")
  case False
  with e show ?thesis by (auto simp: fields_def line_effect_def Let_def)
next
  case True
  then obtain f where f: "f \<in> set fields" "prefix f l" by blast
  have others: "g \<in> set fields \<Longrightarrow> prefix g l \<longleftrightarrow> g = f" for g
    using prefix_field_unique [OF _ f(2) _ f(1)] f(2) by blast
  note is_field = others [of hostField] others [of originField] others [of protocolField]
    others [of keyField] others [of versionField] others [of connectionField]
    others [of upgradeField]
  show ?thesis
    using e f(1) fields_unequal good_line_value [OF l f(2,1)] is_field
    by (auto simp: fields_def line_effect_def Let_def)
qed

lemma fold_lines_key:
  assumes "\<And>l. l \<in> set ls \<Longrightarrow> good_line l" and "fold_lines ls st = Inr st'"
  shows "hs_key (st_hs st') =
    fold (\<lambda>l k. if prefix keyField l then Some (value_of keyField l) else k) ls (hs_key (st_hs st))"
  using assms
proof (induction ls arbitrary: st)
  case (Cons l ls)
  then obtain st1 where "line_effect l st = Inr st1" "fold_lines ls st1 = Inr st'"
    by (auto simp: bind_r_eq_Inr)
  with Cons line_effect_key [of l st st1] show ?case by simp
qed simp

lemma key_of_Some:
  assumes "accepts ls"
  shows "\<exists>key. key_of ls = Some key"
proof -
  have "fold (\<lambda>l k. if prefix keyField l then Some (value_of keyField l) else k) ls k \<noteq> None"
    if "k \<noteq> None \<or> (\<exists>l \<in> set ls. prefix keyField l)" for k
    using that by (induction ls arbitrary: k) auto
  with assms show ?thesis by (fastforce simp: key_of_def accepts_def)
qed

section \<open>A request that has not arrived completely\<close>

lemma find_sub_take:
  assumes "find_sub s pat = Some i" and "n < i + length pat" and "pat \<noteq> []"
  shows "find_sub (take n s) pat = None"
proof (rule ccontr)
  assume "find_sub (take n s) pat \<noteq> None"
  then obtain j where j: "find_sub (take n s) pat = Some j" by auto
  have p: "j + length pat \<le> length (take n s)" "prefix pat (drop j (take n s))"
    using find_sub_Some [OF j] by simp_all
  have "prefix pat (drop j s)"
    using p(2) by (metis drop_take prefix_order.trans take_is_prefix)
  moreover have "j < i" using p(1) assms(2) by simp
  ultimately show False using find_sub_least [OF assms(1)] by blast
qed

lemma request_no_zero:
  assumes "is_token target" and "13 \<notin> set proto" and "0 \<notin> set proto"
    and "\<And>l. l \<in> set ls \<Longrightarrow> ok_line l"
  shows "0 \<notin> set (render_request target proto ls)"
proof -
  have "l \<in> set (request_line target proto # ls) \<Longrightarrow> ok_line l" for l
    using request_line_ok [OF assms(1-3)] assms(4) by auto
  then show ?thesis
    using render_lines_zero [of "request_line target proto # ls"]
    by (simp add: render_request_def rn_def)
qed

lemma parse_partial_request:
  assumes tok: "is_token target" "13 \<notin> set proto" "0 \<notin> set proto"
    and ls: "\<And>l. l \<in> set ls \<Longrightarrow> ok_line l"
    and n: "n < length (render_request target proto ls)"
  shows "wsParseHandshake (take n (render_request target proto ls) @ 0 # rest) len hs =
    Inr (WS_INCOMPLETE_FRAME, hs, None)"
proof -
  let ?r = "render_request target proto ls" and ?all = "request_line target proto # ls"
  have all: "l \<in> set ?all \<Longrightarrow> ok_line l" for l
    using ls request_line_ok [OF tok] by auto
  have "find_sub ?r (rn @ rn) = Some (length (render_lines ?all) - 2)"
    using find_rnrn [of ?all "[]"] all by (simp add: render_request_def)
  moreover have "length ?r = length (render_lines ?all) - 2 + length (rn @ rn)"
    by (simp add: render_request_def rn_def)
  ultimately have none: "find_sub (take n ?r) (rn @ rn) = None"
    using n by (intro find_sub_take) (simp_all add: rn_def)
  have "0 \<notin> set (take n ?r)" using request_no_zero [OF tok ls] by (auto dest: in_set_takeD)
  then have "cstr (take n ?r @ 0 # rest) = take n ?r" by (rule cstr_append_zero)
  with none have "strstr (take n ?r @ 0 # rest) (rn @ rn) = None" by (simp only: strstr_def)
  then show ?thesis by (simp add: wsParseHandshake_def)
qed

section \<open>What the parser returns\<close>

lemma wsParseHandshake_frame_end:
  assumes "wsParseHandshake buf len nullHandshake = Inr (t, hs, fl)"
  shows "t \<in> {WS_INCOMPLETE_FRAME, WS_ERROR_FRAME, WS_OPENING_FRAME}"
    and "t = WS_OPENING_FRAME \<Longrightarrow>
      hs_type hs = t \<and> hs_key hs \<noteq> None \<and> (\<exists>n. fl = Some n \<and> 4 \<le> n \<and> n \<le> length (cstr buf))"
proof -
  have v: "hs_verdict st \<in> {WS_ERROR_FRAME, WS_OPENING_FRAME}" for st by (simp add: hs_verdict_def)
  have k: "hs_verdict st = WS_OPENING_FRAME \<Longrightarrow> hs_key (st_hs st) \<noteq> None" for st
    by (auto simp: hs_verdict_def split: if_splits)
  show "t \<in> {WS_INCOMPLETE_FRAME, WS_ERROR_FRAME, WS_OPENING_FRAME}"
    using assms v
    by (auto simp: wsParseHandshake_def Let_def bind_r_eq_Inr split: option.splits if_splits)
  assume t: "t = WS_OPENING_FRAME"
  have e: "strstr buf (rn @ rn) = Some e \<Longrightarrow> e + 4 \<le> length (cstr buf)" for e
    using find_sub_Some [of "cstr buf" "rn @ rn" e] by (simp add: strstr_def rn_def)
  show "hs_type hs = t \<and> hs_key hs \<noteq> None \<and> (\<exists>n. fl = Some n \<and> 4 \<le> n \<and> n \<le> length (cstr buf))"
    using assms t k
    by (auto simp: wsParseHandshake_def Let_def bind_r_eq_Inr split: option.splits if_splits dest!: e)
qed

section \<open>Answering\<close>

definition fd_ok :: "'s client \<Rightarrow> bool" where
  "fd_ok c \<longleftrightarrow> 0 \<le> socket c \<and> socket c < 1024"

lemma SendFrame_cases:
  assumes "fd_ok c"
  shows "SendFrame api c buffer = Inl NoReturn \<or>
    (\<exists>r s. SendFrame api c buffer = Inr (r, c\<lparr>tls_connection := s\<rparr>) \<and> r \<in> {0, -1})"
proof -
  have "fd_set_ok (socket c) = Inr ()" using assms by (simp add: fd_ok_def fd_set_ok_range)
  then show ?thesis by (auto simp: SendFrame_def split: option.split)
qed

text \<open>The identity and the socket of a connection stay, and its buffers keep their sizes.\<close>

definition conn_only :: "'s client \<Rightarrow> 's client \<Rightarrow> bool" where
  "conn_only c c' \<longleftrightarrow>
     cl_id c' = cl_id c \<and> socket c' = socket c \<and> last_error c' = last_error c \<and> bufs_ok c'"

lemma clear_send_buf_ok:
  assumes "bufs_ok c"
  shows "clear_send_buf c = Inr (c\<lparr>send_buf := replicate 8192 0 @ drop 8192 (send_buf c)\<rparr>)"
    and "length (replicate 8192 0 @ drop 8192 (send_buf c)) = 16001"
  using assms by (simp_all add: clear_send_buf_def bufs_ok_def mem_ok BUF_LEN_def del: replicate.simps)

lemma length_bad_request: "length bad_request = 55"
  by (simp add: bad_request_def rn_def versionField_def version_def)

lemma reject_request_outcome:
  assumes c: "bufs_ok c" and fd: "fd_ok c"
  shows "reject_request api c = Inl NoReturn \<or>
    (\<exists>c'. reject_request api c = Inr (INVALID_FRAME, c') \<and> conn_only c c' \<and> handshaked c' = handshaked c)"
proof -
  define sb1 where "sb1 = replicate 8192 0 @ drop 8192 (send_buf c)"
  have clear: "clear_send_buf c = Inr (c\<lparr>send_buf := sb1\<rparr>)" "length sb1 = 16001"
    unfolding sb1_def by (rule clear_send_buf_ok [OF c])+
  define sb2 where "sb2 = bad_request @ [0] @ drop 56 sb1"
  have wr: "write_bytes sb1 0 (bad_request @ [0]) = Inr sb2" "length sb2 = 16001"
    using clear(2) by (simp_all add: mem_ok length_bad_request sb2_def)
  let ?c = "c\<lparr>send_buf := sb2\<rparr>"
  have "fd_ok ?c" using fd by (simp add: fd_ok_def)
  note send = SendFrame_cases [OF this, of api "take (length bad_request) sb2"]
  have "bufs_ok (?c\<lparr>tls_connection := s\<rparr>)" for s using c wr(2) by (simp add: bufs_ok_def)
  with send show ?thesis
    by (auto simp: reject_request_def clear(1) wr(1) conn_only_def)
qed

lemma answer_request_steps:
  assumes c: "bufs_ok c" "0 \<le> frame_buf_pos c" "frame_buf_pos c \<le> 8192"
    and hs: "hs_type hs = WS_OPENING_FRAME" "hs_key hs = Some key" and n: "int n \<le> frame_buf_pos c"
    and key: "length key \<le> 219"
  shows "\<exists>sb. length sb = 16001 \<and> answer_request api hs n c =
    bind_r (SendFrame api (c\<lparr>send_buf := sb,
        frame_buf := take (nat (frame_buf_pos c) - n) (drop n (frame_buf c)) @
          drop (nat (frame_buf_pos c) - n) (frame_buf c),
        frame_buf_pos := frame_buf_pos c - int n\<rparr>) (answer_text (rfc_accept key)))
      (\<lambda>(ret, c4). if ret = -1 then Inr (NETWORK_ERROR, c4)
        else Inr (if frame_buf_pos c4 = 0 then READ_SUCCEED else READ_SUCCEED_DATA_AVAILABLE,
                  c4\<lparr>handshaked := True\<rparr>))"
proof -
  define sb1 where "sb1 = replicate 8192 0 @ drop 8192 (send_buf c)"
  have clear: "clear_send_buf c = Inr (c\<lparr>send_buf := sb1\<rparr>)" "length sb1 = 16001"
    unfolding sb1_def by (rule clear_send_buf_ok [OF c(1)])+
  define txt0 where "txt0 = answer_text (rfc_accept key)"
  have tl: "length txt0 = 129" by (simp add: txt0_def length_answer_text length_rfc_accept)
  define sb where "sb = txt0 @ [0] @ drop 130 sb1"
  have ans: "wsGetHandshakeAnswer hs sb1 (nat BUF_LEN) = Inr (sb, 129)"
    using answer_fits [OF hs key, of "nat BUF_LEN" sb1] clear(2)
    by (simp add: BUF_LEN_def sb_def txt0_def)
  have sb: "length sb = 16001" "read_bytes sb 0 129 = Inr txt0"
    using clear(2) tl by (simp_all add: sb_def mem_ok)
  let ?c = "c\<lparr>send_buf := sb\<rparr>"
  have "length (frame_buf ?c) = 8193" "0 \<le> frame_buf_pos ?c" "frame_buf_pos ?c \<le> 8192"
    "int n \<le> frame_buf_pos ?c" using c n by (simp_all add: bufs_ok_def)
  note drp = drop_frame_ok [OF this]
  show ?thesis
    using sb n by (intro exI [of _ sb])
      (simp add: answer_request_def clear(1) ans drp txt0_def [symmetric] Let_def
        if_distrib [of Inr] cong: if_cong)
qed

lemma answer_request_overflow:
  assumes "bufs_ok c" and "hs_type hs = WS_OPENING_FRAME" and "hs_key hs = Some key"
    and "220 \<le> length key"
  shows "answer_request api hs n c = Inl HeapOverflow"
  using answer_overflow [OF assms(2-4), of "nat BUF_LEN"]
  by (simp add: answer_request_def clear_send_buf_ok(1) [OF assms(1)] BUF_LEN_def)

section \<open>The handshake on any input\<close>

text \<open>The terminated buffer the request is parsed from.\<close>

definition terminated :: "'s client \<Rightarrow> bool" where
  "terminated c \<longleftrightarrow> filled c \<and> frame_buf c ! nat (frame_buf_pos c) = 0"

lemma terminated_cstr:
  assumes "terminated c"
  shows "0 \<in> set (frame_buf c)" and "length (cstr (frame_buf c)) \<le> nat (frame_buf_pos c)"
proof -
  have len: "nat (frame_buf_pos c) < length (frame_buf c)"
    using assms by (auto simp: terminated_def filled_def nat_less_iff)
  with assms show "0 \<in> set (frame_buf c)" by (metis terminated_def nth_mem)
  show "length (cstr (frame_buf c)) \<le> nat (frame_buf_pos c)"
  proof (rule ccontr)
    assume long: "\<not> length (cstr (frame_buf c)) \<le> nat (frame_buf_pos c)"
    then have "cstr (frame_buf c) ! nat (frame_buf_pos c) \<in> set (cstr (frame_buf c))"
      by (intro nth_mem) simp
    moreover have "cstr (frame_buf c) ! nat (frame_buf_pos c) = frame_buf c ! nat (frame_buf_pos c)"
      using long by (simp add: cstr_def takeWhile_nth)
    ultimately show False using assms cstr_no_zero by (metis terminated_def)
  qed
qed

text \<open>
  \<open>opened\<close>: the result after an accepted request of \<open>n\<close> bytes, taken off the buffer.
\<close>

definition opened :: "'s client \<Rightarrow> nat \<Rightarrow> int \<Rightarrow> 's client \<Rightarrow> bool" where
  "opened c n ret c' \<longleftrightarrow>
     handshaked c' \<and> 4 \<le> n \<and> frame_buf_pos c' = frame_buf_pos c - int n \<and> 0 \<le> frame_buf_pos c' \<and>
     ret = (if frame_buf_pos c' = 0 then READ_SUCCEED else READ_SUCCEED_DATA_AVAILABLE) \<and>
     take (nat (frame_buf_pos c')) (frame_buf c') =
       drop n (take (nat (frame_buf_pos c)) (frame_buf c))"

lemma answer_request_outcome:
  assumes c: "bufs_ok c" "0 \<le> frame_buf_pos c" "frame_buf_pos c \<le> 8192" and fd: "fd_ok c"
    and hs: "hs_type hs = WS_OPENING_FRAME" "hs_key hs = Some key" and key: "length key \<le> 219"
    and n: "int n \<le> frame_buf_pos c" "4 \<le> n"
  shows "case answer_request api hs n c of
      Inl x \<Rightarrow> x = NoReturn
    | Inr (ret, c') \<Rightarrow> conn_only c c' \<and>
        (opened c n ret c' \<and>
         (ssl_stream_ok api pending \<longrightarrow> pending (tls_connection c') = pending (tls_connection c)) \<and>
         (ssl_write_ok api sent \<longrightarrow>
            sent (tls_connection c') = sent (tls_connection c) @ answer_text (rfc_accept key)) \<or>
         ret = NETWORK_ERROR \<and> handshaked c' = handshaked c)"
proof -
  let ?p = "nat (frame_buf_pos c) - n" and ?a = "answer_text (rfc_accept key)"
  have pos: "length (frame_buf c) = 8193" using c(1) by (simp add: bufs_ok_def)
  obtain sb where sb: "length sb = 16001" "answer_request api hs n c =
    bind_r (SendFrame api (c\<lparr>send_buf := sb,
        frame_buf := take ?p (drop n (frame_buf c)) @ drop ?p (frame_buf c),
        frame_buf_pos := frame_buf_pos c - int n\<rparr>) ?a)
      (\<lambda>(ret, c4). if ret = -1 then Inr (NETWORK_ERROR, c4)
        else Inr (if frame_buf_pos c4 = 0 then READ_SUCCEED else READ_SUCCEED_DATA_AVAILABLE,
                  c4\<lparr>handshaked := True\<rparr>))"
    using answer_request_steps [OF c hs n(1) key] by auto
  let ?c = "c\<lparr>send_buf := sb, frame_buf := take ?p (drop n (frame_buf c)) @ drop ?p (frame_buf c),
        frame_buf_pos := frame_buf_pos c - int n\<rparr>"
  have lp: "?p \<le> 8193 - n" "nat (frame_buf_pos c - int n) = ?p" using c n by linarith+
  have len: "length (take ?p (drop n (frame_buf c)) @ drop ?p (frame_buf c)) = 8193"
    using lp pos by simp
  have tk: "take ?p (take ?p (drop n (frame_buf c)) @ drop ?p (frame_buf c)) =
      drop n (take (nat (frame_buf_pos c)) (frame_buf c))"
    using lp pos by (simp add: drop_take)
  have "fd_ok ?c" using fd by (simp add: fd_ok_def)
  from SendFrame_cases [OF this, of api ?a]
  consider "SendFrame api ?c ?a = Inl NoReturn"
    | r s where "SendFrame api ?c ?a = Inr (r, ?c\<lparr>tls_connection := s\<rparr>)" "r \<in> {0, -1}" by blast
  then show ?thesis
  proof cases
    case 1
    then show ?thesis by (simp add: sb(2))
  next
    case 2
    have "conn_only c (?c\<lparr>tls_connection := s, handshaked := b\<rparr>)" for b
      using sb(1) len by (simp add: conn_only_def bufs_ok_def)
    moreover have "opened c n (if frame_buf_pos c - int n = 0 then READ_SUCCEED
        else READ_SUCCEED_DATA_AVAILABLE) (?c\<lparr>tls_connection := s, handshaked := True\<rparr>)"
      using n tk lp(2) by (simp add: opened_def)
    moreover have "ssl_stream_ok api pending \<Longrightarrow> pending s = pending (tls_connection c)"
      using SendFrame_pending [OF _ 2(1)] by simp
    moreover have "ssl_write_ok api sent \<Longrightarrow> r = 0 \<Longrightarrow> sent s = sent (tls_connection c) @ ?a"
      using SendFrame_outcome [OF _ 2(1)] by simp
    ultimately show ?thesis
      using 2 by (auto simp: sb(2) return_codes conn_only_def bufs_ok_def)
  qed
qed

text \<open>
  What a client has been sent while it was served: nothing, unless it has opened its connection
  in between; then the answer for some key.
\<close>

definition talks :: "('s \<Rightarrow> byte list) \<Rightarrow> 's client \<Rightarrow> 's client \<Rightarrow> bool" where
  "talks sent c c' \<longleftrightarrow> (handshaked c \<longrightarrow> handshaked c') \<and>
     (if handshaked c' = handshaked c then sent (tls_connection c') = sent (tls_connection c)
      else \<exists>key. sent (tls_connection c') = sent (tls_connection c) @ answer_text (rfc_accept key))"

lemma talks_refl [simp]: "talks sent c c"
  by (simp add: talks_def)

lemma talks_trans: "talks sent c c1 \<Longrightarrow> talks sent c1 c2 \<Longrightarrow> talks sent c c2"
  by (auto simp: talks_def split: if_splits)

lemma handshake_frame_opens:
  assumes c: "terminated c" "bufs_ok c" and fd: "fd_ok c"
    and m: "wsParseHandshake (frame_buf c) (nat (frame_buf_pos c)) nullHandshake = Inr (WS_OPENING_FRAME, hs, fl)"
  shows "case handshake_frame api c of
      Inl x \<Rightarrow> x \<in> {HeapOverflow, NoReturn}
    | Inr (ret, c') \<Rightarrow> conn_only c c' \<and>
        ((\<exists>n. opened c n ret c' \<and>
           (ssl_stream_ok api pending \<longrightarrow> pending (tls_connection c') = pending (tls_connection c))) \<and>
         (ssl_write_ok api sent \<longrightarrow>
           (\<exists>key. sent (tls_connection c') = sent (tls_connection c) @ answer_text (rfc_accept key))) \<or>
         ret = NETWORK_ERROR \<and> handshaked c' = handshaked c)"
proof -
  have pos: "0 \<le> frame_buf_pos c" "frame_buf_pos c \<le> 8192" using c(1) by (simp_all add: terminated_def filled_def)
  obtain key n where k: "hs_type hs = WS_OPENING_FRAME" "hs_key hs = Some key" "fl = Some n"
    "4 \<le> n" "n \<le> nat (frame_buf_pos c)"
    using wsParseHandshake_frame_end(2) [OF m] terminated_cstr(2) [OF c(1)] by auto
  have step: "handshake_frame api c = answer_request api hs n c"
    using k by (simp add: handshake_frame_def m)
  show ?thesis
  proof (cases "length key \<le> 219")
    case False
    then show ?thesis using answer_request_overflow [OF c(2) k(1,2), of api n] by (simp add: step)
  next
    case True
    have n: "int n \<le> frame_buf_pos c" using k(5) pos by linarith
    from answer_request_outcome [OF c(2) pos fd k(1,2) True n k(4), of api pending sent]
    show ?thesis by (auto simp: step split: sum.splits)
  qed
qed

lemma handshake_frame_outcome:
  assumes c: "terminated c" "length (send_buf c) = 16001" and fd: "fd_ok c" and hs: "\<not> handshaked c"
  shows "case handshake_frame api c of
      Inl x \<Rightarrow> x \<in> {AssertFail, HeapOverflow, NoReturn}
    | Inr (ret, c') \<Rightarrow> conn_only c c' \<and>
        (ret = WAITING_FOR_MORE_DATA \<and> c' = c \<and> frame_buf_pos c < 8192 \<or>
         (\<exists>n. opened c n ret c' \<and>
           (ssl_stream_ok api pending \<longrightarrow> pending (tls_connection c') = pending (tls_connection c))) \<or>
         ret < 0 \<and> \<not> handshaked c') \<and>
        (ssl_write_ok api sent \<and> 0 \<le> ret \<longrightarrow> talks sent c c')"
proof -
  let ?m = "wsParseHandshake (frame_buf c) (nat (frame_buf_pos c)) nullHandshake"
  have bufs: "bufs_ok c" using c by (simp add: terminated_def filled_def bufs_ok_def)
  show ?thesis
  proof (cases ?m)
    case (Inl x)
    then show ?thesis
      using wsParseHandshake_faults [OF terminated_cstr(1) [OF c(1)] Inl] by (auto simp: handshake_frame_def)
  next
    case (Inr r)
    then obtain t h0 fl where m: "?m = Inr (t, h0, fl)" by (cases r) auto
    consider "t = WS_INCOMPLETE_FRAME \<and> BUF_LEN \<le> frame_buf_pos c \<or> t = WS_ERROR_FRAME"
      | "t = WS_INCOMPLETE_FRAME" "frame_buf_pos c < 8192" | "t = WS_OPENING_FRAME"
      using wsParseHandshake_frame_end(1) [OF m] by (cases "8192 \<le> frame_buf_pos c") (auto simp: BUF_LEN_def not_le)
    then show ?thesis
    proof cases
      case 1
      then have "handshake_frame api c = reject_request api c" by (auto simp: handshake_frame_def m)
      then show ?thesis
        using reject_request_outcome [OF bufs fd, of api] hs by (auto simp: return_codes)
    next
      case 2
      moreover have "conn_only c c" using bufs by (simp add: conn_only_def)
      ultimately show ?thesis by (simp add: handshake_frame_def m BUF_LEN_def)
    next
      case 3
      from handshake_frame_opens [OF c(1) bufs fd m [unfolded 3], of api pending sent] hs
      show ?thesis by (auto simp: return_codes talks_def opened_def split: sum.splits)
    qed
  qed
qed

lemma Handshake_read:
  assumes api: "ssl_read_ok api" and c: "client_ok c"
  obtains (parse) ret err c1 c2 where "read_more api c = Inr (ret, err, c1)" "buf_only c c2"
      "terminated c2" "tls_connection c2 = tls_connection c1"
      "ssl_stream_ok api pending \<Longrightarrow> stream pending c2 = stream pending c"
      "Handshake api c = handshake_frame api c2"
  | (wait) ret err c1 where "read_more api c = Inr (ret, err, c1)" "buf_only c c1"
      "frame_buf_pos c1 = frame_buf_pos c"
      "ssl_stream_ok api pending \<Longrightarrow> stream pending c1 = stream pending c"
      "Handshake api c = Inr (WAITING_FOR_MORE_DATA, c1)"
  | (closed) ret c1 where "buf_only c c1" "ret \<in> {NETWORK_ERROR, CLIENT_DISCONNECTED}"
      "Handshake api c = Inr (ret, c1)"
proof -
  obtain ret err s b p where rd:
    "read_more api c = Inr (ret, err, c\<lparr>tls_connection := s, frame_buf := b, frame_buf_pos := p\<rparr>)"
    and b: "length b = 8193" "p = frame_buf_pos c + max 0 ret" "0 \<le> p" "p \<le> 8192"
    and str: "ssl_stream_ok api pending \<Longrightarrow> take (nat p) b @ pending s = stream pending c"
    by (rule read_more_result [OF api c, of pending]) (rule that; assumption)
  let ?c = "c\<lparr>tls_connection := s, frame_buf := b, frame_buf_pos := p\<rparr>"
  have only: "buf_only c ?c" using b(1) by (simp add: buf_only_def)
  have str': "ssl_stream_ok api pending \<Longrightarrow> stream pending ?c = stream pending c"
    using str by (simp add: stream_def)
  consider "ret < 0" "err = SSL_ERROR_WANT_READ" | "ret < 0" "err \<noteq> SSL_ERROR_WANT_READ" | "ret = 0" | "0 < ret"
    by linarith
  then show thesis
  proof cases
    case 1
    then show thesis using rd b(2) by (intro wait [OF rd only _ str']) (simp_all add: Handshake_def)
  next
    case 2
    then show thesis using rd by (intro closed [OF only, of NETWORK_ERROR]) (simp_all add: Handshake_def)
  next
    case 3
    then show thesis using rd
      by (intro closed [OF only, of CLIENT_DISCONNECTED]) (simp_all add: Handshake_def)
  next
    case 4
    let ?d = "?c\<lparr>frame_buf := b[nat p := 0]\<rparr>"
    have np: "nat p < 8193" using b(4) by linarith
    then have "Handshake api c = handshake_frame api ?d"
      using 4 rd b(1) by (simp add: Handshake_def mem_ok)
    moreover have "terminated ?d"
      using 4 b c np by (simp add: terminated_def filled_def client_ok_def)
    moreover have "buf_only c ?d" using b(1) by (simp add: buf_only_def)
    moreover have "ssl_stream_ok api pending \<Longrightarrow> stream pending ?d = stream pending c"
      using str by (simp add: stream_def)
    ultimately show thesis by (intro parse [OF rd, of ?d]) simp_all
  qed
qed

text \<open>The code \<open>Receive\<close> returns for the result of the handshake, and its three courses.\<close>

definition opening_code :: "int \<Rightarrow> 's client \<Rightarrow> int" where
  "opening_code ret c =
     (if ret < 0 then HANDSHAKE_FAILED else if handshaked c then HANDSHAKE_SUCCEED else WAITING_FOR_MORE_DATA)"

lemma Receive_opening:
  assumes api: "ssl_read_ok api" and c: "client_ok c" and fd: "fd_ok c" and hs: "\<not> handshaked c"
  obtains (parse) ret err c1 c2 where "read_more api c = Inr (ret, err, c1)" "tls_connection c2 = tls_connection c1"
      "terminated c2" "client_ok (c2\<lparr>frame_buf_pos := 0\<rparr>)" "fd_ok c2" "\<not> handshaked c2"
      "\<And>c'. conn_only c2 c' \<Longrightarrow> conn_only c c'"
      "ssl_stream_ok api pending \<Longrightarrow> stream pending c2 = stream pending c"
      "Receive api c buf n =
        bind_r (handshake_frame api c2) (\<lambda>(ret, c'). Inr (opening_code ret c', c', buf, n))"
  | (wait) ret err c1 where "read_more api c = Inr (ret, err, c1)" "conn_only c c1" "client_ok c1" "\<not> handshaked c1"
      "ssl_stream_ok api pending \<Longrightarrow> stream pending c1 = stream pending c"
      "Receive api c buf n = Inr (WAITING_FOR_MORE_DATA, c1, buf, n)"
  | (closed) c1 where "conn_only c c1" "\<not> handshaked c1" "Receive api c buf n = Inr (HANDSHAKE_FAILED, c1, buf, n)"
proof -
  have step: "Receive api c buf n =
      bind_r (Handshake api c) (\<lambda>(ret, c'). Inr (opening_code ret c', c', buf, n))"
    using hs by (simp add: Receive_def opening_code_def)
  from api c show thesis
  proof (cases rule: Handshake_read [where pending = pending, consumes 2, case_names parse wait closed])
    case (parse ret err c1 c2)
    have "client_ok (c2\<lparr>frame_buf_pos := 0\<rparr>)" "fd_ok c2" "\<not> handshaked c2" "\<And>c'. conn_only c2 c' \<Longrightarrow> conn_only c c'"
      using parse(2) c fd hs
      by (simp_all add: buf_only_def client_ok_def bufs_ok_def fd_ok_def conn_only_def BUF_LEN_def)
    from that(1) [OF parse(1,4,3) this parse(5)] show thesis using step parse(6) by simp
  next
    case (wait ret err c1)
    have "conn_only c c1" "client_ok c1" "\<not> handshaked c1"
      using wait(2,3) c hs by (simp_all add: buf_only_def client_ok_def bufs_ok_def conn_only_def)
    from that(2) [OF wait(1) this wait(4)] show thesis
      using step wait(5) \<open>\<not> handshaked c1\<close> by (simp add: opening_code_def return_codes)
  next
    case (closed ret c1)
    have "conn_only c c1" "\<not> handshaked c1"
      using closed(1) c hs by (simp_all add: buf_only_def client_ok_def bufs_ok_def conn_only_def)
    from that(3) [OF this] show thesis using step closed(2,3) by (auto simp: opening_code_def return_codes)
  qed
qed

text \<open>An accepted request of \<open>n\<close> bytes has used up \<open>n\<close> bytes of the stream.\<close>

lemma opened_stream:
  assumes t: "terminated c" and o: "opened c n ret c'" and cc: "conn_only c c'"
    and p: "pending (tls_connection c') = pending (tls_connection c)"
  shows "client_ok c'" and "handshaked c'" and "0 \<le> ret" and "4 \<le> n" and "n \<le> length (stream pending c)"
    and "stream pending c' = drop n (stream pending c)"
proof -
  have pos: "0 < frame_buf_pos c" "frame_buf_pos c \<le> 8192" "filled c"
    using t by (simp_all add: terminated_def filled_def)
  have n: "int n \<le> frame_buf_pos c" "4 \<le> n" using o by (auto simp: opened_def)
  have tk: "take (nat (frame_buf_pos c')) (frame_buf c') = drop n (take (nat (frame_buf_pos c)) (frame_buf c))"
    using o unfolding opened_def by blast
  from stream_drop [OF pos(3) n(1) tk p]
  show "stream pending c' = drop n (stream pending c)" "n \<le> length (stream pending c)" .
  show "client_ok c'" using o cc n pos by (simp add: opened_def client_ok_def conn_only_def BUF_LEN_def)
  show "handshaked c'" "0 \<le> ret" "4 \<le> n" using o by (auto simp: opened_def return_codes)
qed

lemma Receive_handshaking:
  assumes api: "ssl_read_ok api" and c: "client_ok c" and fd: "fd_ok c"
    and hs: "\<not> handshaked c"
  shows "case Receive api c buf len of
      Inl x \<Rightarrow> x \<in> {AssertFail, HeapOverflow, NoReturn}
    | Inr (ret, c', buf', len') \<Rightarrow> conn_only c c' \<and> buf' = buf \<and> len' = len \<and>
        (ret = WAITING_FOR_MORE_DATA \<and> \<not> handshaked c' \<and> client_ok c' \<and>
           (ssl_stream_ok api pending \<longrightarrow> stream pending c' = stream pending c) \<or>
         ret = HANDSHAKE_SUCCEED \<and> handshaked c' \<and> client_ok c' \<and>
           (ssl_stream_ok api pending \<longrightarrow> (\<exists>n. 4 \<le> n \<and> n \<le> length (stream pending c) \<and> stream pending c' = drop n (stream pending c))) \<or>
         ret = HANDSHAKE_FAILED \<and> \<not> handshaked c') \<and>
        (ssl_write_ok api sent \<and> 0 \<le> ret \<longrightarrow> talks sent c c')"
  using api c fd hs
proof (cases rule: Receive_opening [where pending = pending and buf = buf and n = len, consumes 4,
      case_names parse wait closed])
  case (parse ret err c1 c2)
  have "length (send_buf c2) = 16001" using parse(4) by (simp add: client_ok_def bufs_ok_def)
  note frame = handshake_frame_outcome [OF parse(3) this parse(5,6), of api pending sent]
  have snt: "talks sent c c2" if "ssl_write_ok api sent"
    using read_more_sent [OF that parse(1)] parse(2,6) hs by (simp add: talks_def)
  show ?thesis
  proof (cases "handshake_frame api c2")
    case (Inl x)
    with frame show ?thesis by (simp add: parse(9))
  next
    case (Inr r)
    obtain ret' c' where r: "r = (ret', c')" by (cases r)
    have recv: "Receive api c buf len = Inr (opening_code ret' c', c', buf, len)" by (simp add: parse(9) Inr r)
    from frame have cc: "conn_only c2 c'" by (simp add: Inr r)
    have tk: "talks sent c c'" if "ssl_write_ok api sent" "0 \<le> ret'"
      using frame that talks_trans [OF snt [OF that(1)], of c'] by (simp add: Inr r)
    from frame consider "ret' = WAITING_FOR_MORE_DATA" "c' = c2" "frame_buf_pos c2 < 8192"
      | n where "opened c2 n ret' c'"
          "ssl_stream_ok api pending \<longrightarrow> pending (tls_connection c') = pending (tls_connection c2)"
      | "ret' < 0" "\<not> handshaked c'" by (auto simp: Inr r)
    then show ?thesis
    proof cases
      case 1
      then have "client_ok c2" using parse(3,4)
        by (simp add: terminated_def filled_def client_ok_def bufs_ok_def BUF_LEN_def)
      with 1 parse(6,8) parse(7) [OF cc] show ?thesis using tk by (simp add: recv opening_code_def return_codes)
    next
      case (2 n)
      note o = opened_stream [OF parse(3) 2(1) cc]
      have "opening_code ret' c' = HANDSHAKE_SUCCEED" "handshaked c'" "client_ok c'"
        using o(1-3) [of "\<lambda>_. []"] by (simp_all add: opening_code_def)
      moreover have "ssl_write_ok api sent \<longrightarrow> talks sent c c'" using tk o(3) [of "\<lambda>_. []"] by blast
      ultimately show ?thesis using 2(2) o(4-6) [of pending] parse(8) parse(7) [OF cc] by (auto simp: recv)
    next
      case 3
      with parse(7) [OF cc] show ?thesis by (simp add: recv opening_code_def return_codes)
    qed
  qed
next
  case (wait ret err c1)
  with hs read_more_sent [of api sent, OF _ wait(1)] show ?thesis by (simp add: talks_def)
qed (simp_all add: return_codes)

section \<open>The handshake of a conforming client\<close>

text \<open>A complete request at the front of the terminated buffer.\<close>

lemma handshake_frame_request:
  assumes c: "terminated c" and tok: "is_token target" "13 \<notin> set proto" "0 \<notin> set proto"
    and ls: "\<forall>l \<in> set ls. good_line l" "accepts ls" and key: "key_of ls = Some key"
    and pre: "take (nat (frame_buf_pos c)) (frame_buf c) =
      take (nat (frame_buf_pos c)) (render_request target proto ls @ rest)"
    and whole: "length (render_request target proto ls) \<le> nat (frame_buf_pos c)"
  obtains hs where "hs_type hs = WS_OPENING_FRAME" "hs_key hs = Some key"
    "handshake_frame api c = answer_request api hs (length (render_request target proto ls)) c"
proof -
  let ?r = "render_request target proto ls" and ?p = "nat (frame_buf_pos c)"
  let ?stale = "drop (length ?r) (frame_buf c)"
  have pos: "length (frame_buf c) = 8193" "0 \<le> frame_buf_pos c" "frame_buf_pos c \<le> 8192"
    using c by (simp_all add: terminated_def filled_def)
  then have p: "?p < 8193" by linarith
  have "take (length ?r) (frame_buf c) = ?r"
    using arg_cong [OF pre, of "take (length ?r)"] whole by (simp add: min_absorb1)
  then have fb: "frame_buf c = ?r @ ?stale" by (metis append_take_drop_id)
  have "?stale ! (?p - length ?r) = frame_buf c ! ?p" using whole p pos(1) by simp
  then have "?stale ! (?p - length ?r) = 0" using c(1) by (simp add: terminated_def)
  moreover have "?p - length ?r < length ?stale" using whole p pos(1) by simp
  ultimately have z: "0 \<in> set ?stale" by (metis nth_mem)
  let ?h = "nullHandshake\<lparr>hs_resource := Some target\<rparr>"
  obtain st where st: "fold_lines ls (hs_start ?h) = Inr st" "hs_verdict st = WS_OPENING_FRAME"
    using fold_lines_verdict [of ls ?h] ls by (auto simp: nullHandshake_def)
  have k: "hs_key (st_hs st) = Some key"
    using fold_lines_key [OF _ st(1)] ls(1) key(1) by (simp add: key_of_def hs_start_def nullHandshake_def)
  have "wsParseHandshake (?r @ ?stale) ?p nullHandshake =
      Inr (WS_OPENING_FRAME, (st_hs st)\<lparr>hs_type := WS_OPENING_FRAME\<rparr>, Some (length ?r))"
    using wsParseHandshake_refines [OF tok _ z whole, of nullHandshake] ls(1) st
    by (simp add: good_line_def)
  then show thesis
    using that [of "(st_hs st)\<lparr>hs_type := WS_OPENING_FRAME\<rparr>"] k by (simp add: handshake_frame_def fb [symmetric])
qed

lemma handshake_frame_accept:
  assumes c: "terminated c" "length (send_buf c) = 16001" and fd: "fd_ok c"
    and tok: "is_token target" "13 \<notin> set proto" "0 \<notin> set proto"
    and ls: "\<forall>l \<in> set ls. good_line l" "accepts ls" and key: "key_of ls = Some key" "length key \<le> 219"
    and pre: "take (nat (frame_buf_pos c)) (frame_buf c) =
      take (nat (frame_buf_pos c)) (render_request target proto ls @ rest)"
    and whole: "length (render_request target proto ls) \<le> nat (frame_buf_pos c)"
    and api: "ssl_write_ok api sent" "ssl_stream_ok api pending"
  shows "case handshake_frame api c of
      Inl x \<Rightarrow> x = NoReturn
    | Inr (ret, c') \<Rightarrow> conn_only c c' \<and>
        (opened c (length (render_request target proto ls)) ret c' \<and>
         pending (tls_connection c') = pending (tls_connection c) \<and>
         sent (tls_connection c') = sent (tls_connection c) @ answer_text (rfc_accept key) \<or>
         ret = NETWORK_ERROR \<and> handshaked c' = handshaked c)"
proof -
  let ?r = "render_request target proto ls"
  have pos: "bufs_ok c" "0 \<le> frame_buf_pos c" "frame_buf_pos c \<le> 8192"
    using c by (simp_all add: terminated_def filled_def bufs_ok_def)
  obtain hs where hs: "hs_type hs = WS_OPENING_FRAME" "hs_key hs = Some key"
    "handshake_frame api c = answer_request api hs (length ?r) c"
    by (rule handshake_frame_request [OF c(1) tok ls key(1) pre whole])
  have n: "int (length ?r) \<le> frame_buf_pos c" "4 \<le> length ?r"
    using whole pos by (linarith, simp add: render_request_def rn_def)
  show ?thesis
    using answer_request_outcome [OF pos fd hs(1,2) key(2) n, of api pending sent] api
    by (auto simp: hs(3) split: sum.splits)
qed

lemma split_terminated:
  assumes pre: "take n xs = take n (r @ rest)" and n: "n < length xs" "n < length r" and z: "xs ! n = 0"
  shows "xs = take n r @ 0 # drop (Suc n) xs"
proof -
  have "xs = take n xs @ xs ! n # drop (Suc n) xs" using n(1) by (simp add: id_take_nth_drop)
  then show ?thesis using pre n(2) z by simp
qed

text \<open>While the request is incomplete the handshake waits.\<close>

lemma handshake_frame_waits:
  assumes c: "terminated c" and tok: "is_token target" "13 \<notin> set proto" "0 \<notin> set proto"
    and ls: "\<forall>l \<in> set ls. good_line l"
    and pre: "take (nat (frame_buf_pos c)) (frame_buf c) =
      take (nat (frame_buf_pos c)) (render_request target proto ls @ rest)"
    and part: "nat (frame_buf_pos c) < length (render_request target proto ls)"
    and len: "length (render_request target proto ls) \<le> 8192"
  shows "handshake_frame api c = Inr (WAITING_FOR_MORE_DATA, c)" and "frame_buf_pos c < 8192"
proof -
  let ?p = "nat (frame_buf_pos c)" and ?r = "render_request target proto ls"
  show pos: "frame_buf_pos c < 8192" using part len by linarith
  then have p: "?p < length (frame_buf c)" "frame_buf c ! ?p = 0"
    using c by (simp_all add: terminated_def filled_def)
  have "frame_buf c = take ?p ?r @ 0 # drop (Suc ?p) (frame_buf c)"
    using split_terminated [OF pre p(1) part p(2)] .
  then have "wsParseHandshake (frame_buf c) ?p nullHandshake = Inr (WS_INCOMPLETE_FRAME, nullHandshake, None)"
    using parse_partial_request [OF tok _ part, of "drop (Suc ?p) (frame_buf c)" ?p nullHandshake] ls
    by (simp add: good_line_def)
  with pos show "handshake_frame api c = Inr (WAITING_FOR_MORE_DATA, c)"
    by (simp add: handshake_frame_def BUF_LEN_def)
qed

lemma Receive_request:
  assumes api: "ssl_read_ok api" "ssl_stream_ok api pending" "ssl_write_ok api sent"
    and c: "client_ok c" and fd: "fd_ok c" and hs: "\<not> handshaked c"
    and tok: "is_token target" "13 \<notin> set proto" "0 \<notin> set proto"
    and ls: "\<forall>l \<in> set ls. good_line l" "accepts ls" and key: "key_of ls = Some key" "length key \<le> 219"
    and len: "length (render_request target proto ls) \<le> 8192"
    and str: "stream pending c = render_request target proto ls @ rest"
  shows "case Receive api c buf n of
      Inl x \<Rightarrow> x = NoReturn
    | Inr (ret, c', buf', n') \<Rightarrow> conn_only c c' \<and>
        (ret = WAITING_FOR_MORE_DATA \<and> \<not> handshaked c' \<and> client_ok c' \<and>
           stream pending c' = stream pending c \<and> sent (tls_connection c') = sent (tls_connection c) \<or>
         ret = HANDSHAKE_SUCCEED \<and> handshaked c' \<and> client_ok c' \<and> stream pending c' = rest \<and>
           sent (tls_connection c') = sent (tls_connection c) @ answer_text (rfc_accept key) \<or>
         ret = HANDSHAKE_FAILED)"
  using api(1) c fd hs
proof (cases rule: Receive_opening [where pending = pending and buf = buf and n = n, consumes 4,
      case_names parse wait closed])
  case (parse ret err c1 c2)
  let ?r = "render_request target proto ls" and ?p = "nat (frame_buf_pos c2)"
  have snt: "sent (tls_connection c2) = sent (tls_connection c)"
    using read_more_sent [OF api(3) parse(1)] parse(2) by simp
  have sb: "length (send_buf c2) = 16001" using parse(4) by (simp add: client_ok_def bufs_ok_def)
  have pre: "take ?p (frame_buf c2) = take ?p (?r @ rest)"
    using parse(3) parse(8) [OF api(2)] str by (intro stream_front) (simp_all add: terminated_def)
  show ?thesis
  proof (cases "length ?r \<le> ?p")
    case False
    from handshake_frame_waits [OF parse(3) tok ls(1) pre _ len] False
    have w: "handshake_frame api c2 = Inr (WAITING_FOR_MORE_DATA, c2)" "frame_buf_pos c2 < 8192" by simp_all
    have "client_ok c2" using w(2) parse(3,4)
      by (simp add: terminated_def filled_def client_ok_def bufs_ok_def BUF_LEN_def)
    moreover from this have "conn_only c2 c2" by (simp add: conn_only_def client_ok_def)
    ultimately show ?thesis using parse(6) parse(7) parse(8) [OF api(2)] snt w(1)
      by (simp add: parse(9) opening_code_def return_codes)
  next
    case True
    note acc = handshake_frame_accept [OF parse(3) sb parse(5) tok ls key pre True api(3,2)]
    show ?thesis
    proof (cases "handshake_frame api c2")
      case (Inl x)
      with acc show ?thesis by (simp add: parse(9))
    next
      case (Inr q)
      obtain ret' c' where q: "q = (ret', c')" by (cases q)
      have recv: "Receive api c buf n = Inr (opening_code ret' c', c', buf, n)" by (simp add: parse(9) Inr q)
      from acc have cc: "conn_only c2 c'" by (simp add: Inr q)
      from acc consider "opened c2 (length ?r) ret' c'" "pending (tls_connection c') = pending (tls_connection c2)"
          "sent (tls_connection c') = sent (tls_connection c2) @ answer_text (rfc_accept key)"
        | "ret' = NETWORK_ERROR" by (auto simp: Inr q)
      then show ?thesis
      proof cases
        case 1
        from opened_stream [OF parse(3) 1(1) cc 1(2)] str parse(8) [OF api(2)]
        show ?thesis using 1(3) snt parse(7) [OF cc] by (simp add: recv opening_code_def)
      next
        case 2
        with parse(7) [OF cc] show ?thesis by (simp add: recv opening_code_def return_codes)
      qed
    qed
  qed
next
  case (wait ret err c1)
  with read_more_sent [OF api(3) wait(1)] api(2) show ?thesis by (simp add: return_codes)
qed (simp_all add: return_codes)

section \<open>Every message and every handshake uses up bytes of the stream\<close>

definition same_conn :: "'s client \<Rightarrow> 's client \<Rightarrow> bool" where
  "same_conn c c' \<longleftrightarrow> cl_id c' = cl_id c \<and> socket c' = socket c"

lemma Receive_progress:
  assumes api: "ssl_read_ok api" "ssl_stream_ok api pending" and c: "client_ok c" and fd: "fd_ok c"
    and buf: "length buf = 2048" and r: "Receive api c buf 2048 = Inr (ret, c', buf', len')"
    and more: "ret = READ_SUCCEED_DATA_AVAILABLE \<or> ret = HANDSHAKE_SUCCEED"
  shows "length (stream pending c') < length (stream pending c)"
proof (cases "handshaked c")
  case True
  from api(1) c True show ?thesis
  proof (cases rule: Receive_read [where pending = pending and buf = buf and len = 2048, consumes 3, case_names parse wait closed])
    case (parse err0 err c1)
    have o: "frame_outcome c1 buf (Inr (ret, c', buf', len'))"
      using receive_frame_outcome [OF parse(3) buf] parse(6) r by simp
    then have "frame_buf_pos c' + 6 \<le> frame_buf_pos c1 \<and> 0 \<le> frame_buf_pos c' \<and>
        tls_connection c' = tls_connection c1 \<and> length (frame_buf c') = 8193"
      using more by (auto simp: frame_outcome_def return_codes buf_only_def)
    moreover have "length (frame_buf c1) = 8193" "frame_buf_pos c1 \<le> 8192"
      using parse(3) by (simp_all add: filled_def)
    ultimately have "length (stream pending c') < length (stream pending c1)"
      by (simp add: stream_def) linarith
    then show ?thesis using parse(5) [OF api(2)] by simp
  next
    case (wait c1)
    then show ?thesis using r more by (simp add: return_codes)
  next
    case (closed ret1 c1)
    then show ?thesis using r more by (auto simp: return_codes)
  qed
next
  case False
  from Receive_handshaking [OF api(1) c fd False, of buf 2048 pending "\<lambda>_. []"] r more api(2)
  obtain n where "4 \<le> n" "n \<le> length (stream pending c)" "stream pending c' = drop n (stream pending c)"
    by (auto simp: return_codes)
  then show ?thesis by simp
qed

text \<open>What the message loop relies on after a call that it goes on from.\<close>

lemma Receive_continues:
  assumes api: "ssl_read_ok api" and c: "client_ok c" and fd: "fd_ok c" and buf: "length buf = 2048"
    and r: "Receive api c buf 2048 = Inr (ret, c', buf', len')"
  shows "same_conn c c' \<and> bufs_ok c' \<and> length buf' = 2048 \<and> (0 \<le> ret \<longrightarrow> client_ok c') \<and>
    (ret \<in> {READ_SUCCEED, READ_SUCCEED_DATA_AVAILABLE} \<longrightarrow> delivered buf' len')"
proof (cases "handshaked c")
  case True
  have "buf_only c c' \<Longrightarrow> bufs_ok c'" using c by (simp add: buf_only_def client_ok_def bufs_ok_def)
  with Receive_open [OF api c True buf] r buf show ?thesis
    by (auto simp: same_conn_def buf_only_def delivered_def return_codes split: if_splits)
next
  case False
  from Receive_handshaking [OF api c fd False, of buf 2048 "\<lambda>_. []" "\<lambda>_. []"] r buf show ?thesis
    by (auto simp: same_conn_def conn_only_def return_codes)
qed

section \<open>What a client is sent while it is served\<close>

lemma drop_frame_tls:
  "drop_frame n c = Inr c' \<Longrightarrow> tls_connection c' = tls_connection c \<and> handshaked c' = handshaked c"
  by (auto simp: drop_frame_def Let_def bind_r_eq_Inr)

lemma text_frame_tls:
  "text_frame r buf len c = Inr (ret, c', buf', len') \<Longrightarrow>
   tls_connection c' = tls_connection c \<and> handshaked c' = handshaked c"
  by (auto simp: text_frame_def bind_r_eq_Inr dest: drop_frame_tls split: option.splits if_splits)

lemma receive_frame_tls:
  assumes "receive_frame buf len c = Inr (ret, c', buf', len')"
  shows "tls_connection c' = tls_connection c \<and> handshaked c' = handshaked c"
  using assms
  by (auto simp: receive_frame_def Let_def bind_r_eq_Inr dest: text_frame_tls split: if_splits)

lemma read_more_handshaked: "read_more api c = Inr (ret, err, c') \<Longrightarrow> handshaked c' = handshaked c"
  by (auto simp: read_more_def Let_def bind_r_eq_Inr split: prod.splits if_splits)

lemma Receive_talks:
  assumes "ssl_read_ok api" and "ssl_write_ok api sent" and "client_ok c" and "fd_ok c"
    and r: "Receive api c buf 2048 = Inr (ret, c', buf', len')" and "0 \<le> ret"
  shows "talks sent c c'" and "ret \<in> {READ_SUCCEED, READ_SUCCEED_DATA_AVAILABLE} \<Longrightarrow> handshaked c'"
proof -
  have "talks sent c c' \<and> (ret \<in> {READ_SUCCEED, READ_SUCCEED_DATA_AVAILABLE} \<longrightarrow> handshaked c')"
  proof (cases "handshaked c")
    case True
    then obtain ret1 err c1 where m: "read_more api c = Inr (ret1, err, c1)"
      and c': "tls_connection c' = tls_connection c1 \<and> handshaked c' = handshaked c1"
      using r by (auto simp: Receive_def bind_r_eq_Inr dest: receive_frame_tls split: if_splits)
    with True read_more_sent [OF assms(2) m] read_more_handshaked [OF m] show ?thesis by (simp add: talks_def)
  next
    case False
    from Receive_handshaking [OF assms(1,3,4) False, of buf 2048 "\<lambda>_. []" sent] r assms(2,6) show ?thesis
      by (auto simp: return_codes)
  qed
  then show "talks sent c c'" and "ret \<in> {READ_SUCCEED, READ_SUCCEED_DATA_AVAILABLE} \<Longrightarrow> handshaked c'"
    by simp_all
qed

end
