(* ===== verification/Connection_Props.thy ===== *)
theory Connection_Props
  imports Connection_Handshake
begin

text \<open>
  The properties of a connection, with a small TLS peer for their witnesses: a queue of chunks
  the peer has sent, the bytes sent to it, and a number of rounds in which its socket is not
  writable.
\<close>

section \<open>Closing\<close>

lemma CloseSocket_sent:
  assumes "ssl_write_ok api sent"
  shows "sent (tls_connection (CloseSocket api c)) = sent (tls_connection c)"
    and "socket (CloseSocket api c) = (if 0 < socket c then -1 else socket c)"
    and "CloseSocket api c = c\<lparr>tls_connection := tls_connection (CloseSocket api c),
      socket := socket (CloseSocket api c)\<rparr>"
proof -
  obtain r1 s1 where 1: "SSL_shutdown api (tls_connection c) = (r1, s1)" by (metis prod.exhaust)
  obtain r2 s2 where 2: "SSL_shutdown api s1 = (r2, s2)" by (metis prod.exhaust)
  have "sent s1 = sent (tls_connection c)" "sent s2 = sent s1"
    using assms 1 2 unfolding ssl_write_ok_def by blast+
  then show "sent (tls_connection (CloseSocket api c)) = sent (tls_connection c)"
    by (simp add: CloseSocket_def 1 2 Let_def)
  show "socket (CloseSocket api c) = (if 0 < socket c then -1 else socket c)"
    "CloseSocket api c = c\<lparr>tls_connection := tls_connection (CloseSocket api c),
      socket := socket (CloseSocket api c)\<rparr>"
    by (simp_all add: CloseSocket_def 1 2 Let_def)
qed

text \<open>What \<open>Send\<close> puts on the wire.\<close>

lemma Send_outcome:
  assumes "ssl_write_ok api sent" and "bufs_ok c" and "length message < 2 ^ 31"
    and "Send api c message = Inr (r, c')"
  shows "bufs_ok c' \<and> frame_buf c' = frame_buf c \<and> frame_buf_pos c' = frame_buf_pos c \<and>
    (if 15996 < length message
     then r = -10 \<and> tls_connection c' = tls_connection c
     else r \<in> {0, -1} \<and> sent (tls_connection c') = sent (tls_connection c) @
       (if r = 0 then rfc_server_frame (frame_code WS_TEXT_FRAME) message else []))"
proof (cases "15996 < length message")
  case True
  with Send_steps [OF assms(2,3), of api] assms(2,4) show ?thesis by (auto simp: bufs_ok_def)
next
  case False
  with Send_steps [OF assms(2,3), of api] assms(4) obtain sb where
    sf: "SendFrame api (c\<lparr>send_buf := sb\<rparr>) (rfc_server_frame (frame_code WS_TEXT_FRAME) message) = Inr (r, c')"
    and sb: "length sb = 16001" by auto
  note o = SendFrame_outcome [OF assms(1) sf]
  then have e: "c' = c\<lparr>send_buf := sb, tls_connection := tls_connection c'\<rparr>" by simp
  have "bufs_ok c'" "frame_buf c' = frame_buf c" "frame_buf_pos c' = frame_buf_pos c"
    using sb assms(2) by (subst e; simp add: bufs_ok_def)+
  with o False show ?thesis by simp
qed

lemma Send_returns:
  assumes "turns_end api rank" and "bufs_ok c" and "fd_ok c" and "length message < 2 ^ 31"
  shows "\<exists>r c'. Send api c message = Inr (r, c')"
proof (cases "15996 < length message")
  case True
  with Send_steps [OF assms(2,4), of api] show ?thesis by auto
next
  case False
  with Send_steps [OF assms(2,4), of api] obtain sb where s: "Send api c message =
      SendFrame api (c\<lparr>send_buf := sb\<rparr>) (rfc_server_frame (frame_code WS_TEXT_FRAME) message)" by auto
  obtain ret tls where "send_loop api (rfc_server_frame (frame_code WS_TEXT_FRAME) message) SSL_ERROR_WANT_WRITE
      (tls_connection c) = Some (ret, tls)"
    using send_loop_returns [OF assms(1)] by (metis prod.exhaust)
  moreover have "fd_set_ok (socket c) = Inr ()" using assms(3) by (simp add: fd_ok_def fd_set_ok_range)
  ultimately show ?thesis by (simp add: s SendFrame_def)
qed

definition closing_frame :: "byte list" where
  "closing_frame = rfc_server_frame (frame_code WS_CLOSING_FRAME) []"

lemma closing_frame_bytes: "closing_frame = [0x88, 0]"
  by (simp add: closing_frame_def rfc_server_frame_def rfc_length_field_def)

lemma Disconnect_returns:
  assumes "turns_end api rank" and "bufs_ok c" and "fd_ok c"
  shows "\<exists>c'. Disconnect api c = Inr c'"
proof -
  obtain ret s where "send_loop api closing_frame SSL_ERROR_WANT_WRITE (tls_connection c) = Some (ret, s)"
    using send_loop_returns [OF assms(1)] by (metis prod.exhaust)
  moreover have "fd_set_ok (socket c) = Inr ()" using assms(3) by (simp add: fd_ok_def fd_set_ok_range)
  ultimately show ?thesis
    using assms(2) wsMakeFrame_closing [of "send_buf c"]
    by (simp add: Disconnect_def bufs_ok_def SEND_BUF_LEN_def mem_ok closing_frame_bytes SendFrame_def)
qed

lemma Disconnect_outcome:
  assumes api: "ssl_write_ok api sent" and c: "bufs_ok c" and fd: "fd_ok c"
  shows "case Disconnect api c of
      Inl x \<Rightarrow> x = NoReturn
    | Inr c' \<Rightarrow> socket c' \<le> 0 \<and> cl_id c' = cl_id c \<and> handshaked c' = handshaked c \<and> bufs_ok c' \<and>
        (sent (tls_connection c') = sent (tls_connection c) @ closing_frame \<or>
         sent (tls_connection c') = sent (tls_connection c))"
proof -
  let ?c = "c\<lparr>send_buf := 0x88 # 0 # drop 2 (send_buf c)\<rparr>"
  have step: "Disconnect api c = bind_r (SendFrame api ?c closing_frame)
      (\<lambda>(ret, c2). Inr (CloseSocket api c2))"
    using c wsMakeFrame_closing [of "send_buf c"]
    by (simp add: Disconnect_def bufs_ok_def SEND_BUF_LEN_def mem_ok closing_frame_bytes bind_r_assoc
        case_prod_unfold)
  have b: "bufs_ok (?c\<lparr>tls_connection := s\<rparr>)" for s using c by (simp add: bufs_ok_def)
  have "fd_ok ?c" using fd by (simp add: fd_ok_def)
  from SendFrame_cases [OF this, of api closing_frame]
  consider "SendFrame api ?c closing_frame = Inl NoReturn"
    | r s where "SendFrame api ?c closing_frame = Inr (r, ?c\<lparr>tls_connection := s\<rparr>)" "r \<in> {0, -1}"
    by blast
  then show ?thesis
  proof cases
    case 1
    then show ?thesis by (simp add: step)
  next
    case (2 r s)
    let ?d = "?c\<lparr>tls_connection := s\<rparr>"
    note close = CloseSocket_sent [OF api, of ?d]
    have "cl_id (CloseSocket api ?d) = cl_id c" "handshaked (CloseSocket api ?d) = handshaked c"
      "bufs_ok (CloseSocket api ?d)"
      using b [of s] by (subst close(3); simp add: bufs_ok_def)+
    then show ?thesis
      using SendFrame_outcome [OF api 2(1)] close(1,2) by (simp add: step 2(1))
  qed
qed

section \<open>A peer for the witnesses\<close>

record peer =
  chunks :: "byte list list"
  wire :: "byte list"
  busy :: nat

definition queue_tls :: "peer tls_api" where
  "queue_tls = \<lparr>
     SSL_read = (\<lambda>s n. case chunks s of
         [] \<Rightarrow> ((-1, [], SSL_ERROR_WANT_READ), s)
       | ck # cks \<Rightarrow>
           if ck \<noteq> [] \<and> int (length ck) \<le> n
           then ((int (length ck), ck, SSL_ERROR_NONE), s\<lparr>chunks := cks\<rparr>)
           else ((-1, [], SSL_ERROR_WANT_READ), s)),
     SSL_write = (\<lambda>s bytes. ((int (length bytes), if bytes = [] then SSL_ERROR_OTHER else SSL_ERROR_NONE),
       s\<lparr>wire := wire s @ bytes\<rparr>)),
     SSL_shutdown = (\<lambda>s. (1, s)),
     select_rw = (\<lambda>s. ((True, busy s = 0), s\<lparr>busy := busy s - 1\<rparr>))\<rparr>"

lemma queue_tls_ok:
  "ssl_read_ok queue_tls"
  "ssl_stream_ok queue_tls (\<lambda>s. concat (chunks s))"
  "ssl_write_ok queue_tls wire"
  "turns_end queue_tls busy"
  by (auto simp: ssl_read_ok_def ssl_stream_ok_def ssl_write_ok_def turns_end_def queue_tls_def
      send_turn_def split: list.splits if_splits)

text \<open>A client on descriptor 5 whose peer has sent the given chunks.\<close>

definition sample_client :: "bool \<Rightarrow> byte list list \<Rightarrow> peer client" where
  "sample_client hs cks = \<lparr>cl_id = 0, socket = 5, last_error = 0, frame_buf = replicate 8193 0,
     send_buf = replicate 16001 0, frame_buf_pos = 0, handshaked = hs,
     tls_connection = \<lparr>chunks = cks, wire = [], busy = 2\<rparr>\<rparr>"

lemma sample_client_fields [simp]:
  "handshaked (sample_client hs cks) = hs"
  "tls_connection (sample_client hs cks) = \<lparr>chunks = cks, wire = [], busy = 2\<rparr>"
  "frame_buf_pos (sample_client hs cks) = 0"
  "stream pending (sample_client hs cks) = pending \<lparr>chunks = cks, wire = [], busy = 2\<rparr>"
  by (simp_all add: sample_client_def stream_def)

lemma sample_client_ok: "client_ok (sample_client hs cks)" "fd_ok (sample_client hs cks)"
  "bufs_ok (sample_client hs cks)"
  by (simp_all add: sample_client_def client_ok_def bufs_ok_def fd_ok_def BUF_LEN_def del: replicate.simps)

lemma length_receive_buffer: "length (replicate 2048 (0 :: byte)) = 2048"
  by (rule length_replicate)

section \<open>Properties\<close>

text \<open>
  C15: Whatever bytes the peer sends, \<open>Receive\<close> keeps the invariant of the client or stops at one
  of the faults the parsers have: an assertion or an access out of bounds on a frame whose
  header has not arrived completely, an assertion or a heap overflow in the handshake, or a
  send that never gets through. When it returns a code of 0 or more the buffers have their
  sizes and the position leaves room for the next read; it never changes the identity or the
  socket of the client, and a delivered message is a terminated string that fits.
\<close>

theorem Receive_keeps_client_ok:
  assumes "ssl_read_ok api" and "client_ok c" and "fd_ok c" and "length buf = 2048"
  shows "case Receive api c buf 2048 of
      Inl x \<Rightarrow>
        (if handshaked c then x \<in> {AssertFail, OutOfBounds} \<and>
           (\<exists>ret err c1. read_more api c = Inr (ret, err, c1) \<and>
              nat (frame_buf_pos c1) < header_size (frame_buf c1))
         else x \<in> {AssertFail, HeapOverflow, NoReturn})
    | Inr (ret, c', buf', len') \<Rightarrow> conn_only c c' \<and> (0 \<le> ret \<longrightarrow> client_ok c') \<and>
        (ret \<in> {READ_SUCCEED, READ_SUCCEED_DATA_AVAILABLE} \<longrightarrow> delivered buf' len')"
proof (cases "handshaked c")
  case True
  have conn: "buf_only c c' \<Longrightarrow> conn_only c c'" for c'
    using assms(2) by (simp add: buf_only_def conn_only_def client_ok_def bufs_ok_def)
  from Receive_open [OF assms(1,2) True assms(4)] show ?thesis
    using True conn by (auto simp: return_codes split: sum.splits if_splits)
next
  case False
  from Receive_handshaking [OF assms(1-3) False, of buf 2048 "\<lambda>_. []" "\<lambda>_. []"] show ?thesis
    using False by (auto simp: return_codes split: sum.splits)
qed

theorem Receive_keeps_client_ok_witness:
  "case Receive queue_tls (sample_client True [[0x81]]) (replicate 2048 0) 2048 of
      Inl x \<Rightarrow> x = AssertFail \<or> x = OutOfBounds
    | Inr (ret, c', buf', len') \<Rightarrow> 0 \<le> ret \<longrightarrow> client_ok c'"
  using Receive_keeps_client_ok [OF queue_tls_ok(1) sample_client_ok(1,2) length_receive_buffer, of True "[[0x81]]"]
  by (auto split: sum.splits)


definition sample_frame :: "byte list" where
  "sample_frame = rfc_client_frame (frame_code WS_TEXT_FRAME) [1, 2, 3, 4] (bytes_of ''add /var/log/a'')"



definition sample_request :: "byte list" where
  "sample_request = render_request (bytes_of ''/'') (bytes_of ''HTTP/1.1'') sample_lines"


text \<open>
  C25: Sending is exact: a message of at most 15996 bytes puts exactly its RFC 6455 text frame on
  the wire when the call returns 0, and nothing when it returns -1; a longer message is refused
  with -10 and nothing is sent. The receive side of the client is not touched.
\<close>

theorem Send_exact:
  assumes "ssl_write_ok api sent" and "bufs_ok c" and "length message < 2 ^ 31"
    and "Send api c message = Inr (r, c')"
  shows "bufs_ok c' \<and> frame_buf c' = frame_buf c \<and> frame_buf_pos c' = frame_buf_pos c \<and>
    (if 15996 < length message
     then r = -10 \<and> tls_connection c' = tls_connection c
     else r \<in> {0, -1} \<and> sent (tls_connection c') = sent (tls_connection c) @
       (if r = 0 then rfc_server_frame (frame_code WS_TEXT_FRAME) message else []))"
  using assms by (rule Send_outcome)

theorem Send_exact_witness:
  "\<exists>c'. Send queue_tls (sample_client True []) (bytes_of ''hi'') = Inr (0, c') \<and>
    wire (tls_connection c') = [0x81, 2, 0x68, 0x69]"
proof -
  obtain r c' where s: "Send queue_tls (sample_client True []) (bytes_of ''hi'') = Inr (r, c')" "r = 0"
  proof -
    obtain sb where "Send queue_tls (sample_client True []) (bytes_of ''hi'') =
        SendFrame queue_tls ((sample_client True [])\<lparr>send_buf := sb\<rparr>)
          (rfc_server_frame (frame_code WS_TEXT_FRAME) (bytes_of ''hi''))"
      using Send_steps [OF sample_client_ok(3), of "bytes_of ''hi''" queue_tls] by auto
    moreover have "send_loop queue_tls (rfc_server_frame 1 (bytes_of ''hi'')) SSL_ERROR_WANT_WRITE
        \<lparr>chunks = [], wire = [], busy = 2\<rparr> =
        Some (4, \<lparr>chunks = [], wire = rfc_server_frame 1 (bytes_of ''hi''), busy = 0\<rparr>)"
      by (simp add: send_loop.simps queue_tls_def rfc_server_frame_def rfc_length_field_def)
    ultimately show thesis
      by (intro that) (simp_all add: SendFrame_def fd_set_ok_def sample_client_def FD_SETSIZE_def
          del: replicate.simps)
  qed
  then show ?thesis
    using Send_exact [OF queue_tls_ok(3) sample_client_ok(3) _ s(1)]
    by (simp add: rfc_server_frame_def rfc_length_field_def)
qed



text \<open>
  Disconnecting closes: on such a connection \<open>Disconnect\<close> returns with the socket closed,
  keeps the identity of the client, and the last bytes sent to the peer are the closing frame
  of RFC 6455, unless the send failed.
\<close>

theorem Disconnect_closes:
  assumes "ssl_write_ok api sent" and "turns_end api rank" and "bufs_ok c" and "fd_ok c"
  shows "\<exists>c'. Disconnect api c = Inr c' \<and> socket c' \<le> 0 \<and> cl_id c' = cl_id c \<and>
    (sent (tls_connection c') = sent (tls_connection c) @ [0x88, 0] \<or>
     sent (tls_connection c') = sent (tls_connection c))"
proof -
  obtain c' where "Disconnect api c = Inr c'" using Disconnect_returns [OF assms(2,3,4)] by blast
  then show ?thesis
    using Disconnect_outcome [OF assms(1,3,4)] by (auto simp: closing_frame_bytes)
qed

theorem Disconnect_closes_witness:
  "\<exists>c'. Disconnect queue_tls (sample_client True []) = Inr c' \<and> socket c' \<le> 0"
  using Disconnect_closes [OF queue_tls_ok(3,4) sample_client_ok(3,2), of True "[]"] by blast

end
