(* ===== verification/Client_Map.thy ===== *)
theory Client_Map
  imports Prelude
begin

text \<open>
  The map from client ids to clients, a \<^verbatim>\<open>std::map<int,Client>\<close>: its interface as the server uses
  it (find, insert or assign, erase, and the entries in the order of an iteration) with the
  laws of the C++ standard library, what follows from them, and sorted association lists as
  the model that satisfies them.
\<close>

section \<open>The interface\<close>

locale int_map =
  fixes find :: "'m \<Rightarrow> int \<Rightarrow> 'v option"
    and put :: "'m \<Rightarrow> int \<Rightarrow> 'v \<Rightarrow> 'm"
    and erase :: "'m \<Rightarrow> int \<Rightarrow> 'm"
    and entries :: "'m \<Rightarrow> (int \<times> 'v) list"
    and ok :: "'m \<Rightarrow> bool"
  assumes find_put: "ok m \<Longrightarrow> find (put m k v) = (find m)(k \<mapsto> v)"
    and ok_put: "ok m \<Longrightarrow> ok (put m k v)"
    and find_erase: "ok m \<Longrightarrow> find (erase m k) = (find m)(k := None)"
    and ok_erase: "ok m \<Longrightarrow> ok (erase m k)"
    and entries_find: "ok m \<Longrightarrow> map_of (entries m) = find m"
    and entries_ordered: "ok m \<Longrightarrow> sorted_wrt (<) (map fst (entries m))"
begin

lemma distinct_keys: "ok m \<Longrightarrow> distinct (map fst (entries m))"
  using entries_ordered strict_sorted_iff by blast

lemma keys_find: "ok m \<Longrightarrow> fst ` set (entries m) = dom (find m)"
  using entries_find dom_map_of_conv_image_fst by metis

lemma size_dom: "ok m \<Longrightarrow> length (entries m) = card (dom (find m))"
  using distinct_card [OF distinct_keys [of m]] keys_find [of m] by simp

text \<open>The size after an insertion, from which the server decides to wake the listener.\<close>

lemma size_put:
  assumes "ok m"
  shows "length (entries (put m k v)) =
    (if find m k = None then Suc (length (entries m)) else length (entries m))"
proof -
  have "finite (dom (find m))" using keys_find [OF assms] finite_imageI [of "set (entries m)" fst] by simp
  then show ?thesis
    using size_dom [OF ok_put [OF assms]] size_dom [OF assms] find_put [OF assms]
    by (auto simp: card_insert_if domIff)
qed

lemma size_put_one: "ok m \<Longrightarrow> find m k = None \<Longrightarrow>
    length (entries (put m k v)) = 1 \<longleftrightarrow> entries m = []"
  by (simp add: size_put)

text \<open>Among the first \<open>n + 1\<close> ids from any start one is free when \<open>n\<close> are in use.\<close>

lemma free_id:
  assumes "ok m"
  shows "\<exists>i \<le> length (entries m). find m (a + int i) = None"
proof (rule ccontr)
  let ?n = "length (entries m)"
  assume "\<not> (\<exists>i \<le> ?n. find m (a + int i) = None)"
  then have "(\<lambda>i. a + int i) ` {..?n} \<subseteq> fst ` set (entries m)"
    using keys_find [OF assms] by fastforce
  moreover have "inj_on (\<lambda>i. a + int i) {..?n}" by (auto simp: inj_on_def)
  ultimately have "card {..?n} \<le> card (fst ` set (entries m))"
    by (metis List.finite_set card_image card_mono finite_imageI)
  also have "\<dots> \<le> ?n" by (metis card_length length_map set_map)
  finally show False by simp
qed

end

section \<open>Sorted association lists\<close>

type_synonym 'v id_map = "(int \<times> 'v) list"

definition map_find :: "'v id_map \<Rightarrow> int \<Rightarrow> 'v option" where
  "map_find m k = map_of m k"

fun map_put :: "'v id_map \<Rightarrow> int \<Rightarrow> 'v \<Rightarrow> 'v id_map" where
  "map_put [] k v = [(k, v)]"
| "map_put (e # m) k v =
     (if fst e < k then e # map_put m k v else (k, v) # (if fst e = k then m else e # m))"

definition map_erase :: "'v id_map \<Rightarrow> int \<Rightarrow> 'v id_map" where
  "map_erase m k = filter (\<lambda>e. fst e \<noteq> k) m"

definition map_ok :: "'v id_map \<Rightarrow> bool" where
  "map_ok m \<longleftrightarrow> sorted_wrt (<) (map fst m)"

lemma map_put_keys: "fst ` set (map_put m k v) = insert k (fst ` set m)"
  by (induction m k v rule: map_put.induct) auto

lemma map_ok_Cons: "map_ok (e # m) \<longleftrightarrow> (\<forall>e' \<in> set m. fst e < fst e') \<and> map_ok m"
  by (auto simp: map_ok_def)

lemma map_ok_put: "map_ok m \<Longrightarrow> map_ok (map_put m k v)"
proof (induction m k v rule: map_put.induct)
  case (2 e m k v)
  have "\<forall>e' \<in> set (map_put m k v). fst e < fst e'" if "fst e < k"
    using 2(2) that map_put_keys [of m k v] by (force simp: map_ok_Cons)
  with 2 show ?case by (fastforce simp: map_ok_Cons)
qed (simp add: map_ok_def)

lemma map_find_put: "map_ok m \<Longrightarrow> map_find (map_put m k v) = (map_find m)(k \<mapsto> v)"
proof (induction m k v rule: map_put.induct)
  case (2 e m k v)
  then show ?case
    by (cases e) (auto simp: map_find_def map_ok_Cons fun_eq_iff)
qed (auto simp: map_find_def)

interpretation cm: int_map map_find map_put map_erase "\<lambda>m. m" map_ok
proof
  fix m :: "'v id_map" and k v
  assume ok: "map_ok m"
  show "map_find (map_put m k v) = (map_find m)(k \<mapsto> v)" using ok by (rule map_find_put)
  show "map_ok (map_put m k v)" using ok by (rule map_ok_put)
  show "map_find (map_erase m k) = (map_find m)(k := None)"
    by (induction m) (auto simp: map_find_def map_erase_def fun_eq_iff)
  show "map_ok (map_erase m k)"
    using ok by (simp add: map_erase_def map_ok_def sorted_wrt_map sorted_wrt_filter)
  show "map_of m = map_find m" by (simp add: map_find_def fun_eq_iff)
  show "sorted_wrt (<) (map fst m)" using ok by (simp add: map_ok_def)
qed

end
