(* ===== verification/Server.thy ===== *)
theory Server
  imports Connection Client_Map
begin

text \<open>
  The web-socket server, the class \<open>WebSocketServer\<close> of \<^verbatim>\<open>web_socket_server.cpp\<close>: its state, the
  ids of clients, accepting connections and serving messages. The two virtual handlers
  \<open>OnMessage\<close> and \<open>OnDisconnect\<close> are the record \<open>ws_handlers\<close>, which the log server provides.
  The body of each thread's loop is a function on the state; the mutex and the condition
  variable around it are the subject of theory Threads.
\<close>

section \<open>State\<close>

definition INT_MAX :: int where
  "INT_MAX = 2147483647"

text \<open>The message buffer of this file, where \<^verbatim>\<open>BUF_LEN\<close> is defined anew.\<close>

definition MSG_BUF_LEN :: int where
  "MSG_BUF_LEN = 2048"

record 's server =
  port :: int
  max_queue_len :: int
  server_socket :: int
  id_counter :: int
  srv_last_error :: int
  connection_listener :: int
  message_listener :: int
  certificate_file :: string
  private_key_file :: string
  stop :: bool
  clients :: "'s client id_map"

text \<open>The constructor; the members it leaves unset keep the contents of the given object.\<close>

definition WebSocketServer ::
  "int \<Rightarrow> int \<Rightarrow> string \<Rightarrow> string \<Rightarrow> 's server \<Rightarrow> 's server" where
  "WebSocketServer port' max_queue_len' cert pkey srv = srv\<lparr>
     port := port', max_queue_len := max_queue_len', connection_listener := -1,
     message_listener := -1, id_counter := 0, certificate_file := cert, private_key_file := pkey,
     clients := []\<rparr>"

text \<open>What \<^verbatim>\<open>socket\<close>, \<^verbatim>\<open>bind\<close>, \<^verbatim>\<open>listen\<close> and \<^verbatim>\<open>errno\<close> give.\<close>

record listen_calls =
  lc_socket :: int
  lc_bind :: int
  lc_listen :: int
  lc_errno :: int

definition ListenSocket :: "listen_calls \<Rightarrow> 's server \<Rightarrow> int \<times> 's server" where
  "ListenSocket calls srv =
     (let srv1 = srv\<lparr>server_socket := lc_socket calls\<rparr> in
      if lc_bind calls = -1 then (-1, srv1\<lparr>srv_last_error := lc_errno calls\<rparr>)
      else if lc_listen calls = -1 then (-1, srv1\<lparr>srv_last_error := lc_errno calls\<rparr>)
      else (0, srv1))"

text \<open>Whether \<^verbatim>\<open>SSL_CTX_new\<close> gives a context, and what the three configuration calls return.\<close>

record ssl_ctx_calls =
  sc_new :: bool
  sc_cipher_list :: int
  sc_certificate :: int
  sc_private_key :: int

definition InitSSL :: "ssl_ctx_calls \<Rightarrow> int" where
  "InitSSL calls =
     (if \<not> sc_new calls then -1
      else if sc_cipher_list calls = 0 then -2
      else if sc_certificate calls \<noteq> 1 then -3
      else if sc_private_key calls \<noteq> 1 then -4
      else 0)"

section \<open>Client ids\<close>

text \<open>The search loop from offset \<open>i\<close> on: the id found, or none after \<^verbatim>\<open>INT_MAX\<close> offsets.\<close>

function id_loop :: "'v id_map \<Rightarrow> int \<Rightarrow> int \<Rightarrow> int option result" where
  "id_loop m counter i =
     (if i < INT_MAX then
        if counter + i > INT_MAX then Inl SignedOverflow
        else if map_find m (counter + i) = None then Inr (Some (counter + i))
        else id_loop m counter (i + 1)
      else Inr None)"
  by pat_completeness auto
termination
  by (relation "measure (\<lambda>(m, c, i). nat (INT_MAX - i))") auto

declare id_loop.simps [simp del]

definition GenerateID :: "'s server \<Rightarrow> (int \<times> 's server) result" where
  "GenerateID srv =
     bind_r (id_loop (clients srv) (id_counter srv) 0) (\<lambda>found.
     case found of
       None \<Rightarrow> Inr (-1, srv)
     | Some new_id \<Rightarrow> Inr (new_id, srv\<lparr>id_counter := new_id\<rparr>))"

definition get_client :: "'s server \<Rightarrow> int \<Rightarrow> 's client option" where
  "get_client srv i = map_find (clients srv) i"

section \<open>Accepting connections\<close>

text \<open>
  What one turn of the accept loop meets: the memory of the new object, the calls of \<open>Accept\<close>,
  and the result and \<^verbatim>\<open>errno\<close> of \<^verbatim>\<open>fcntl\<close>.
\<close>

record 's arrival =
  ar_memory :: "'s client"
  ar_accept :: "'s accept_calls"
  ar_fcntl :: int
  ar_errno :: int

text \<open>
  The body of the accept loop: whether the condition variable is signalled, the object that is
  dropped when the client does not enter the map, and the new state. The result of
  \<open>SetNonBlocking\<close> is ignored.
\<close>

definition accept_step ::
  "'s tls_api \<Rightarrow> 's arrival \<Rightarrow> 's server \<Rightarrow> (bool \<times> 's client option \<times> 's server) result" where
  "accept_step api ar srv =
     (let (ret, new_client) = Accept (ar_accept ar) (Client (ar_memory ar)) in
      if ret = 0 then
        let new_client1 = snd (SetNonBlocking api (ar_fcntl ar) (ar_errno ar) new_client) in
        bind_r (GenerateID srv) (\<lambda>(i, srv1).
        if i \<ge> 0 then
          let srv2 = srv1\<lparr>clients := map_put (clients srv1) i (set_id new_client1 i)\<rparr> in
          Inr (length (clients srv2) = 1, None, srv2)
        else Inr (False, Some (CloseSocket api new_client1), srv1))
      else Inr (False, Some new_client, srv))"

text \<open>The loop until \<^verbatim>\<open>stop\<close> is seen, over the arrivals it meets.\<close>

primrec accept_loop ::
  "'s tls_api \<Rightarrow> 's arrival list \<Rightarrow> 's server \<Rightarrow> 's server result" where
  "accept_loop api [] srv = Inr srv"
| "accept_loop api (ar # ars) srv =
     bind_r (accept_step api ar srv) (\<lambda>(signalled, dropped, srv1). accept_loop api ars srv1)"

primrec disconnect_all :: "'s tls_api \<Rightarrow> 's client id_map \<Rightarrow> 's client id_map result" where
  "disconnect_all api [] = Inr []"
| "disconnect_all api (e # es) =
     bind_r (Disconnect api (snd e)) (\<lambda>c. bind_r (disconnect_all api es) (\<lambda>es'. Inr ((fst e, c) # es')))"

definition ListenConnections ::
  "'s tls_api \<Rightarrow> ssl_ctx_calls \<Rightarrow> listen_calls \<Rightarrow> 's arrival list \<Rightarrow> 's server \<Rightarrow> 's server result" where
  "ListenConnections api ssl sock ars srv =
     (if InitSSL ssl < 0 then Inr srv
      else
        let (ret, srv1) = ListenSocket sock srv in
        if ret < 0 then Inr srv1
        else
          bind_r (accept_loop api ars srv1) (\<lambda>srv2.
          bind_r (disconnect_all api (clients srv2)) (\<lambda>_.
          Inr (srv2\<lparr>clients := []\<rparr>))))"

section \<open>Serving messages\<close>

record ('a, 's) ws_handlers =
  on_message :: "'a \<Rightarrow> 's client \<Rightarrow> byte list \<Rightarrow> int \<Rightarrow> ('a \<times> 's client) result"
  on_disconnect :: "'a \<Rightarrow> 's client \<Rightarrow> ('a \<times> 's client) result"

text \<open>One turn of the loop over a ready client, after \<open>Receive\<close> has returned.\<close>

definition dispatch ::
  "'s tls_api \<Rightarrow> ('a, 's) ws_handlers \<Rightarrow> int \<Rightarrow> 's client \<Rightarrow> byte list \<Rightarrow> int \<Rightarrow> 'a \<Rightarrow> ('a \<times> 's client) result" where
  "dispatch api app ret c data_buf data_len a =
     (if ret = READ_SUCCEED \<or> ret = READ_SUCCEED_DATA_AVAILABLE then on_message app a c data_buf data_len
      else if ret < 0 then bind_r (Disconnect api c) (\<lambda>c1. on_disconnect app a c1)
      else Inr (a, c))"

text \<open>
  The inner loop of \<open>ListenMessages\<close>: the last return code, the client, the buffer and the state
  of the handlers; \<open>None\<close> when the client keeps it going for ever.
\<close>

partial_function (option) recv_loop ::
  "'s tls_api \<Rightarrow> ('a, 's) ws_handlers \<Rightarrow> 's client \<Rightarrow> byte list \<Rightarrow> 'a \<Rightarrow>
   (int \<times> 's client \<times> byte list \<times> 'a) result option" where
  "recv_loop api app c data_buf a =
     (case Receive api c data_buf MSG_BUF_LEN of
        Inl x \<Rightarrow> Some (Inl x)
      | Inr (ret, c1, buf1, len1) \<Rightarrow>
          (case dispatch api app ret c1 buf1 len1 a of
             Inl x \<Rightarrow> Some (Inl x)
           | Inr (a1, c2) \<Rightarrow>
               if ret = READ_SUCCEED_DATA_AVAILABLE \<or> ret = HANDSHAKE_SUCCEED
               then recv_loop api app c2 buf1 a1
               else Some (Inr (ret, c2, buf1, a1))))"

definition serve_client ::
  "'s tls_api \<Rightarrow> ('a, 's) ws_handlers \<Rightarrow> (int \<Rightarrow> bool) \<Rightarrow> 's client \<Rightarrow> byte list \<Rightarrow> 'a \<Rightarrow>
   (int \<times> 's client \<times> byte list \<times> 'a) result" where
  "serve_client api app ready c data_buf a =
     bind_r (fd_set_ok (socket c)) (\<lambda>_.
     if ready (socket c) then
       case recv_loop api app c data_buf a of None \<Rightarrow> Inl NoReturn | Some r \<Rightarrow> r
     else Inr (0, c, data_buf, a))"

text \<open>The pass over the clients after \<^verbatim>\<open>select\<close>: a client with a negative code is erased.\<close>

primrec serve_clients ::
  "'s tls_api \<Rightarrow> ('a, 's) ws_handlers \<Rightarrow> (int \<Rightarrow> bool) \<Rightarrow> 's client id_map \<Rightarrow> byte list \<Rightarrow> 'a \<Rightarrow>
   ('s client id_map \<times> byte list \<times> 'a) result" where
  "serve_clients api app ready [] data_buf a = Inr ([], data_buf, a)"
| "serve_clients api app ready (e # es) data_buf a =
     bind_r (serve_client api app ready (snd e) data_buf a) (\<lambda>(ret, c, buf1, a1).
     bind_r (serve_clients api app ready es buf1 a1) (\<lambda>(es', buf2, a2).
     Inr (if ret \<ge> 0 then (fst e, c) # es' else es', buf2, a2)))"

text \<open>Filling the set for \<^verbatim>\<open>select\<close>: its first argument.\<close>

primrec fill_set :: "'s client id_map \<Rightarrow> int \<Rightarrow> int result" where
  "fill_set [] nfds = Inr (nfds + 1)"
| "fill_set (e # es) nfds =
     bind_r (fd_set_ok (socket (snd e))) (\<lambda>_.
     fill_set es (if socket (snd e) > nfds then socket (snd e) else nfds))"

text \<open>
  One turn of the thread: \<open>arrived\<close> is what the accept loop does to the state while the mutex is
  free, \<open>ready\<close> is what \<^verbatim>\<open>select\<close> leaves in the set; its return value is ignored.
\<close>

definition message_pass ::
  "'s tls_api \<Rightarrow> ('a, 's) ws_handlers \<Rightarrow> ('s server \<Rightarrow> 's server) \<Rightarrow> (int \<Rightarrow> bool) \<Rightarrow>
   's server \<Rightarrow> byte list \<Rightarrow> 'a \<Rightarrow> ('s server \<times> byte list \<times> 'a) result" where
  "message_pass api app arrived ready srv data_buf a =
     bind_r (fill_set (clients srv) (-1)) (\<lambda>nfds.
     let srv1 = arrived srv in
     bind_r (serve_clients api app ready (clients srv1) data_buf a) (\<lambda>(es, buf1, a1).
     Inr (srv1\<lparr>clients := es\<rparr>, buf1, a1)))"

section \<open>Starting and stopping\<close>

text \<open>The arguments are the results of the two \<^verbatim>\<open>pthread_create\<close>, the handles and \<^verbatim>\<open>errno\<close>.\<close>

definition Run :: "int \<times> int \<Rightarrow> int \<times> int \<Rightarrow> int \<Rightarrow> 's server \<Rightarrow> int \<times> 's server" where
  "Run create1 create2 errno srv =
     (let srv1 = srv\<lparr>stop := False, connection_listener := snd create1\<rparr> in
      if fst create1 < 0 then (-1, srv1\<lparr>srv_last_error := errno, connection_listener := -1\<rparr>)
      else
        let srv2 = srv1\<lparr>message_listener := snd create2\<rparr> in
        if fst create2 < 0 then
          (-2, srv2\<lparr>srv_last_error := errno, stop := True, connection_listener := -1,
                    message_listener := -1\<rparr>)
        else (0, srv2))"

text \<open>\<open>Stop\<close> with the threads it joins.\<close>

definition Stop :: "'s server \<Rightarrow> int list \<times> 's server" where
  "Stop srv =
     (if connection_listener srv \<noteq> -1 \<and> message_listener srv \<noteq> -1
      then [connection_listener srv, message_listener srv] else [], srv\<lparr>stop := True\<rparr>)"

end
