(* ===== verification/Server_Laws.thy ===== *)
theory Server_Laws
  imports Server Connection_Props
begin

text \<open>
  The laws of the server: fresh ids, the invariant of the map of clients, the termination of
  the message loop, and the interface \<open>ws_app\<close> between the server and its handlers, under which
  the messages of a client are handled in order and nothing the handlers keep for a client
  outlives it.
\<close>

section \<open>Ids\<close>

lemma id_loop_found:
  assumes "id_loop m counter i = Inr (Some k)" and "0 \<le> i"
  shows "counter + i \<le> k \<and> k \<le> INT_MAX \<and> map_find m k = None \<and>
    (\<forall>j. counter + i \<le> j \<and> j < k \<longrightarrow> map_find m j \<noteq> None)"
  using assms
proof (induction m counter i rule: id_loop.induct)
  case (1 m counter i)
  show ?case
  proof (cases "i < INT_MAX \<and> counter + i \<le> INT_MAX \<and> map_find m (counter + i) \<noteq> None")
    case True
    with "1.prems"(1) have "id_loop m counter (i + 1) = Inr (Some k)"
      by (subst (asm) id_loop.simps) simp
    with "1.IH" True "1.prems"(2) have IH: "counter + (i + 1) \<le> k \<and> k \<le> INT_MAX \<and> map_find m k = None \<and>
        (\<forall>j. counter + (i + 1) \<le> j \<and> j < k \<longrightarrow> map_find m j \<noteq> None)" by simp
    have "map_find m j \<noteq> None" if "counter + i \<le> j" "j < k" for j
      using IH True that by (cases "j = counter + i") auto
    with IH show ?thesis by auto
  next
    case False
    with "1.prems" show ?thesis
      by (subst (asm) id_loop.simps) (auto split: if_splits)
  qed
qed

lemma id_loop_fault:
  assumes "id_loop m counter i = Inl x"
  shows "x = SignedOverflow \<and> (\<forall>j. counter + i \<le> j \<and> j \<le> INT_MAX \<longrightarrow> map_find m j \<noteq> None)"
  using assms
proof (induction m counter i rule: id_loop.induct)
  case (1 m counter i)
  show ?case
  proof (cases "i < INT_MAX \<and> counter + i \<le> INT_MAX \<and> map_find m (counter + i) \<noteq> None")
    case True
    with "1.prems" have "id_loop m counter (i + 1) = Inl x"
      by (subst (asm) id_loop.simps) simp
    with "1.IH" True have IH: "x = SignedOverflow \<and>
        (\<forall>j. counter + (i + 1) \<le> j \<and> j \<le> INT_MAX \<longrightarrow> map_find m j \<noteq> None)" by simp
    have "map_find m j \<noteq> None" if "counter + i \<le> j" "j \<le> INT_MAX" for j
      using IH True that by (cases "j = counter + i") auto
    with IH show ?thesis by simp
  next
    case False
    with "1.prems" show ?thesis
      by (subst (asm) id_loop.simps) (auto split: if_splits)
  qed
qed

lemma id_loop_none:
  assumes "id_loop m counter i = Inr None" and "i \<le> j" and "j < INT_MAX"
  shows "map_find m (counter + j) \<noteq> None"
  using assms
proof (induction m counter i rule: id_loop.induct)
  case (1 m counter i)
  have here: "counter + i \<le> INT_MAX" "map_find m (counter + i) \<noteq> None"
    using "1.prems" id_loop.simps [of m counter i] by (auto split: if_splits)
  with "1.prems" have "id_loop m counter (i + 1) = Inr None"
    by (subst (asm) id_loop.simps) simp
  with "1.IH" "1.prems" here show ?case by (cases "j = i") auto
qed

lemma GenerateID_outcome:
  assumes "map_ok (clients srv)" and "0 \<le> id_counter srv" and "id_counter srv \<le> INT_MAX"
    and "int (length (clients srv)) < INT_MAX"
  shows "case GenerateID srv of
      Inl x \<Rightarrow> x = SignedOverflow \<and>
        (\<forall>j. id_counter srv \<le> j \<and> j \<le> INT_MAX \<longrightarrow> get_client srv j \<noteq> None)
    | Inr (k, srv') \<Rightarrow> srv' = srv\<lparr>id_counter := k\<rparr> \<and> get_client srv k = None \<and> k \<le> INT_MAX \<and>
        id_counter srv \<le> k \<and> k \<le> id_counter srv + int (length (clients srv)) \<and>
        (\<forall>j. id_counter srv \<le> j \<and> j < k \<longrightarrow> get_client srv j \<noteq> None)"
proof -
  obtain i where i: "i \<le> length (clients srv)" "get_client srv (id_counter srv + int i) = None"
    using cm.free_id [OF assms(1), of "id_counter srv"] by (auto simp: get_client_def)
  show ?thesis
  proof (cases "id_loop (clients srv) (id_counter srv) 0")
    case (Inl x)
    with id_loop_fault [OF Inl] show ?thesis by (simp add: GenerateID_def get_client_def)
  next
    case (Inr r)
    show ?thesis
    proof (cases r)
      case None
      with Inr i assms(4) have "get_client srv (id_counter srv + int i) \<noteq> None"
        using id_loop_none [of "clients srv" "id_counter srv" 0 "int i"] by (simp add: get_client_def)
      with i show ?thesis by simp
    next
      case (Some k)
      note f = id_loop_found [OF Inr [unfolded Some], simplified]
      have "k \<le> id_counter srv + int i"
        using f i(2) by (auto simp: get_client_def) (smt (verit) of_nat_0_le_iff option.distinct(1))
      with f i Inr Some show ?thesis by (auto simp: GenerateID_def get_client_def)
    qed
  qed
qed

section \<open>The invariant of the map\<close>

definition entry_ok :: "int \<times> 's client \<Rightarrow> bool" where
  "entry_ok e \<longleftrightarrow> cl_id (snd e) = fst e \<and> 0 \<le> fst e \<and> client_ok (snd e) \<and> fd_ok (snd e)"

definition clients_ok :: "'s client id_map \<Rightarrow> bool" where
  "clients_ok es \<longleftrightarrow> map_ok es \<and> (\<forall>e \<in> set es. entry_ok e)"

definition keys :: "'v id_map \<Rightarrow> int set" where
  "keys es = fst ` set es"

lemma clients_ok_Cons: "clients_ok (e # es) \<longleftrightarrow> (\<forall>e' \<in> set es. fst e < fst e') \<and> entry_ok e \<and> clients_ok es"
  by (auto simp: clients_ok_def map_ok_Cons)

lemma set_map_put: "set (map_put m k v) \<subseteq> insert (k, v) (set m)"
  by (induction m k v rule: map_put.induct) auto

lemma clients_ok_put:
  assumes "clients_ok es" and "entry_ok (k, c)"
  shows "clients_ok (map_put es k c)"
  using assms map_ok_put set_map_put [of es k c] unfolding clients_ok_def by fastforce

section \<open>Arrivals\<close>

text \<open>
  An arrival the server can serve: the arrays of the new object have their sizes, the socket
  fits an \<^verbatim>\<open>fd_set\<close> and \<^verbatim>\<open>fcntl\<close> succeeds.
\<close>

definition arrival_ok :: "'s arrival \<Rightarrow> bool" where
  "arrival_ok ar \<longleftrightarrow> bufs_ok (ar_memory ar) \<and> ac_accept (ar_accept ar) < 1024 \<and> 0 \<le> ar_fcntl ar"

definition accepted :: "'s arrival \<Rightarrow> int \<times> 's client" where
  "accepted ar = Accept (ar_accept ar) (Client (ar_memory ar))"

lemma accepted_fields:
  assumes "accepted ar = (ret, c)"
  shows "handshaked c = False" "frame_buf_pos c = 0" "socket c = ac_accept (ar_accept ar)"
    "bufs_ok c = bufs_ok (ar_memory ar)" "ret = 0 \<Longrightarrow> 0 < socket c"
  using assms
  by (auto simp: accepted_def Accept_def Client_def bufs_ok_def Let_def
      split: if_splits option.splits prod.splits)

text \<open>
  An object of the second constructor has its position and its flag from the memory it is made in:
  a connection can count as open before any handshake.
\<close>

lemma Client_listener_uninitialised:
  "frame_buf_pos (Client_listener calls c) = frame_buf_pos c"
  "handshaked (Client_listener calls c) = handshaked c" "cl_id (Client_listener calls c) = cl_id c"
  by (simp_all add: Client_listener_def Accept_def Let_def split: option.splits prod.splits)

lemma accept_step_joins:
  assumes "accepted ar = (0, c)" and "0 \<le> ar_fcntl ar" and "GenerateID srv = Inr (k, srv1)" and "0 \<le> k"
  shows "accept_step api ar srv =
    Inr (length (map_put (clients srv1) k (set_id c k)) = 1, None,
         srv1\<lparr>clients := map_put (clients srv1) k (set_id c k)\<rparr>)"
  using assms by (simp add: accept_step_def accepted_def SetNonBlocking_def)

lemma accept_step_outcome:
  assumes srv: "clients_ok (clients srv)" "0 \<le> id_counter srv" "id_counter srv \<le> INT_MAX"
      "int (length (clients srv)) < INT_MAX"
    and ar: "arrival_ok ar" and acc: "accepted ar = (ret, c)"
  shows "case accept_step api ar srv of
      Inl x \<Rightarrow> x = SignedOverflow \<and> ret = 0 \<and>
        (\<forall>j. id_counter srv \<le> j \<and> j \<le> INT_MAX \<longrightarrow> get_client srv j \<noteq> None)
    | Inr (signalled, dropped, srv') \<Rightarrow>
        if ret = 0
        then \<exists>k. get_client srv k = None \<and> id_counter srv \<le> k \<and> k \<le> INT_MAX \<and> dropped = None \<and>
          srv' = srv\<lparr>id_counter := k, clients := map_put (clients srv) k (set_id c k)\<rparr> \<and>
          clients_ok (clients srv') \<and> (signalled \<longleftrightarrow> clients srv = [])
        else srv' = srv \<and> \<not> signalled \<and> dropped = Some c"
proof (cases "ret = 0")
  case False
  with acc show ?thesis by (simp add: accept_step_def accepted_def)
next
  case True
  have m: "map_ok (clients srv)" using srv(1) by (simp add: clients_ok_def)
  show ?thesis
  proof (cases "GenerateID srv")
    case (Inl x)
    with True acc ar GenerateID_outcome [OF m srv(2-4)] show ?thesis
      by (simp add: accept_step_def accepted_def SetNonBlocking_def arrival_ok_def)
  next
    case (Inr r)
    then obtain k where g: "GenerateID srv = Inr (k, srv\<lparr>id_counter := k\<rparr>)" "get_client srv k = None"
      "id_counter srv \<le> k" "k \<le> INT_MAX"
      using GenerateID_outcome [OF m srv(2-4)] by (cases r) auto
    have "entry_ok (k, set_id c k)"
      using accepted_fields [OF acc] True ar g(3) srv(2)
      by (auto simp: entry_ok_def set_id_def arrival_ok_def client_ok_def bufs_ok_def fd_ok_def BUF_LEN_def)
    then have "clients_ok (map_put (clients srv) k (set_id c k))" by (rule clients_ok_put [OF srv(1)])
    moreover have "length (map_put (clients srv) k (set_id c k)) = 1 \<longleftrightarrow> clients srv = []"
      using cm.size_put_one [OF m] g(2) by (simp add: get_client_def)
    ultimately show ?thesis
      using accept_step_joins [OF acc [unfolded True] _ g(1), of api] ar g srv(2) True
      by (auto simp: arrival_ok_def)
  qed
qed

lemma accept_loop_outcome:
  assumes "clients_ok (clients srv)" and "0 \<le> id_counter srv" and "id_counter srv \<le> INT_MAX"
    and "int (length (clients srv)) + int (length ars) \<le> INT_MAX" and "\<forall>ar \<in> set ars. arrival_ok ar"
  shows "case accept_loop api ars srv of
      Inl x \<Rightarrow> x = SignedOverflow
    | Inr srv' \<Rightarrow> clients_ok (clients srv') \<and> id_counter srv \<le> id_counter srv' \<and>
        (\<forall>i c. get_client srv i = Some c \<longrightarrow> get_client srv' i = Some c) \<and>
        length (clients srv') = length (clients srv) + length (filter (\<lambda>ar. fst (accepted ar) = 0) ars)"
  using assms
proof (induction ars arbitrary: srv)
  case Nil
  then show ?case by simp
next
  case (Cons ar ars)
  obtain ret c where acc: "accepted ar = (ret, c)" by fastforce
  have ar: "arrival_ok ar" and n: "int (length (clients srv)) < INT_MAX" using Cons.prems(4,5) by simp_all
  note o = accept_step_outcome [OF Cons.prems(1-3) n ar acc, of api]
  show ?case
  proof (cases "accept_step api ar srv")
    case (Inl x)
    with o show ?thesis by simp
  next
    case (Inr r)
    then obtain sg dr srv1 where s: "accept_step api ar srv = Inr (sg, dr, srv1)" by (cases r) auto
    have m: "map_ok (clients srv)" using Cons.prems(1) by (simp add: clients_ok_def)
    have srv1: "clients_ok (clients srv1)" "0 \<le> id_counter srv1" "id_counter srv1 \<le> INT_MAX"
      "id_counter srv \<le> id_counter srv1"
      "\<forall>i c. get_client srv i = Some c \<longrightarrow> get_client srv1 i = Some c"
      "length (clients srv1) = length (clients srv) + (if ret = 0 then 1 else 0)"
      using o s Cons.prems(1-3) cm.size_put [OF m] map_find_put [OF m]
      by (auto simp: get_client_def split: if_splits)
    have "int (length (clients srv1)) + int (length ars) \<le> INT_MAX"
      using srv1(6) Cons.prems(4) by simp
    note IH = Cons.IH [OF srv1(1-3) this]
    show ?thesis
    proof (cases "accept_loop api ars srv1")
      case (Inl x)
      with IH Cons.prems(5) s show ?thesis by simp
    next
      case (Inr srv')
      with IH Cons.prems(5) srv1(4-6) s acc show ?thesis by auto
    qed
  qed
qed

lemma GenerateID_clients: "GenerateID srv = Inr (k, srv1) \<Longrightarrow> clients srv1 = clients srv"
  by (auto simp: GenerateID_def bind_r_eq_Inr split: option.splits)

lemma fill_set_fault:
  assumes "e \<in> set es" and "\<not> fd_ok (snd e)"
  shows "fill_set es n = Inl OutOfBounds"
  using assms
  by (induction es arbitrary: n) (auto simp: fd_set_ok_def fd_ok_def FD_SETSIZE_def)

text \<open>The first argument of \<^verbatim>\<open>select\<close> is one more than the largest descriptor in the set.\<close>

lemma fill_set_covers:
  assumes "\<forall>e \<in> set es. fd_ok (snd e)"
  shows "fill_set es n = Inr (Max (insert n (socket ` snd ` set es)) + 1)"
  using assms
proof (induction es arbitrary: n)
  case (Cons e es)
  have "Max (insert n (insert (socket (snd e)) S)) = Max (insert (max n (socket (snd e))) S)"
    if "finite S" for S
    using that by (cases "S = {}") (simp_all add: max.assoc max.left_commute)
  with Cons show ?case
    by (simp add: fd_set_ok_def fd_ok_def FD_SETSIZE_def max_def)
qed simp

lemma Disconnect_outcome_closes:
  assumes "ssl_write_ok api sent" and "turns_end api rank" and "entry_ok e"
  obtains c where "Disconnect api (snd e) = Inr c" "socket c \<le> 0" "cl_id c = fst e"
    "sent (tls_connection c) \<in> {sent (tls_connection (snd e)) @ [0x88, 0], sent (tls_connection (snd e))}"
proof -
  have e: "bufs_ok (snd e)" "fd_ok (snd e)" "cl_id (snd e) = fst e"
    using assms(3) by (simp_all add: entry_ok_def client_ok_def)
  have "\<exists>c. Disconnect api (snd e) = Inr c"
    using Disconnect_returns [OF assms(2) e(1,2)] .
  then show thesis
    using Disconnect_outcome [OF assms(1) e(1,2)] e(3) that by (auto simp: closing_frame_bytes)
qed

lemma disconnect_all_outcome:
  assumes "ssl_write_ok api sent" and "turns_end api rank" and "\<forall>e \<in> set es. entry_ok e"
  shows "\<exists>es'. disconnect_all api es = Inr es' \<and>
    list_all2 (\<lambda>e e'. fst e' = fst e \<and> cl_id (snd e') = fst e \<and> socket (snd e') \<le> 0 \<and>
      sent (tls_connection (snd e')) \<in>
        {sent (tls_connection (snd e)) @ [0x88, 0], sent (tls_connection (snd e))}) es es'"
  using assms(3)
proof (induction es)
  case Nil
  then show ?case by simp
next
  case (Cons e es)
  then obtain es' where "disconnect_all api es = Inr es'" and
    "list_all2 (\<lambda>e e'. fst e' = fst e \<and> cl_id (snd e') = fst e \<and> socket (snd e') \<le> 0 \<and>
      sent (tls_connection (snd e')) \<in>
        {sent (tls_connection (snd e)) @ [0x88, 0], sent (tls_connection (snd e))}) es es'"
    by auto
  moreover have "entry_ok e" using Cons.prems by simp
  from Disconnect_outcome_closes [OF assms(1,2) this] obtain c where
    "Disconnect api (snd e) = Inr c" "socket c \<le> 0" "cl_id c = fst e"
    "sent (tls_connection c) \<in> {sent (tls_connection (snd e)) @ [0x88, 0], sent (tls_connection (snd e))}" .
  ultimately show ?case by simp
qed

section \<open>The message loop ends\<close>

lemma Disconnect_keeps_id:
  assumes "Disconnect api c = Inr c'"
  shows "cl_id c' = cl_id c"
proof -
  have close: "cl_id (CloseSocket api d) = cl_id d" for d
    by (simp add: CloseSocket_def Let_def split: prod.split)
  have send: "SendFrame api d b = Inr (r, d') \<Longrightarrow> cl_id d' = cl_id d" for d b r d'
    by (auto simp: SendFrame_def bind_r_eq_Inr split: option.splits)
  from assms show ?thesis
    by (auto simp: Disconnect_def Let_def bind_r_eq_Inr close dest!: send split: if_splits)
qed

definition turn ::
  "'s tls_api \<Rightarrow> ('a, 's) ws_handlers \<Rightarrow> 's client \<Rightarrow> byte list \<Rightarrow> 'a \<Rightarrow>
   (int \<times> 's client \<times> byte list \<times> 'a) result" where
  "turn api app c buf a =
     bind_r (Receive api c buf MSG_BUF_LEN) (\<lambda>(ret, c1, buf1, len1).
     bind_r (dispatch api app ret c1 buf1 len1 a) (\<lambda>(a1, c2). Inr (ret, c2, buf1, a1)))"

definition goes_on :: "int \<Rightarrow> bool" where
  "goes_on ret \<longleftrightarrow> ret = READ_SUCCEED_DATA_AVAILABLE \<or> ret = HANDSHAKE_SUCCEED"

lemma recv_loop_turn:
  "recv_loop api app c buf a =
     (case turn api app c buf a of
        Inl x \<Rightarrow> Some (Inl x)
      | Inr (ret, c2, buf1, a1) \<Rightarrow>
          if goes_on ret then recv_loop api app c2 buf1 a1 else Some (Inr (ret, c2, buf1, a1)))"
  by (subst recv_loop.simps) (auto simp: turn_def goes_on_def split: sum.split prod.split)

section \<open>The interface of the handlers\<close>

text \<open>
  The handlers read the message as a C string and the client only for its id; \<open>owned\<close> is the set
  of ids the state keeps something for: a message may add its sender, a disconnect removes it.
\<close>

locale ws_app =
  fixes app :: "('a, 's) ws_handlers"
    and handle :: "'a \<Rightarrow> int \<Rightarrow> byte list \<Rightarrow> 'a result"
    and release :: "'a \<Rightarrow> int \<Rightarrow> 'a result"
    and owned :: "'a \<Rightarrow> int set"
    and inv :: "'a \<Rightarrow> bool"
  assumes on_message: "0 \<in> set buf \<Longrightarrow>
      on_message app a c buf len = bind_r (handle a (cl_id c) (cstr buf)) (\<lambda>a'. Inr (a', c))"
    and on_disconnect: "on_disconnect app a c = bind_r (release a (cl_id c)) (\<lambda>a'. Inr (a', c))"
    and handle_ok: "inv a \<Longrightarrow> handle a i m = Inr a' \<Longrightarrow> inv a' \<and> owned a' \<subseteq> insert i (owned a)"
    and release_ok: "inv a \<Longrightarrow> release a i = Inr a' \<Longrightarrow> inv a' \<and> owned a' \<subseteq> owned a - {i}"

lemma delivered_terminated: "delivered buf len \<Longrightarrow> 0 \<in> set buf"
  unfolding delivered_def by (metis nat_less_iff nth_mem of_nat_numeral)

lemma cstr_payload: "cstr (payload @ 0 # rest) = cstr payload"
  by (induction payload) (simp_all add: cstr_def)

text \<open>The messages of one client, handled one after the other.\<close>

primrec handle_all :: "('a \<Rightarrow> int \<Rightarrow> byte list \<Rightarrow> 'a result) \<Rightarrow> 'a \<Rightarrow> int \<Rightarrow> byte list list \<Rightarrow> 'a result" where
  "handle_all handle a i [] = Inr a"
| "handle_all handle a i (m # ms) = bind_r (handle a i m) (\<lambda>a1. handle_all handle a1 i ms)"

text \<open>The stream of a client that sends short text frames, given by masking key and payload.\<close>

definition text_frames :: "(byte list \<times> byte list) list \<Rightarrow> byte list" where
  "text_frames msgs = concat (map (\<lambda>(key, payload). rfc_client_frame (frame_code WS_TEXT_FRAME) key payload) msgs)"

definition short_messages :: "(byte list \<times> byte list) list \<Rightarrow> bool" where
  "short_messages msgs \<longleftrightarrow> (\<forall>(key, payload) \<in> set msgs. length key = 4 \<and> length payload \<le> 125)"

lemma Receive_nothing:
  assumes "ssl_read_ok api" and "ssl_stream_ok api pending" and "client_ok c" and "handshaked c"
    and "stream pending c = []"
  obtains c' ret where "Receive api c buf len = Inr (ret, c', buf, len)" "cl_id c' = cl_id c"
    "ret = WAITING_FOR_MORE_DATA \<and> stream pending c' = [] \<or> ret < 0"
  using assms(1,3,4)
proof (cases rule: Receive_read [where pending = pending and buf = buf and len = len, consumes 3, case_names parse wait closed])
  case (parse ret err c1)
  then have "stream pending c1 = []" using assms(2,5) by simp
  with parse(3) show ?thesis by (simp add: stream_def filled_def)
next
  case (wait c1)
  with assms(2,5) have "cl_id c1 = cl_id c" "stream pending c1 = []" by (simp_all add: buf_only_def)
  with wait(4) that [of WAITING_FOR_MORE_DATA c1] show ?thesis by blast
next
  case (closed ret c1)
  then show ?thesis by (intro that [of ret c1]) (auto simp: buf_only_def return_codes)
qed

context ws_app
begin

lemma turn_outcome:
  assumes api: "ssl_read_ok api" and c: "client_ok c" and fd: "fd_ok c" and buf: "length buf = 2048"
    and a: "inv a" and t: "turn api app c buf a = Inr (ret, c', buf', a')"
  shows "cl_id c' = cl_id c \<and> length buf' = 2048 \<and> inv a' \<and>
    (if 0 \<le> ret then client_ok c' \<and> fd_ok c' \<and> owned a' \<subseteq> insert (cl_id c) (owned a) \<and>
       (\<exists>len'. Receive api c buf 2048 = Inr (ret, c', buf', len'))
     else owned a' \<subseteq> owned a - {cl_id c})"
proof -
  obtain c1 len1 where r: "Receive api c buf 2048 = Inr (ret, c1, buf', len1)"
    and d: "dispatch api app ret c1 buf' len1 a = Inr (a', c')"
    using t by (auto simp: turn_def bind_r_eq_Inr MSG_BUF_LEN_def)
  have c1: "cl_id c1 = cl_id c" "socket c1 = socket c" "length buf' = 2048" "0 \<le> ret \<Longrightarrow> client_ok c1"
    "ret \<in> {READ_SUCCEED, READ_SUCCEED_DATA_AVAILABLE} \<Longrightarrow> delivered buf' len1"
    using Receive_continues [OF api c fd buf r] by (simp_all add: same_conn_def)
  have fd1: "fd_ok c1" using fd c1(2) by (simp add: fd_ok_def)
  consider "ret \<in> {READ_SUCCEED, READ_SUCCEED_DATA_AVAILABLE}" | "ret < 0"
    | "0 \<le> ret" "ret \<notin> {READ_SUCCEED, READ_SUCCEED_DATA_AVAILABLE}" by linarith
  then show ?thesis
  proof cases
    case 1
    then have "bind_r (handle a (cl_id c1) (cstr buf')) (\<lambda>a'. Inr (a', c1)) = Inr (a', c')"
      using d on_message [OF delivered_terminated [OF c1(5) [OF 1]]] by (auto simp: dispatch_def)
    then have "handle a (cl_id c) (cstr buf') = Inr a'" "c' = c1"
      by (auto simp: bind_r_eq_Inr c1(1))
    then show ?thesis using 1 handle_ok [OF a] c1 fd1 r by (auto simp: return_codes)
  next
    case 2
    then obtain c2 where "Disconnect api c1 = Inr c2" "release a (cl_id c2) = Inr a'" "c' = c2"
      using d by (auto simp: dispatch_def return_codes bind_r_eq_Inr on_disconnect)
    then show ?thesis using 2 release_ok [OF a] Disconnect_keeps_id [of api c1 c2] c1 by auto
  next
    case 3
    then have "a' = a" "c' = c1" using d by (auto simp: dispatch_def)
    then show ?thesis using 3 a c1 fd1 r by auto
  qed
qed

lemma recv_loop_total:
  assumes api: "ssl_read_ok api" "ssl_stream_ok api pending"
    and "client_ok c" and "fd_ok c" and "length buf = 2048" and "inv a"
  shows "\<exists>r. recv_loop api app c buf a = Some r \<and>
    (case r of Inl x \<Rightarrow> True
     | Inr (ret, c', buf', a') \<Rightarrow> cl_id c' = cl_id c \<and> length buf' = 2048 \<and> inv a' \<and>
         (if 0 \<le> ret then client_ok c' \<and> fd_ok c' \<and> owned a' \<subseteq> insert (cl_id c) (owned a)
          else owned a' \<subseteq> owned a - {cl_id c}))"
  using assms(3-6)
proof (induction "length (stream pending c)" arbitrary: c buf a rule: less_induct)
  case less
  show ?case
  proof (cases "turn api app c buf a")
    case (Inl x)
    then show ?thesis by (subst recv_loop_turn) simp
  next
    case (Inr r)
    obtain ret c1 buf1 a1 where r: "r = (ret, c1, buf1, a1)" by (cases r)
    note o = turn_outcome [OF api(1) less.prems Inr [unfolded r]]
    show ?thesis
    proof (cases "goes_on ret")
      case False
      then show ?thesis using o by (subst recv_loop_turn) (auto simp: Inr r)
    next
      case True
      then have ret: "0 \<le> ret" by (auto simp: goes_on_def return_codes)
      with o obtain len1 where rc: "Receive api c buf 2048 = Inr (ret, c1, buf1, len1)" by auto
      have ok: "client_ok c1" "fd_ok c1" "length buf1 = 2048" "inv a1" using o ret by simp_all
      have "length (stream pending c1) < length (stream pending c)"
        using True Receive_progress [OF api less.prems(1-3) rc] by (simp add: goes_on_def)
      from less.hyps [OF this ok] obtain s where s: "recv_loop api app c1 buf1 a1 = Some s"
        "case s of Inl x \<Rightarrow> True
         | Inr (ret, c', buf', a') \<Rightarrow> cl_id c' = cl_id c1 \<and> length buf' = 2048 \<and> inv a' \<and>
             (if 0 \<le> ret then client_ok c' \<and> fd_ok c' \<and> owned a' \<subseteq> insert (cl_id c1) (owned a1)
              else owned a' \<subseteq> owned a1 - {cl_id c1})"
        by (elim exE conjE) (rule that)
      have "recv_loop api app c buf a = Some s"
        using True s(1) by (subst recv_loop_turn) (simp add: Inr r)
      then show ?thesis using s(2) o ret
        by (intro exI [of _ s]) (auto split: sum.splits if_splits)
    qed
  qed
qed

text \<open>A turn after a message has been delivered, after waiting, and after the connection is lost.\<close>

lemma turn_message:
  assumes "Receive api c buf 2048 = Inr (ret, c1, payload @ 0 # rest, len1)" and "cl_id c1 = cl_id c"
    and "ret \<in> {READ_SUCCEED, READ_SUCCEED_DATA_AVAILABLE}"
  shows "turn api app c buf a =
    bind_r (handle a (cl_id c) (cstr payload)) (\<lambda>a1. Inr (ret, c1, payload @ 0 # rest, a1))"
  using assms on_message [of "payload @ 0 # rest" a c1 len1]
  by (auto simp: turn_def dispatch_def MSG_BUF_LEN_def cstr_payload bind_r_assoc)

lemma turn_wait:
  assumes "Receive api c buf 2048 = Inr (WAITING_FOR_MORE_DATA, c1, buf1, len1)"
  shows "turn api app c buf a = Inr (WAITING_FOR_MORE_DATA, c1, buf1, a)"
  using assms by (simp add: turn_def dispatch_def MSG_BUF_LEN_def return_codes)

lemma turn_closed:
  assumes "Receive api c buf 2048 = Inr (ret, c1, buf1, len1)" and "ret < 0" and "cl_id c1 = cl_id c"
    and "turn api app c buf a = Inr (ret', c', buf', a')"
  shows "ret' = ret \<and> release a (cl_id c) = Inr a'"
proof -
  obtain c2 where "Disconnect api c1 = Inr c2" "release a (cl_id c2) = Inr a'" "ret' = ret"
    using assms(1,2,4)
    by (auto simp: turn_def dispatch_def MSG_BUF_LEN_def return_codes bind_r_eq_Inr on_disconnect)
  with Disconnect_keeps_id [of api c1 c2] assms(3) show ?thesis by simp
qed

text \<open>The turns of the loop on a stream of short text frames.\<close>

lemma turn_cases:
  assumes api: "ssl_read_ok api" "ssl_stream_ok api pending"
    and c: "client_ok c" "fd_ok c" "handshaked c" and buf: "length buf = 2048"
    and msgs: "short_messages msgs" "stream pending c = text_frames msgs"
  obtains (assertion) "turn api app c buf a = Inl AssertFail"
  | (wait) c1 buf1 where "turn api app c buf a = Inr (WAITING_FOR_MORE_DATA, c1, buf1, a)"
      "stream pending c1 = text_frames msgs"
  | (closed) ret c1 buf1 len1 where "Receive api c buf 2048 = Inr (ret, c1, buf1, len1)" "ret < 0"
      "cl_id c1 = cl_id c" "bufs_ok c1" "fd_ok c1"
  | (message) key payload rest ret c1 buf1 where "msgs = (key, payload) # rest"
      "turn api app c buf a = bind_r (handle a (cl_id c) (cstr payload)) (\<lambda>a1. Inr (ret, c1, buf1, a1))"
      "ret \<in> {READ_SUCCEED, READ_SUCCEED_DATA_AVAILABLE}" "client_ok c1" "fd_ok c1" "handshaked c1"
      "cl_id c1 = cl_id c" "length buf1 = 2048" "short_messages rest" "stream pending c1 = text_frames rest"
proof (cases "Receive api c buf 2048")
  case (Inl x)
  have "x = AssertFail"
  proof (cases msgs)
    case Nil
    with msgs(2) have "stream pending c = []" by (simp add: text_frames_def)
    from Receive_nothing [OF api c(1,3) this, of buf 2048] Inl show ?thesis by auto
  next
    case (Cons m rest)
    then have "stream pending c = rfc_client_frame (frame_code WS_TEXT_FRAME) (fst m) (snd m) @ text_frames rest"
      "length (fst m) = 4" "length (snd m) \<le> 125"
      using msgs by (auto simp: text_frames_def short_messages_def)
    from Receive_message [OF api c(1,3) buf this(2,3,1)] Inl show ?thesis by simp
  qed
  with Inl assertion show thesis by (simp add: turn_def MSG_BUF_LEN_def)
next
  case (Inr t)
  then obtain r c1 buf1 len1 where rc: "Receive api c buf 2048 = Inr (r, c1, buf1, len1)" by (cases t) auto
  have c1: "cl_id c1 = cl_id c" "bufs_ok c1" "fd_ok c1"
    using Receive_continues [OF api(1) c(1,2) buf rc] c(2) by (simp_all add: same_conn_def fd_ok_def)
  show thesis
  proof (cases "r < 0 \<or> r = WAITING_FOR_MORE_DATA \<and> stream pending c1 = stream pending c")
    case True
    then show thesis
      using closed [OF rc _ c1] wait [of c1 buf1] turn_wait [of api c buf c1 buf1 len1 a] rc msgs(2) by auto
  next
    case False
    obtain key payload rest where m: "msgs = (key, payload) # rest"
    proof (cases msgs)
      case Nil
      with msgs(2) have "stream pending c = []" by (simp add: text_frames_def)
      from Receive_nothing [OF api c(1,3) this, of buf 2048] rc False this show ?thesis by auto
    qed auto
    then have k: "stream pending c = rfc_client_frame (frame_code WS_TEXT_FRAME) key payload @ text_frames rest"
      "length key = 4" "length payload \<le> 125" "short_messages rest"
      using msgs by (auto simp: text_frames_def short_messages_def)
    from Receive_message [OF api c(1,3) buf k(2,3,1)] rc False have o: "handshaked c1" "client_ok c1"
      "r \<in> {READ_SUCCEED, READ_SUCCEED_DATA_AVAILABLE}" "stream pending c1 = text_frames rest"
      "buf1 = payload @ 0 # drop (Suc (length payload)) buf"
      using c(3) by (auto simp: buf_only_def return_codes split: if_splits)
    have "length buf1 = 2048" using o(5) k(3) buf by simp
    then show thesis
      using message [OF m _ o(3,2) c1(3) o(1) c1(1) _ k(4) o(4)]
        turn_message [OF rc [unfolded o(5)] c1(1) o(3), of a] o(5) by simp
  qed
qed

lemma recv_loop_in_order:
  assumes api: "ssl_read_ok api" "ssl_stream_ok api pending"
    and "client_ok c" and "fd_ok c" and "handshaked c" and "length buf = 2048" and "short_messages msgs"
    and "stream pending c = text_frames msgs"
    and "recv_loop api app c buf a = Some (Inr (ret, c', buf', a'))"
  shows "\<exists>n a1. n \<le> length msgs \<and>
    handle_all handle a (cl_id c) (map (cstr \<circ> snd) (take n msgs)) = Inr a1 \<and>
    (if 0 \<le> ret then a' = a1 \<and> stream pending c' = text_frames (drop n msgs)
     else release a1 (cl_id c) = Inr a')"
  using assms(3-9)
proof (induction msgs arbitrary: c buf a rule: measure_induct_rule [of length])
  case (less msgs)
  note loop = less.prems(7) [unfolded recv_loop_turn [of api app c buf a]]
  from api less.prems(1-6) show ?case
  proof (cases rule: turn_cases [where a = a, consumes 8, case_names assertion wait closed message])
    case assertion
    with loop show ?thesis by simp
  next
    case (wait c1 buf1)
    with loop show ?thesis
      by (auto simp: goes_on_def return_codes intro!: exI [of _ "0 :: nat"])
  next
    case (closed r c1 buf1 len1)
    obtain t where t: "turn api app c buf a = Inr t" using loop by (auto split: sum.splits)
    with turn_closed [OF closed(1-3)] closed(2) loop show ?thesis
      by (cases t) (auto simp: goes_on_def return_codes split: if_splits intro!: exI [of _ "0 :: nat"])
  next
    case (message key payload rest r c1 buf1)
    obtain a1 where a1: "handle a (cl_id c) (cstr payload) = Inr a1" "turn api app c buf a = Inr (r, c1, buf1, a1)"
      using loop message(2) by (cases "handle a (cl_id c) (cstr payload)") auto
    show ?thesis
    proof (cases "goes_on r")
      case True
      with a1(2) loop have l: "recv_loop api app c1 buf1 a1 = Some (Inr (ret, c', buf', a'))" by simp
      have "length rest < length msgs" using message(1) by simp
      from less.IH [OF this message(4-6,8,9,10) l, unfolded message(7)] obtain n a2 where
        "n \<le> length rest" "handle_all handle a1 (cl_id c) (map (cstr \<circ> snd) (take n rest)) = Inr a2"
        "if 0 \<le> ret then a' = a2 \<and> stream pending c' = text_frames (drop n rest)
         else release a2 (cl_id c) = Inr a'" by blast
      with a1(1) message(1) show ?thesis by (intro exI [of _ "Suc n"] exI [of _ a2]) (simp add: comp_def)
    next
      case False
      with a1(2) loop message(1,3,10) a1(1) show ?thesis
        by (intro exI [of _ "1 :: nat"] exI [of _ a1]) (auto simp: return_codes)
    qed
  qed
qed

lemma serve_client_outcome:
  assumes api: "ssl_read_ok api" "ssl_stream_ok api pending" and e: "entry_ok e"
    and buf: "length buf = 2048" and a: "inv a"
    and s: "serve_client api app ready (snd e) buf a = Inr (ret, c', buf', a')"
  shows "length buf' = 2048 \<and> inv a' \<and>
    (if 0 \<le> ret then entry_ok (fst e, c') \<and> owned a' \<subseteq> insert (fst e) (owned a)
     else owned a' \<subseteq> owned a - {fst e})"
proof (cases "ready (socket (snd e))")
  case False
  then show ?thesis using s e buf a by (auto simp: serve_client_def bind_r_eq_Inr)
next
  case True
  from recv_loop_total [OF api _ _ buf a, of "snd e"] e obtain r where
    "recv_loop api app (snd e) buf a = Some r"
    "case r of Inl x \<Rightarrow> True
     | Inr (ret, c', buf', a') \<Rightarrow> cl_id c' = cl_id (snd e) \<and> length buf' = 2048 \<and> inv a' \<and>
         (if 0 \<le> ret then client_ok c' \<and> fd_ok c' \<and> owned a' \<subseteq> insert (cl_id (snd e)) (owned a)
          else owned a' \<subseteq> owned a - {cl_id (snd e)})"
    by (auto simp: entry_ok_def)
  then show ?thesis using s e True
    by (auto simp: serve_client_def bind_r_eq_Inr entry_ok_def)
qed

lemma serve_clients_outcome:
  assumes api: "ssl_read_ok api" "ssl_stream_ok api pending"
  shows "serve_clients api app ready es buf a = Inr (es', buf', a') \<Longrightarrow> clients_ok es \<Longrightarrow>
    length buf = 2048 \<Longrightarrow> inv a \<Longrightarrow>
    clients_ok es' \<and> keys es' \<subseteq> keys es \<and> length buf' = 2048 \<and> inv a' \<and>
    owned a' \<subseteq> (owned a - keys es) \<union> keys es'"
proof (induction es arbitrary: buf a es')
  case Nil
  then show ?case by (simp add: keys_def)
next
  case (Cons e es)
  obtain ret c1 buf1 a1 es1 where s: "serve_client api app ready (snd e) buf a = Inr (ret, c1, buf1, a1)"
    and rest: "serve_clients api app ready es buf1 a1 = Inr (es1, buf', a')"
    and es': "es' = (if ret \<ge> 0 then (fst e, c1) # es1 else es1)"
    using Cons.prems(1) by (auto simp: bind_r_eq_Inr)
  have e: "entry_ok e" "clients_ok es" "\<forall>e' \<in> set es. fst e < fst e'"
    using Cons.prems(2) by (simp_all add: clients_ok_Cons)
  note o = serve_client_outcome [OF api e(1) Cons.prems(3,4) s]
  have IH: "clients_ok es1" "keys es1 \<subseteq> keys es" "length buf' = 2048" "inv a'"
    "owned a' \<subseteq> (owned a1 - keys es) \<union> keys es1"
    using Cons.IH [OF rest e(2)] o by simp_all
  have "\<forall>e' \<in> set es1. fst e < fst e'" using IH(2) e(3) by (force simp: keys_def)
  with IH(1-4) o have "clients_ok es'" "keys es' \<subseteq> keys (e # es)"
    by (auto simp: es' clients_ok_Cons keys_def)
  moreover have "owned a' \<subseteq> (owned a - keys (e # es)) \<union> keys es'"
    using IH(5) o by (cases "0 \<le> ret") (auto simp: es' keys_def)
  ultimately show ?case using IH(3,4) by simp
qed

end

section \<open>Handlers that cannot fault\<close>

locale ws_total = ws_app +
  assumes handle_returns: "inv a \<Longrightarrow> \<exists>a'. handle a i m = Inr a'"
    and release_returns: "inv a \<Longrightarrow> \<exists>a'. release a i = Inr a'"

context ws_total
begin

text \<open>Then only the assertion on a badly cut frame and the closing frame can stop the loop.\<close>

lemma turn_closed_fault:
  assumes "Receive api c buf 2048 = Inr (ret, c1, buf1, len1)" and "ret < 0" and "inv a"
    and "bufs_ok c1" and "fd_ok c1" and "ssl_write_ok api sent" and "turn api app c buf a = Inl x"
  shows "x = NoReturn"
proof -
  have t: "turn api app c buf a =
      bind_r (Disconnect api c1) (\<lambda>c2. bind_r (release a (cl_id c2)) (\<lambda>a'. Inr (ret, c2, buf1, a')))"
    using assms(1,2) by (simp add: turn_def dispatch_def MSG_BUF_LEN_def return_codes bind_r_assoc on_disconnect)
  show ?thesis
  proof (cases "Disconnect api c1")
    case (Inl y)
    with t assms(7) Disconnect_outcome [OF assms(6,4,5)] show ?thesis by simp
  next
    case (Inr c2)
    with t assms(7) release_returns [OF assms(3), of "cl_id c2"] show ?thesis by auto
  qed
qed

lemma recv_loop_faults:
  assumes api: "ssl_read_ok api" "ssl_stream_ok api pending" "ssl_write_ok api sent"
    and "client_ok c" and "fd_ok c" and "handshaked c" and "length buf = 2048"
    and "short_messages msgs" and "stream pending c = text_frames msgs" and "inv a"
    and "recv_loop api app c buf a = Some (Inl x)"
  shows "x \<in> {AssertFail, NoReturn}"
  using assms(4-11)
proof (induction msgs arbitrary: c buf a rule: measure_induct_rule [of length])
  case (less msgs)
  note loop = less.prems(8) [unfolded recv_loop_turn [of api app c buf a]]
  from api(1,2) less.prems(1-6) show ?case
  proof (cases rule: turn_cases [where a = a, consumes 8, case_names assertion wait closed message])
    case assertion
    with loop show ?thesis by simp
  next
    case (wait c1 buf1)
    with loop show ?thesis by (simp add: goes_on_def return_codes)
  next
    case (closed r c1 buf1 len1)
    show ?thesis
    proof (cases "turn api app c buf a")
      case (Inl y)
      with turn_closed_fault [OF closed(1,2) less.prems(7) closed(4,5) api(3)] loop show ?thesis by simp
    next
      case (Inr t)
      with turn_closed [OF closed(1-3)] closed(2) loop show ?thesis
        by (cases t) (auto simp: goes_on_def return_codes split: if_splits)
    qed
  next
    case (message key payload rest r c1 buf1)
    obtain a1 where a1: "handle a (cl_id c) (cstr payload) = Inr a1" "inv a1"
      using handle_returns handle_ok less.prems(7) by meson
    have "recv_loop api app c1 buf1 a1 = Some (Inl x)"
      using loop message(2) a1(1) by (simp split: if_splits)
    moreover have "length rest < length msgs" using message(1) by simp
    ultimately show ?thesis using less.IH message(4-6,8-10) a1(2) by blast
  qed
qed

end

end
