(* ===== verification/Server_Props.thy ===== *)
theory Server_Props
  imports Server_Laws
begin

text \<open>
  The properties of the web-socket server that do not depend on its handlers: the ids it gives,
  and what accepting a connection does to the map of clients and to the sleeping listener.
\<close>

section \<open>Ids\<close>

text \<open>
  C31: \<open>GenerateID\<close> finds the least free id from the counter on and moves the counter there: the id
  is not in use, at most the number of clients above the counter, and the search never gives
  up. Since the counter never goes back, it fails in one way only: when every id from the
  counter to \<^verbatim>\<open>INT_MAX\<close> is in use the sum overflows, however many smaller ids are free.
\<close>

theorem GenerateID_fresh:
  assumes "map_ok (clients srv)" and "0 \<le> id_counter srv" and "id_counter srv \<le> INT_MAX"
    and "int (length (clients srv)) < INT_MAX"
  shows "case GenerateID srv of
      Inl x \<Rightarrow> x = SignedOverflow \<and>
        (\<forall>j. id_counter srv \<le> j \<and> j \<le> INT_MAX \<longrightarrow> get_client srv j \<noteq> None)
    | Inr (k, srv') \<Rightarrow> srv' = srv\<lparr>id_counter := k\<rparr> \<and> get_client srv k = None \<and> k \<le> INT_MAX \<and>
        id_counter srv \<le> k \<and> k \<le> id_counter srv + int (length (clients srv)) \<and>
        (\<forall>j. id_counter srv \<le> j \<and> j < k \<longrightarrow> get_client srv j \<noteq> None)"
  using assms by (rule GenerateID_outcome)

definition sample_server :: "'s client id_map \<Rightarrow> int \<Rightarrow> 's server" where
  "sample_server es counter = \<lparr>port = 443, max_queue_len = 10, server_socket = 3, id_counter = counter,
     srv_last_error = 0, connection_listener = 1, message_listener = 2, certificate_file = [],
     private_key_file = [], stop = False, clients = es\<rparr>"

lemma sample_server_fields [simp]:
  "clients (sample_server es counter) = es"
  "id_counter (sample_server es counter) = counter"
  "get_client (sample_server es counter) k = map_find es k"
  by (simp_all add: sample_server_def get_client_def)

definition sample_entry :: "int \<Rightarrow> int \<times> peer client" where
  "sample_entry k = (k, (sample_client True [])\<lparr>cl_id := k\<rparr>)"

lemma sample_entry_ok: "0 \<le> k \<Longrightarrow> entry_ok (sample_entry k)"
  using sample_client_ok [of True "[]"]
  by (simp add: entry_ok_def sample_entry_def client_ok_def bufs_ok_def fd_ok_def)

lemma sample_entries_ok: "clients_ok [sample_entry 0, sample_entry 1]"
  using sample_entry_ok [of 0] sample_entry_ok [of 1]
  by (simp add: clients_ok_Cons clients_ok_def map_ok_def) (simp add: sample_entry_def)

theorem GenerateID_fresh_witness:
  "\<exists>srv'. GenerateID (sample_server [sample_entry 0, sample_entry 1] 0) = Inr (2, srv') \<and> id_counter srv' = 2"
proof -
  let ?es = "[sample_entry 0, sample_entry 1]"
  have f: "map_find ?es k = None \<longleftrightarrow> k \<noteq> 0 \<and> k \<noteq> 1" for k
    by (auto simp: map_find_def sample_entry_def)
  have "map_ok ?es" using sample_entries_ok by (simp add: clients_ok_def)
  from GenerateID_fresh [of "sample_server ?es 0"] this show ?thesis
    by (cases "GenerateID (sample_server ?es 0)") (auto simp: f INT_MAX_def dest: spec [of _ 2])
qed

section \<open>Accepting\<close>

text \<open>
  C19: One turn of the accept loop. A connection whose TLS handshake succeeds becomes exactly one
  new entry of the map: a client that has not opened its web socket yet, under a fresh id that
  it knows, all other clients staying as they were; the sleeping listener is signalled exactly
  when the map was empty. A connection that fails changes nothing of the server, and the object
  is dropped with the socket it has accepted still open.
\<close>

theorem accept_step_admits:
  assumes "clients_ok (clients srv)" and "0 \<le> id_counter srv" and "id_counter srv < INT_MAX"
    and "int (length (clients srv)) < INT_MAX" and "get_client srv INT_MAX = None"
    and "arrival_ok ar" and "Accept (ar_accept ar) (Client (ar_memory ar)) = (ret, c)"
  shows "\<exists>signalled dropped srv'. accept_step api ar srv = Inr (signalled, dropped, srv') \<and>
    (if ret = 0
     then dropped = None \<and> clients_ok (clients srv') \<and> (signalled \<longleftrightarrow> clients srv = []) \<and>
       (\<exists>k. get_client srv k = None \<and> get_client srv' = (get_client srv)(k \<mapsto> set_id c k)) \<and>
       \<not> handshaked c \<and> frame_buf_pos c = 0
     else dropped = Some c \<and> socket c = ac_accept (ar_accept ar) \<and> srv' = srv \<and> \<not> signalled)"
proof -
  have acc: "accepted ar = (ret, c)" using assms(7) by (simp add: accepted_def)
  have m: "map_ok (clients srv)" using assms(1) by (simp add: clients_ok_def)
  have "id_counter srv \<le> INT_MAX" using assms(3) by simp
  note o = accept_step_outcome [OF assms(1,2) this assms(4,6) acc, of api]
  show ?thesis
  proof (cases "accept_step api ar srv")
    case (Inl x)
    with o have "get_client srv INT_MAX \<noteq> None" using assms(3) by simp
    with assms(5) show ?thesis by simp
  next
    case (Inr r)
    then obtain sg dr srv' where s: "accept_step api ar srv = Inr (sg, dr, srv')" by (cases r) auto
    show ?thesis
    proof (cases "ret = 0")
      case True
      with o s obtain k where k: "get_client srv k = None" "dr = None" "clients_ok (clients srv')"
        "sg \<longleftrightarrow> clients srv = []" "clients srv' = map_put (clients srv) k (set_id c k)" by auto
      then have "get_client srv' = (get_client srv)(k \<mapsto> set_id c k)"
        using map_find_put [OF m] by (simp add: get_client_def fun_eq_iff)
      with k s True accepted_fields [OF acc] show ?thesis by auto
    next
      case False
      with o s accepted_fields [OF acc] show ?thesis by auto
    qed
  qed
qed

definition sample_arrival :: "int \<Rightarrow> int \<Rightarrow> peer arrival" where
  "sample_arrival ssl_accept fcntl = \<lparr>ar_memory = sample_client False [],
     ar_accept = \<lparr>ac_accept = 7, ac_errno = 0, ac_SSL_new = Some \<lparr>chunks = [], wire = [], busy = 0\<rparr>,
       ac_SSL_set_fd = 1, ac_SSL_accept = (ssl_accept, \<lparr>chunks = [], wire = [], busy = 0\<rparr>)\<rparr>,
     ar_fcntl = fcntl, ar_errno = 0\<rparr>"

lemma sample_arrival_ok: "0 \<le> fcntl \<Longrightarrow> arrival_ok (sample_arrival ssl_accept fcntl)"
  using sample_client_ok(3) [of False "[]"] by (simp add: arrival_ok_def sample_arrival_def)

theorem accept_step_admits_witness:
  "(\<exists>srv'. accept_step queue_tls (sample_arrival 1 0) (sample_server [] 0) = Inr (True, None, srv')) \<and>
   (\<exists>c. accept_step queue_tls (sample_arrival 0 0) (sample_server [] 0) =
     Inr (False, Some c, sample_server [] 0) \<and> socket c = 7)"
proof -
  have e: "clients_ok ([] :: peer client id_map)" by (simp add: clients_ok_def map_ok_def)
  have f: "fst (Accept (ar_accept (sample_arrival r 0)) (Client (ar_memory (sample_arrival r 0)))) =
      (if r \<le> 0 then -5 else 0)" for r
    by (simp add: Accept_def sample_arrival_def)
  have s: "ac_accept (ar_accept (sample_arrival r 0)) = 7" for r by (simp add: sample_arrival_def)
  have a: "\<exists>signalled dropped srv'. accept_step queue_tls (sample_arrival r 0) (sample_server [] 0) =
      Inr (signalled, dropped, srv') \<and>
    (if 0 < r then dropped = None \<and> signalled
     else (\<exists>c. dropped = Some c \<and> socket c = 7) \<and> srv' = sample_server [] 0 \<and> \<not> signalled)" for r
    using accept_step_admits [OF _ _ _ _ _ sample_arrival_ok [of 0 r] prod.collapse [symmetric],
        of "sample_server [] 0" queue_tls] e
    by (cases "0 < r") (fastforce simp: f s INT_MAX_def map_find_def)+
  from a [of 1] a [of 0] show ?thesis by auto
qed

text \<open>
  The accept loop keeps the map of clients well formed over every sequence of arrivals: keys in
  order, each client under its own id with its buffers in place and a socket that \<^verbatim>\<open>select\<close> can
  watch. No client that is in the map is lost or changed, one entry is added for each accepted
  connection, and the only way out is the overflow of the counter.
\<close>

theorem accept_loop_keeps_clients:
  assumes "clients_ok (clients srv)" and "0 \<le> id_counter srv" and "id_counter srv \<le> INT_MAX"
    and "int (length (clients srv)) + int (length ars) \<le> INT_MAX" and "\<forall>ar \<in> set ars. arrival_ok ar"
  shows "case accept_loop api ars srv of
      Inl x \<Rightarrow> x = SignedOverflow
    | Inr srv' \<Rightarrow> clients_ok (clients srv') \<and>
        (\<forall>i c. get_client srv i = Some c \<longrightarrow> get_client srv' i = Some c) \<and>
        length (clients srv') = length (clients srv) +
          length (filter (\<lambda>ar. fst (Accept (ar_accept ar) (Client (ar_memory ar))) = 0) ars)"
  using accept_loop_outcome [OF assms, of api] by (auto simp: accepted_def split: sum.splits)

theorem accept_loop_keeps_clients_witness:
  "case accept_loop queue_tls [sample_arrival 1 0, sample_arrival 0 0] (sample_server [sample_entry 0, sample_entry 1] 0) of
     Inl x \<Rightarrow> x = SignedOverflow
   | Inr srv' \<Rightarrow> clients_ok (clients srv') \<and> length (clients srv') = 3"
proof -
  have "fst (Accept (ar_accept (sample_arrival r 0)) (Client (ar_memory (sample_arrival r 0)))) =
      (if r \<le> 0 then -5 else 0)" for r
    by (simp add: Accept_def sample_arrival_def)
  then show ?thesis
    using accept_loop_keeps_clients [of "sample_server [sample_entry 0, sample_entry 1] 0"
        "[sample_arrival 1 0, sample_arrival 0 0]" queue_tls]
      sample_entries_ok sample_arrival_ok [of 0]
    by (auto simp: INT_MAX_def split: sum.splits)
qed

text \<open>
  C38: A failing \<^verbatim>\<open>fcntl\<close> stops the server. \<open>SetNonBlocking\<close> closes the socket then, but its
  result is ignored and the client enters the map with the descriptor -1; whatever happens to
  the other clients, the next turn of the message thread passes -1 to \<^verbatim>\<open>FD_SET\<close> and writes
  outside the set.
\<close>

theorem unblock_failure_breaks_listener:
  assumes "map_ok (clients srv)" and "0 \<le> id_counter srv"
    and "fst (Accept (ar_accept ar) (Client (ar_memory ar))) = 0" and "ar_fcntl ar < 0"
    and "accept_step api ar srv = Inr (signalled, dropped, srv')"
    and "GenerateID srv = Inr (k, srv1)" and "0 \<le> k"
  shows "(\<exists>c. get_client srv' k = Some c \<and> socket c = -1) \<and>
    message_pass api app arrived ready srv' buf a = Inl OutOfBounds"
proof -
  obtain c where acc: "accepted ar = (0, c)" using assms(3) by (auto simp: accepted_def prod_eq_iff)
  let ?c = "set_id (CloseSocket api (c\<lparr>last_error := ar_errno ar\<rparr>)) k"
  have c: "socket ?c = -1"
    using accepted_fields(5) [OF acc] by (simp add: set_id_def CloseSocket_def Let_def split: prod.split)
  have m: "map_ok (clients srv1)" using assms(1,6) GenerateID_clients by metis
  have srv': "clients srv' = map_put (clients srv1) k ?c"
    using assms(4-7) acc by (auto simp: accept_step_def accepted_def SetNonBlocking_def Let_def)
  then have g: "get_client srv' k = Some ?c" using map_find_put [OF m] by (simp add: get_client_def)
  then have "(k, ?c) \<in> set (clients srv')" by (simp add: get_client_def map_find_def map_of_SomeD)
  then have "fill_set (clients srv') (-1) = Inl OutOfBounds"
    using fill_set_fault [of "(k, ?c)" "clients srv'"] c by (simp add: fd_ok_def)
  with g c show ?thesis by (simp add: message_pass_def)
qed

theorem unblock_failure_breaks_listener_witness:
  "\<exists>srv'. accept_step queue_tls (sample_arrival 1 (-1)) (sample_server [] 0) = Inr (True, None, srv') \<and>
     (\<forall>(app :: (nat, peer) ws_handlers) arrived ready buf a.
        message_pass queue_tls app arrived ready srv' buf a = Inl OutOfBounds)"
proof -
  have acc: "fst (Accept (ar_accept (sample_arrival 1 (-1))) (Client (ar_memory (sample_arrival 1 (-1))))) = 0"
    by (simp add: Accept_def sample_arrival_def)
  have g: "GenerateID (sample_server ([] :: peer client id_map) 0) = Inr (0, sample_server [] 0)"
    by (simp add: GenerateID_def id_loop.simps [of _ _ 0] INT_MAX_def map_find_def sample_server_def)
  obtain srv' where s: "accept_step queue_tls (sample_arrival 1 (-1)) (sample_server [] 0) = Inr (True, None, srv')"
    using acc g by (simp add: accept_step_def case_prod_unfold Let_def)
  have "message_pass queue_tls app arrived ready srv' buf a = Inl OutOfBounds"
    for app :: "(nat, peer) ws_handlers" and arrived ready buf a
    using unblock_failure_breaks_listener [OF _ _ acc _ s g, of app arrived ready buf a]
    by (simp add: map_ok_def sample_arrival_def)
  with s show ?thesis by blast
qed

section \<open>Shutting down\<close>

text \<open>
  C34: When \<^verbatim>\<open>stop\<close> is seen the accept thread disconnects every client and empties the map: on
  connections that get through, each client of the map the loop has left is sent at most the
  closing frame and its socket is closed, in the order of the ids.
\<close>

theorem shutdown_closes_all:
  assumes "ssl_write_ok api sent" and "turns_end api rank"
    and "0 \<le> InitSSL ssl" and "ListenSocket sock srv = (0, srv1)"
    and "accept_loop api ars srv1 = Inr srv2" and "clients_ok (clients srv2)"
  shows "ListenConnections api ssl sock ars srv = Inr (srv2\<lparr>clients := []\<rparr>) \<and>
    (\<exists>es. disconnect_all api (clients srv2) = Inr es \<and>
      list_all2 (\<lambda>e e'. fst e' = fst e \<and> cl_id (snd e') = fst e \<and> socket (snd e') \<le> 0 \<and>
        sent (tls_connection (snd e')) \<in>
          {sent (tls_connection (snd e)) @ [0x88, 0], sent (tls_connection (snd e))})
        (clients srv2) es)"
proof -
  have "\<forall>e \<in> set (clients srv2). entry_ok e" using assms(6) by (simp add: clients_ok_def)
  from disconnect_all_outcome [OF assms(1,2) this] show ?thesis
    using assms(3-5) by (auto simp: ListenConnections_def)
qed

theorem shutdown_closes_all_witness:
  "ListenConnections queue_tls \<lparr>sc_new = True, sc_cipher_list = 1, sc_certificate = 1, sc_private_key = 1\<rparr>
     \<lparr>lc_socket = 3, lc_bind = 0, lc_listen = 0, lc_errno = 0\<rparr> [] (sample_server [sample_entry 0] 0) =
   Inr (sample_server [] 0)"
proof -
  have "clients_ok [sample_entry 0]" using sample_entry_ok [of 0] by (simp add: clients_ok_def map_ok_def)
  with shutdown_closes_all [OF queue_tls_ok(3,4), of "\<lparr>sc_new = True, sc_cipher_list = 1, sc_certificate = 1, sc_private_key = 1\<rparr>"
      "\<lparr>lc_socket = 3, lc_bind = 0, lc_listen = 0, lc_errno = 0\<rparr>" "sample_server [sample_entry 0] 0"
      "sample_server [sample_entry 0] 0" "[]" "sample_server [sample_entry 0] 0"]
  show ?thesis by (simp add: InitSSL_def ListenSocket_def sample_server_def)
qed

end
