(* ===== verification/LogServer.thy ===== *)
theory LogServer
  imports Server "HOL-Library.Char_ord"
begin

text \<open>
  The log server, \<^verbatim>\<open>log-server.cpp\<close>: a requested log (class \<open>LogDescription\<close>) with its file or its
  \<^verbatim>\<open>tail\<close> process, the list of requests and the two handlers that change it, and the loop
  that reads lines and sends them to the clients. The calls of the operating system are the
  record \<open>os_api\<close> of functions on a state \<open>'w\<close>, an argument of every definition that makes them.
\<close>

section \<open>The interface of the operating system\<close>

text \<open>
  Times are pairs of seconds and nanoseconds. \<open>sys_fdopen\<close> says whether a stream is given,
  \<open>sys_fgets\<close> reads from the stream over a descriptor and returns what it stores before the
  final zero, \<open>sys_fork\<close> is the result in the parent; \<open>sys_waitpid\<close> takes the pid and whether
  \<^verbatim>\<open>WNOHANG\<close> is given; \<open>sys_execvp\<close> is false when it returns.
\<close>

type_synonym timespec = "int \<times> int"

record 'w os_api =
  sys_open :: "'w \<Rightarrow> byte list \<Rightarrow> int \<times> 'w"
  sys_fdopen :: "'w \<Rightarrow> int \<Rightarrow> bool \<times> 'w"
  sys_fclose :: "'w \<Rightarrow> int \<Rightarrow> 'w"
  sys_fgets :: "'w \<Rightarrow> int \<Rightarrow> int \<Rightarrow> byte list option \<times> 'w"
  sys_fcntl :: "'w \<Rightarrow> int \<Rightarrow> int \<times> 'w"
  sys_pipe :: "'w \<Rightarrow> (int \<times> int) option \<times> 'w"
  sys_close :: "'w \<Rightarrow> int \<Rightarrow> 'w"
  sys_dup2 :: "'w \<Rightarrow> int \<Rightarrow> int \<Rightarrow> 'w"
  sys_fork :: "'w \<Rightarrow> int \<times> 'w"
  sys_execvp :: "'w \<Rightarrow> byte list list \<Rightarrow> bool \<times> 'w"
  sys_waitpid :: "'w \<Rightarrow> int \<Rightarrow> bool \<Rightarrow> int \<times> 'w"
  sys_kill :: "'w \<Rightarrow> int \<Rightarrow> int \<Rightarrow> 'w"
  sys_clock :: "'w \<Rightarrow> timespec \<times> 'w"
  sys_sleep_until :: "'w \<Rightarrow> timespec \<Rightarrow> 'w"

section \<open>A requested log\<close>

text \<open>
  What the pointer \<^verbatim>\<open>stream\<close> points to: nothing, an open stream over a descriptor, or a stream
  that has been closed. The list holds the only copy of a description that is used.
\<close>

datatype log_file = NullFile | OpenFile int | ClosedFile

record log_description =
  log_name :: "byte list"
  log_fd :: int
  log_stream :: log_file
  tail_pid :: int
  log_client_id :: int
  next_send_time :: timespec
  send_interval :: int

text \<open>The constructor; the members it leaves unset keep the contents of the given object.\<close>

definition LogDescription ::
  "'w os_api \<Rightarrow> byte list \<Rightarrow> log_description \<Rightarrow> 'w \<Rightarrow> log_description \<times> 'w" where
  "LogDescription api flename d w =
     (let (now, w1) = sys_clock api w in
      (d\<lparr>tail_pid := -1, log_name := cstr flename, next_send_time := now, send_interval := 10000000\<rparr>, w1))"

definition fclose :: "'w os_api \<Rightarrow> log_file \<Rightarrow> 'w \<Rightarrow> 'w result" where
  "fclose api f w =
     (case f of NullFile \<Rightarrow> Inl NullDeref | ClosedFile \<Rightarrow> Inl UseAfterFree
      | OpenFile fd \<Rightarrow> Inr (sys_fclose api w fd))"

definition fgets ::
  "'w os_api \<Rightarrow> log_file \<Rightarrow> byte list \<Rightarrow> int \<Rightarrow> 'w \<Rightarrow> (bool \<times> byte list \<times> 'w) result" where
  "fgets api f buf buf_len w =
     (case f of NullFile \<Rightarrow> Inl NullDeref | ClosedFile \<Rightarrow> Inl UseAfterFree
      | OpenFile fd \<Rightarrow>
          (case sys_fgets api w fd buf_len of
             (None, w1) \<Rightarrow> Inr (False, buf, w1)
           | (Some line, w1) \<Rightarrow>
               bind_r (write_bytes buf 0 (line @ [0])) (\<lambda>buf1. Inr (True, buf1, w1))))"

definition Cleanup :: "'w os_api \<Rightarrow> log_description \<Rightarrow> 'w \<Rightarrow> (log_description \<times> 'w) result" where
  "Cleanup api d w =
     bind_r (fclose api (log_stream d) w) (\<lambda>w1.
     let d1 = d\<lparr>log_stream := ClosedFile\<rparr>; (ret, w2) = sys_waitpid api w1 (tail_pid d) True in
     if ret > 0 \<or> ret < 0 then Inr (d1, w2)
     else Inr (d1, snd (sys_waitpid api (sys_kill api w2 (tail_pid d) 9) (tail_pid d) False)))"

definition Open :: "'w os_api \<Rightarrow> log_description \<Rightarrow> 'w \<Rightarrow> int \<times> log_description \<times> 'w" where
  "Open api d w =
     (let (f, w1) = sys_open api w (log_name d); d1 = d\<lparr>log_fd := f\<rparr> in
      if f = -1 then (-1, d1, w1)
      else
        let (given, w2) = sys_fdopen api w1 f in
        if \<not> given then (-2, d1\<lparr>log_stream := NullFile\<rparr>, w2)
        else (0, d1\<lparr>log_stream := OpenFile f\<rparr>, w2))"

text \<open>\<open>SetNonBlocking\<close> of a log.\<close>

definition log_SetNonBlocking :: "'w os_api \<Rightarrow> log_description \<Rightarrow> 'w \<Rightarrow> int \<times> 'w" where
  "log_SetNonBlocking api d w =
     (let (ret, w1) = sys_fcntl api w (log_fd d) in (if ret < 0 then -1 else 0, w1))"

text \<open>\<open>OpenTail\<close> in the parent.\<close>

definition OpenTail :: "'w os_api \<Rightarrow> log_description \<Rightarrow> 'w \<Rightarrow> (int \<times> log_description \<times> 'w) result" where
  "OpenTail api d w =
     (case sys_pipe api w of
        (None, w1) \<Rightarrow> Inr (-1, d, w1)
      | (Some (rd, wr), w1) \<Rightarrow>
          let (pid, w2) = sys_fork api w1 in
          if pid < 0 then Inr (-2, d, w2)
          else
            let w3 = sys_close api w2 wr; d1 = d\<lparr>tail_pid := pid, log_fd := rd\<rparr>;
                (given, w4) = sys_fdopen api w3 rd in
            if \<not> given then
              bind_r (Cleanup api (d1\<lparr>log_stream := NullFile\<rparr>) w4) (\<lambda>(d2, w5). Inr (-4, d2, w5))
            else
              let d2 = d1\<lparr>log_stream := OpenFile rd\<rparr> in
              Inr (0, d2, snd (log_SetNonBlocking api d2 w4)))"

text \<open>
  \<open>OpenTail\<close> in the child, after \<^verbatim>\<open>fork\<close> has returned 0: \<open>None\<close> when the process becomes \<^verbatim>\<open>tail\<close>,
  otherwise the value with which the child returns into the code of the server.
\<close>

definition tail_args :: "byte list \<Rightarrow> byte list list" where
  "tail_args fname = [bytes_of ''tail'', bytes_of ''-F'', bytes_of ''-n'', bytes_of ''0'', cstr fname]"

definition OpenTail_child ::
  "'w os_api \<Rightarrow> int \<times> int \<Rightarrow> byte list \<Rightarrow> log_description \<Rightarrow> 'w \<Rightarrow> (int option \<times> 'w) result" where
  "OpenTail_child api tailPipe fname d w =
     (if length (log_name d) \<ge> 2048 then Inr (Some (-5), w)
      else
        bind_r (write_bytes fname 0 (log_name d)) (\<lambda>fname1.
        bind_r (write_at fname1 (length (log_name d)) 0) (\<lambda>fname2.
        let w1 = sys_dup2 api (sys_close api w (fst tailPipe)) (snd tailPipe) 1;
            (replaced, w2) = sys_execvp api w1 (tail_args fname2) in
        Inr (if replaced then None else Some (-3), w2))))"

text \<open>The next time a line may be read: one interval after \<^verbatim>\<open>now\<close>.\<close>

definition set_next_time :: "'w os_api \<Rightarrow> log_description \<Rightarrow> 'w \<Rightarrow> log_description \<times> 'w" where
  "set_next_time api d w =
     (let ((sec, nsec), w1) = sys_clock api w in
      (d\<lparr>next_send_time := (sec + (nsec + send_interval d) div 1000000000,
                            (nsec + send_interval d) mod 1000000000)\<rparr>, w1))"

definition GetNextLine ::
  "'w os_api \<Rightarrow> log_description \<Rightarrow> byte list \<Rightarrow> int \<Rightarrow> 'w \<Rightarrow>
   (int \<times> log_description \<times> byte list \<times> 'w) result" where
  "GetNextLine api d buf buf_len w =
     (let w1 = sys_sleep_until api w (next_send_time d) in
      bind_r (fgets api (log_stream d) buf buf_len w1) (\<lambda>(got, buf1, w2).
      if \<not> got then
        if tail_pid d > 0 then
          bind_r (Cleanup api d w2) (\<lambda>(d1, w3). Inr (-2, d1, buf1, w3))
        else
          bind_r (fclose api (log_stream d) w2) (\<lambda>w3.
          bind_r (OpenTail api (d\<lparr>log_stream := ClosedFile\<rparr>) w3) (\<lambda>(ret, d1, w4).
          if ret < 0 then Inr (-3, d1, buf1, w4)
          else
            bind_r (fgets api (log_stream d1) buf1 buf_len w4) (\<lambda>(got2, buf2, w5).
            if \<not> got2 then Inr (1, d1, buf2, w5)
            else let (d2, w6) = set_next_time api d1 w5 in Inr (0, d2, buf2, w6))))
      else let (d1, w3) = set_next_time api d w2 in Inr (0, d1, buf1, w3)))"

section \<open>The list of requests\<close>

text \<open>The list, the number of signals to \<^verbatim>\<open>logs_not_empty_cond\<close>, and the operating system.\<close>

record 'w log_server =
  logs :: "log_description list"
  wakeups :: nat
  os :: 'w

definition add_action :: "byte list" where
  "add_action = bytes_of ''add''"

definition del_action :: "byte list" where
  "del_action = bytes_of ''del''"

text \<open>Whether \<^verbatim>\<open>strncmp\<close> of two strings and a count is 0.\<close>

definition strncmp_eq :: "byte list \<Rightarrow> byte list \<Rightarrow> nat \<Rightarrow> bool" where
  "strncmp_eq s t n \<longleftrightarrow> take n (cstr s) = take n (cstr t)"

definition CheckLogName :: "byte list \<Rightarrow> int" where
  "CheckLogName name = (if strstr name (bytes_of ''..'') \<noteq> None then -1 else 0)"

text \<open>\<open>fresh\<close> is the memory of the local description.\<close>

definition StartReadingLog ::
  "'w os_api \<Rightarrow> log_description \<Rightarrow> 's client \<Rightarrow> byte list \<Rightarrow> 'w log_server \<Rightarrow> int \<times> 'w log_server" where
  "StartReadingLog api fresh c name a =
     (let (log, w1) = LogDescription api name fresh (os a); (ret, log1, w2) = Open api log w1 in
      if ret < 0 then (-1, a\<lparr>os := w2\<rparr>)
      else
        let logs' = logs a @ [log1\<lparr>log_client_id := get_id c\<rparr>] in
        (0, a\<lparr>logs := logs', os := w2, wakeups := wakeups a + (if length logs' = 1 then 1 else 0)\<rparr>))"

primrec stop_loop ::
  "'w os_api \<Rightarrow> int \<Rightarrow> byte list \<Rightarrow> log_description list \<Rightarrow> 'w \<Rightarrow> (log_description list \<times> 'w) result" where
  "stop_loop api client_id name [] w = Inr ([], w)"
| "stop_loop api client_id name (d # ds) w =
     (if log_client_id d = client_id \<and> log_name d = cstr name
      then bind_r (Cleanup api d w) (\<lambda>(_, w1). Inr (ds, w1))
      else bind_r (stop_loop api client_id name ds w) (\<lambda>(ds', w1). Inr (d # ds', w1)))"

definition StopReadingLog ::
  "'w os_api \<Rightarrow> 's client \<Rightarrow> byte list \<Rightarrow> 'w log_server \<Rightarrow> 'w log_server result" where
  "StopReadingLog api c name a =
     bind_r (stop_loop api (get_id c) name (logs a) (os a)) (\<lambda>(ds, w). Inr (a\<lparr>logs := ds, os := w\<rparr>))"

primrec delete_loop ::
  "'w os_api \<Rightarrow> int \<Rightarrow> log_description list \<Rightarrow> 'w \<Rightarrow> (log_description list \<times> 'w) result" where
  "delete_loop api client_id [] w = Inr ([], w)"
| "delete_loop api client_id (d # ds) w =
     (if log_client_id d = client_id
      then bind_r (Cleanup api d w) (\<lambda>(_, w1). delete_loop api client_id ds w1)
      else bind_r (delete_loop api client_id ds w) (\<lambda>(ds', w1). Inr (d # ds', w1)))"

definition DeleteRequestsFromClient :: "'w os_api \<Rightarrow> int \<Rightarrow> 'w log_server \<Rightarrow> 'w log_server result" where
  "DeleteRequestsFromClient api client_id a =
     bind_r (delete_loop api client_id (logs a) (os a)) (\<lambda>(ds, w). Inr (a\<lparr>logs := ds, os := w\<rparr>))"

section \<open>The handlers\<close>

definition OnMessage ::
  "'w os_api \<Rightarrow> log_description \<Rightarrow> 'w log_server \<Rightarrow> 's client \<Rightarrow> byte list \<Rightarrow> int \<Rightarrow>
   ('w log_server \<times> 's client) result" where
  "OnMessage api fresh a sender message len =
     (if CheckLogName message = 0 then
        case strstr message (bytes_of '' '') of
          None \<Rightarrow> Inr (a, sender)
        | Some i \<Rightarrow>
            let file_name = drop (i + 1) message in
            if strncmp_eq add_action message (length add_action) then
              Inr (snd (StartReadingLog api fresh sender file_name a), sender)
            else if strncmp_eq del_action message (length del_action) then
              bind_r (StopReadingLog api sender file_name a) (\<lambda>a1. Inr (a1, sender))
            else Inr (a, sender)
      else Inr (a, sender))"

definition OnDisconnect ::
  "'w os_api \<Rightarrow> 'w log_server \<Rightarrow> 's client \<Rightarrow> ('w log_server \<times> 's client) result" where
  "OnDisconnect api a who =
     bind_r (DeleteRequestsFromClient api (get_id who) a) (\<lambda>a1. Inr (a1, who))"

definition log_handlers ::
  "'w os_api \<Rightarrow> log_description \<Rightarrow> ('w log_server, 's) ws_handlers" where
  "log_handlers api fresh = \<lparr>on_message = OnMessage api fresh, on_disconnect = OnDisconnect api\<rparr>"

section \<open>Reading and sending\<close>

primrec fill_logs :: "log_description list \<Rightarrow> int \<Rightarrow> int result" where
  "fill_logs [] nfds = Inr (nfds + 1)"
| "fill_logs (d # ds) nfds =
     bind_r (fd_set_ok (log_fd d)) (\<lambda>_. fill_logs ds (if log_fd d > nfds then log_fd d else nfds))"

text \<open>
  The body of the loop over the logs, for one that is ready to be read: the description that
  stays, or none when it is erased at once.
\<close>

definition read_log ::
  "'w os_api \<Rightarrow> 's tls_api \<Rightarrow> log_description \<Rightarrow> byte list \<Rightarrow> 's client id_map \<Rightarrow> 'w \<Rightarrow>
   (log_description option \<times> byte list \<times> 's client id_map \<times> 'w) result" where
  "read_log api tls d buf es w =
     (case map_find es (log_client_id d) of
        None \<Rightarrow> bind_r (Cleanup api d w) (\<lambda>(_, w1). Inr (None, buf, es, w1))
      | Some c \<Rightarrow>
          bind_r (GetNextLine api d buf MSG_BUF_LEN w) (\<lambda>(ret, d1, buf1, w1).
          if ret = 0 then
            bind_r (Send tls c (cstr buf1)) (\<lambda>(r, c1).
            Inr (Some d1, buf1, map_put es (log_client_id d) c1, w1))
          else Inr (Some d1, buf1, es, w1)))"

text \<open>The test of the second set: an erased description is cleaned up.\<close>

definition check_except ::
  "'w os_api \<Rightarrow> (int \<Rightarrow> bool) \<Rightarrow> log_description \<Rightarrow> 'w \<Rightarrow> (log_description option \<times> 'w) result" where
  "check_except api except_fds d w =
     bind_r (fd_set_ok (log_fd d)) (\<lambda>_.
     if except_fds (log_fd d) then bind_r (Cleanup api d w) (\<lambda>(_, w1). Inr (None, w1))
     else Inr (Some d, w))"

definition log_step ::
  "'w os_api \<Rightarrow> 's tls_api \<Rightarrow> (int \<Rightarrow> bool) \<Rightarrow> (int \<Rightarrow> bool) \<Rightarrow>
   log_description \<Rightarrow> byte list \<Rightarrow> 's client id_map \<Rightarrow> 'w \<Rightarrow>
   (log_description option \<times> byte list \<times> 's client id_map \<times> 'w) result" where
  "log_step api tls read_fds except_fds d buf es w =
     bind_r (fd_set_ok (log_fd d)) (\<lambda>_.
     bind_r (if read_fds (log_fd d) then read_log api tls d buf es w else Inr (Some d, buf, es, w))
       (\<lambda>(kept, buf1, es1, w1).
     case kept of
       None \<Rightarrow> Inr (None, buf1, es1, w1)
     | Some d1 \<Rightarrow>
         bind_r (check_except api except_fds d1 w1) (\<lambda>(kept2, w2). Inr (kept2, buf1, es1, w2))))"

primrec log_loop ::
  "'w os_api \<Rightarrow> 's tls_api \<Rightarrow> (int \<Rightarrow> bool) \<Rightarrow> (int \<Rightarrow> bool) \<Rightarrow>
   log_description list \<Rightarrow> byte list \<Rightarrow> 's client id_map \<Rightarrow> 'w \<Rightarrow>
   (log_description list \<times> byte list \<times> 's client id_map \<times> 'w) result" where
  "log_loop api tls read_fds except_fds [] buf es w = Inr ([], buf, es, w)"
| "log_loop api tls read_fds except_fds (d # ds) buf es w =
     bind_r (log_step api tls read_fds except_fds d buf es w) (\<lambda>(kept, buf1, es1, w1).
     bind_r (log_loop api tls read_fds except_fds ds buf1 es1 w1) (\<lambda>(ds', buf2, es2, w2).
     Inr ((case kept of None \<Rightarrow> ds' | Some d1 \<Rightarrow> d1 # ds'), buf2, es2, w2)))"

text \<open>What \<^verbatim>\<open>select\<close> returns; on an error it leaves both sets as they were filled.\<close>

definition EINTR :: int where
  "EINTR = 4"

record select_result =
  sel_ret :: int
  sel_errno :: int
  sel_read :: "int \<Rightarrow> bool"
  sel_except :: "int \<Rightarrow> bool"

text \<open>
  One turn of the loop of \<open>Run\<close>. \<open>waited\<close> and \<open>between\<close> are what the message thread does to the
  list while this one waits for the list to be filled, and during \<^verbatim>\<open>select\<close>.
\<close>

record ('s, 'w) log_turn =
  waited :: "'s client id_map \<times> 'w log_server \<Rightarrow> 's client id_map \<times> 'w log_server"
  between :: "'s client id_map \<times> 'w log_server \<Rightarrow> 's client id_map \<times> 'w log_server"
  selected :: select_result

definition Run_turn ::
  "'w os_api \<Rightarrow> 's tls_api \<Rightarrow> ('s, 'w) log_turn \<Rightarrow> byte list \<Rightarrow>
   's client id_map \<times> 'w log_server \<Rightarrow> (byte list \<times> 's client id_map \<times> 'w log_server) result" where
  "Run_turn api tls t buf st =
     (let (es, a) = (if logs (snd st) = [] then waited t st else st) in
      bind_r (fill_logs (logs a) (-1)) (\<lambda>nfds.
      let sel = selected t; (es1, a1) = between t (es, a); filled = (\<lambda>fd. fd \<in> log_fd ` set (logs a)) in
      if sel_ret sel < 0 \<and> sel_errno sel = EINTR \<or> sel_ret sel = 0 then Inr (buf, es1, a1)
      else
        let read_fds = (if sel_ret sel < 0 then filled else sel_read sel);
            except_fds = (if sel_ret sel < 0 then filled else sel_except sel) in
        bind_r (log_loop api tls read_fds except_fds (logs a1) buf es1 (os a1)) (\<lambda>(ds, buf1, es2, w).
        Inr (buf1, es2, a1\<lparr>logs := ds, os := w\<rparr>))))"

text \<open>The loop until \<^verbatim>\<open>stop\<close> is seen, over the turns it takes.\<close>

primrec Run_turns ::
  "'w os_api \<Rightarrow> 's tls_api \<Rightarrow> ('s, 'w) log_turn list \<Rightarrow> byte list \<Rightarrow>
   's client id_map \<times> 'w log_server \<Rightarrow> (byte list \<times> 's client id_map \<times> 'w log_server) result" where
  "Run_turns api tls [] buf st = Inr (buf, st)"
| "Run_turns api tls (t # ts) buf st =
     bind_r (Run_turn api tls t buf st) (\<lambda>(buf1, st1). Run_turns api tls ts buf1 st1)"

section \<open>The program\<close>

text \<open>
  \<open>LogServer::Run\<close>: the first components are the results of the thread creations; no value is
  returned when the loop ends.
\<close>

definition LogServer_Run ::
  "'w os_api \<Rightarrow> 's tls_api \<Rightarrow> int \<times> int \<Rightarrow> int \<times> int \<Rightarrow> int \<Rightarrow> ('s, 'w) log_turn list \<Rightarrow> byte list \<Rightarrow>
   's server \<Rightarrow> 'w log_server \<Rightarrow> (int option \<times> 's server \<times> 'w log_server) result" where
  "LogServer_Run api tls create1 create2 errno ts buf srv a =
     (let (ret, srv1) = Run create1 create2 errno srv in
      if ret < 0 then Inr (Some (-1), srv1, a)
      else
        bind_r (Run_turns api tls ts buf (clients srv1, a)) (\<lambda>(_, es, a1).
        Inr (None, srv1\<lparr>clients := es\<rparr>, a1)))"

text \<open>The constructor: the list is empty.\<close>

definition LogServer ::
  "int \<Rightarrow> int \<Rightarrow> string \<Rightarrow> string \<Rightarrow> 's server \<Rightarrow> 'w \<Rightarrow> 's server \<times> 'w log_server" where
  "LogServer p q cf pkf srv w = (WebSocketServer p q cf pkf srv, \<lparr>logs = [], wakeups = 0, os = w\<rparr>)"

text \<open>\<^verbatim>\<open>atoi\<close>: white space, a sign, digits up to the first other character.\<close>

fun digits_value :: "string \<Rightarrow> int \<Rightarrow> int" where
  "digits_value [] n = n"
| "digits_value (c # cs) n =
     (if CHR ''0'' \<le> c \<and> c \<le> CHR ''9'' then digits_value cs (10 * n + (of_char c - 48)) else n)"

definition atoi :: "string \<Rightarrow> int" where
  "atoi s =
     (let t = dropWhile (\<lambda>c. c = CHR '' '' \<or> (9 :: nat) \<le> of_char c \<and> (of_char c :: nat) \<le> 13) s in
      case t of
        [] \<Rightarrow> 0
      | c # cs \<Rightarrow>
          if c = CHR ''-'' then - digits_value cs 0
          else if c = CHR ''+'' then digits_value cs 0 else digits_value t 0)"

text \<open>\<open>main\<close> up to the call of \<open>Run\<close>: the servers it runs, or none when the usage is printed.\<close>

definition main_server :: "string list \<Rightarrow> 's server \<Rightarrow> 'w \<Rightarrow> ('s server \<times> 'w log_server) option" where
  "main_server argv srv w =
     (if length argv < 4 then None
      else Some (LogServer (atoi (argv ! 1)) 10 (argv ! 2) (argv ! 3) srv w))"

end
