(* ===== verification/Log_Laws.thy ===== *)
theory Log_Laws
  imports LogServer Server_Laws
begin

text \<open>
  The laws of the log server: what a message asks for, the two handlers as updates of the list of
  requests and their interpretation as handlers of the web-socket server, reading a line, and
  one turn of the loop over the logs.
\<close>

section \<open>Requests\<close>

definition request :: "log_description \<Rightarrow> int \<times> byte list" where
  "request d = (log_client_id d, log_name d)"

definition requests :: "'w log_server \<Rightarrow> (int \<times> byte list) list" where
  "requests a = map request (logs a)"

text \<open>What a message asks for: the name is what follows the first space.\<close>

datatype wish = AddLog "byte list" | DelLog "byte list" | Ignored

definition request_of :: "byte list \<Rightarrow> wish" where
  "request_of m =
     (if sublist [46, 46] m \<or> 32 \<notin> set m then Ignored
      else
        let name = tl (dropWhile (\<lambda>b. b \<noteq> 32) m) in
        if prefix (bytes_of ''add'') m then AddLog name
        else if prefix (bytes_of ''del'') m then DelLog name
        else Ignored)"

lemma find_sub_None_iff: "find_sub s pat = None \<longleftrightarrow> \<not> sublist pat s"
proof
  assume none: "find_sub s pat = None"
  show "\<not> sublist pat s"
  proof
    assume "sublist pat s"
    then obtain ps ss where s: "s = ps @ pat @ ss" by (auto simp: sublist_def)
    with find_sub_None [OF none, of "length ps"] show False by simp
  qed
next
  assume no: "\<not> sublist pat s"
  show "find_sub s pat = None"
  proof (cases "find_sub s pat")
    case (Some i)
    then have "prefix pat (drop i s)" using find_sub_Some by blast
    then have "sublist pat (drop i s)" by simp
    with no show ?thesis using sublist_drop sublist_order.order_trans by blast
  qed simp
qed

lemma find_sub_char: "find_sub s [c] = (if c \<in> set s then Some (length (takeWhile (\<lambda>b. b \<noteq> c) s)) else None)"
  by (induction s) (auto simp: prefix_def)

lemma cstr_nonzero: "0 \<notin> set (cstr buf)"
  using cstr_no_zero by blast

lemma strncmp_eq_prefix:
  assumes "0 \<notin> set s"
  shows "strncmp_eq s buf (length s) \<longleftrightarrow> prefix s (cstr buf)"
  using assms by (auto simp: strncmp_eq_def cstr_id prefix_def) (metis append_take_drop_id)

lemma message_literals: "bytes_of '' '' = [32]" "bytes_of ''..'' = [46, 46]"
  by (simp_all add: bytes_of_def)

lemma length_takeWhile_found: "x \<in> set xs \<Longrightarrow> length (takeWhile (\<lambda>b. b \<noteq> x) xs) < length xs"
  by (induction xs) auto

text \<open>The message is read as a C string only.\<close>

lemma name_of_message:
  assumes "strstr buf [32] = Some i"
  shows "cstr (drop (i + 1) buf) = tl (dropWhile (\<lambda>b. b \<noteq> 32) (cstr buf))" and "32 \<in> set (cstr buf)"
proof -
  have i: "32 \<in> set (cstr buf)" "i = length (takeWhile (\<lambda>b. b \<noteq> 32) (cstr buf))"
    using assms by (auto simp: strstr_def find_sub_char split: if_splits)
  show "32 \<in> set (cstr buf)" by (rule i(1))
  have "i < length (cstr buf)"
    using i length_takeWhile_found by simp
  then show "cstr (drop (i + 1) buf) = tl (dropWhile (\<lambda>b. b \<noteq> 32) (cstr buf))"
    using drop_cstr [of "i + 1" buf] i(2)
    by (simp add: dropWhile_eq_drop drop_Suc tl_drop)
qed

section \<open>The handlers as updates of the requests\<close>

definition open_log :: "log_description \<Rightarrow> bool" where
  "open_log d \<longleftrightarrow> (\<exists>fd. log_stream d = OpenFile fd)"

definition logs_open :: "'w log_server \<Rightarrow> bool" where
  "logs_open a \<longleftrightarrow> (\<forall>d \<in> set (logs a). open_log d)"

text \<open>The reference for adding: a description is appended when the file opens.\<close>

definition add_request :: "'w os_api \<Rightarrow> int \<Rightarrow> byte list \<Rightarrow> 'w log_server \<Rightarrow> 'w log_server" where
  "add_request api i n a =
     (let (now, w1) = sys_clock api (os a); (f, w2) = sys_open api w1 n in
      if f = -1 then a\<lparr>os := w2\<rparr>
      else
        let (given, w3) = sys_fdopen api w2 f in
        if \<not> given then a\<lparr>os := w3\<rparr>
        else a\<lparr>logs := logs a @ [\<lparr>log_name = n, log_fd = f, log_stream = OpenFile f, tail_pid = -1,
                 log_client_id = i, next_send_time = now, send_interval = 10000000\<rparr>],
               wakeups := wakeups a + (if logs a = [] then 1 else 0), os := w3\<rparr>)"

definition stop_request :: "'w os_api \<Rightarrow> int \<Rightarrow> byte list \<Rightarrow> 'w log_server \<Rightarrow> 'w log_server result" where
  "stop_request api i n a =
     bind_r (stop_loop api i n (logs a) (os a)) (\<lambda>(ds, w). Inr (a\<lparr>logs := ds, os := w\<rparr>))"

definition do_request :: "'w os_api \<Rightarrow> 'w log_server \<Rightarrow> int \<Rightarrow> byte list \<Rightarrow> 'w log_server result" where
  "do_request api a i m =
     (case request_of m of
        AddLog n \<Rightarrow> Inr (add_request api i n a)
      | DelLog n \<Rightarrow> stop_request api i n a
      | Ignored \<Rightarrow> Inr a)"

lemma StartReadingLog_adds: "snd (StartReadingLog api fresh c name a) = add_request api (cl_id c) (cstr name) a"
proof -
  obtain now w1 where 1: "sys_clock api (os a) = (now, w1)" by fastforce
  obtain f w2 where 2: "sys_open api w1 (cstr name) = (f, w2)" by fastforce
  obtain g w3 where 3: "sys_fdopen api w2 f = (g, w3)" by fastforce
  show ?thesis
    by (simp add: StartReadingLog_def LogDescription_def Open_def add_request_def get_id_def 1 2 3 Let_def)
qed

lemma stop_loop_cstr: "stop_loop api i name ds w = stop_loop api i (cstr name) ds w"
  by (induction ds arbitrary: w) (simp_all add: cstr_id cstr_nonzero)

lemma OnMessage_request:
  "OnMessage api fresh a c buf len = bind_r (do_request api a (cl_id c) (cstr buf)) (\<lambda>a'. Inr (a', c))"
proof (cases "sublist [46, 46] (cstr buf)")
  case True
  then have "CheckLogName buf \<noteq> 0"
    using find_sub_None_iff [of "cstr buf" "[46, 46]"] by (simp add: CheckLogName_def strstr_def message_literals del: bytes_of_simps)
  with True show ?thesis by (simp add: OnMessage_def do_request_def request_of_def)
next
  case False
  then have ok: "CheckLogName buf = 0"
    using find_sub_None_iff [of "cstr buf" "[46, 46]"] by (simp add: CheckLogName_def strstr_def message_literals del: bytes_of_simps)
  show ?thesis
  proof (cases "strstr buf [32]")
    case None
    then have "32 \<notin> set (cstr buf)" by (simp add: strstr_def find_sub_char split: if_splits)
    with ok None show ?thesis
      by (simp add: OnMessage_def do_request_def request_of_def message_literals del: bytes_of_simps)
  next
    case (Some i)
    note n = name_of_message [OF Some]
    have act: "strncmp_eq add_action buf (length add_action) \<longleftrightarrow> prefix (bytes_of ''add'') (cstr buf)"
      "strncmp_eq del_action buf (length del_action) \<longleftrightarrow> prefix (bytes_of ''del'') (cstr buf)"
      using strncmp_eq_prefix [of "bytes_of ''add''" buf] strncmp_eq_prefix [of "bytes_of ''del''" buf]
      by (simp_all add: add_action_def del_action_def)
    have stop: "StopReadingLog api c (drop (i + 1) buf) a =
        stop_request api (cl_id c) (tl (dropWhile (\<lambda>b. b \<noteq> 32) (cstr buf))) a"
      using stop_loop_cstr [of api "cl_id c" "drop (i + 1) buf"] n(1)
      by (simp add: StopReadingLog_def stop_request_def get_id_def)
    show ?thesis
      using ok Some False n StartReadingLog_adds [of api fresh c "drop (i + 1) buf" a] stop
      by (simp add: OnMessage_def do_request_def request_of_def act Let_def message_literals bind_r_assoc
          del: bytes_of_simps)
  qed
qed

lemma Cleanup_open:
  assumes "open_log d"
  obtains w' where "Cleanup api d w = Inr (d\<lparr>log_stream := ClosedFile\<rparr>, w')"
proof -
  obtain fd where "log_stream d = OpenFile fd" using assms by (auto simp: open_log_def)
  then have "\<exists>w'. Cleanup api d w = Inr (d\<lparr>log_stream := ClosedFile\<rparr>, w')"
    by (simp add: Cleanup_def fclose_def Let_def case_prod_unfold)
  with that show thesis by blast
qed

text \<open>What the loops leave; \<open>remove1\<close> drops the first occurrence only.\<close>

lemma stop_loop_removes:
  "stop_loop api i n ds w = Inr (ds', w') \<Longrightarrow>
   map request ds' = remove1 (i, cstr n) (map request ds) \<and> set ds' \<subseteq> set ds"
proof (induction ds arbitrary: w ds')
  case (Cons d ds)
  show ?case
  proof (cases "log_client_id d = i \<and> log_name d = cstr n")
    case True
    with Cons.prems show ?thesis by (auto simp: request_def bind_r_eq_Inr)
  next
    case False
    then obtain ds1 where "stop_loop api i n ds w = Inr (ds1, w')" "ds' = d # ds1"
      using Cons.prems by (auto simp: bind_r_eq_Inr)
    with Cons.IH False show ?thesis by (force simp: request_def)
  qed
qed simp

lemma stop_loop_returns:
  assumes "\<forall>d \<in> set ds. open_log d"
  shows "\<exists>r. stop_loop api i n ds w = Inr r"
  using assms
proof (induction ds arbitrary: w)
  case (Cons d ds)
  obtain w1 where "Cleanup api d w = Inr (d\<lparr>log_stream := ClosedFile\<rparr>, w1)"
    using Cleanup_open [of d api w] Cons.prems by auto
  moreover obtain r r1 where "stop_loop api i n ds w = Inr r" "stop_loop api i n ds w1 = Inr r1"
    using Cons by (meson list.set_intros(2))
  ultimately show ?case by (cases r) auto
qed simp

lemma delete_loop_filter:
  "delete_loop api i ds w = Inr (ds', w') \<Longrightarrow> ds' = filter (\<lambda>d. log_client_id d \<noteq> i) ds"
  by (induction ds arbitrary: w ds') (fastforce simp: bind_r_eq_Inr split: if_splits)+

lemma delete_loop_returns:
  assumes "\<forall>d \<in> set ds. open_log d"
  shows "\<exists>r. delete_loop api i ds w = Inr r"
  using assms
proof (induction ds arbitrary: w)
  case (Cons d ds)
  obtain w1 where "Cleanup api d w = Inr (d\<lparr>log_stream := ClosedFile\<rparr>, w1)"
    using Cleanup_open [of d api w] Cons.prems by auto
  moreover obtain r r1 where "delete_loop api i ds w = Inr r" "delete_loop api i ds w1 = Inr r1"
    using Cons by (meson list.set_intros(2))
  ultimately show ?case by (cases r) auto
qed simp

text \<open>The three updates of the list of requests.\<close>

lemma add_request_logs:
  "logs (add_request api i n a) = logs a \<or>
   (\<exists>d. logs (add_request api i n a) = logs a @ [d] \<and> request d = (i, n) \<and> open_log d)"
  by (simp add: add_request_def request_def open_log_def case_prod_unfold Let_def)

lemma add_request_requests:
  "requests (add_request api i n a) = requests a \<or> requests (add_request api i n a) = requests a @ [(i, n)]"
  using add_request_logs [of api i n a] by (auto simp: requests_def)

lemma add_request_open: "logs_open a \<Longrightarrow> logs_open (add_request api i n a)"
  using add_request_logs [of api i n a] by (auto simp: logs_open_def)

text \<open>Whether the file of a request opens and gives a stream.\<close>

definition log_opens :: "'w os_api \<Rightarrow> byte list \<Rightarrow> 'w \<Rightarrow> bool" where
  "log_opens api n w \<longleftrightarrow>
     (let (f, w2) = sys_open api (snd (sys_clock api w)) n in f \<noteq> -1 \<and> fst (sys_fdopen api w2 f))"

lemma add_request_opens:
  "requests (add_request api i n a) = (if log_opens api n (os a) then requests a @ [(i, n)] else requests a)"
  by (simp add: add_request_def requests_def request_def log_opens_def case_prod_unfold Let_def)

lemma request_of_no_zero:
  assumes "0 \<notin> set m" and "request_of m = DelLog n"
  shows "0 \<notin> set n"
proof -
  have "n = tl (dropWhile (\<lambda>b. b \<noteq> 32) m)"
    using assms(2) by (simp add: request_of_def Let_def split: if_splits)
  then have "set n \<subseteq> set m"
    by (metis (mono_tags) list.set_sel(2) set_dropWhileD subset_code(1) tl_Nil)
  with assms(1) show ?thesis by blast
qed

lemma request_of_no_dots:
  assumes "request_of m = AddLog n"
  shows "\<not> sublist [46, 46] n"
proof -
  have n: "n = tl (dropWhile (\<lambda>b. b \<noteq> 32) m)" "\<not> sublist [46, 46] m"
    using assms by (simp_all add: request_of_def Let_def split: if_splits)
  have "suffix n m"
    unfolding n(1) using suffix_dropWhile suffix_order.trans suffix_tl by blast
  with n(2) show ?thesis using suffix_imp_sublist sublist_order.order_trans by blast
qed

lemma stop_request_requests:
  assumes "stop_request api i n a = Inr a'"
  shows "requests a' = remove1 (i, cstr n) (requests a) \<and> set (logs a') \<subseteq> set (logs a)"
proof -
  obtain ds w where "stop_loop api i n (logs a) (os a) = Inr (ds, w)" "a' = a\<lparr>logs := ds, os := w\<rparr>"
    using assms by (auto simp: stop_request_def bind_r_eq_Inr)
  with stop_loop_removes show ?thesis by (simp add: requests_def)
qed

lemma release_requests:
  assumes "DeleteRequestsFromClient api i a = Inr a'"
  shows "logs a' = filter (\<lambda>d. log_client_id d \<noteq> i) (logs a)"
proof -
  obtain ds w where "delete_loop api i (logs a) (os a) = Inr (ds, w)" "a' = a\<lparr>logs := ds, os := w\<rparr>"
    using assms by (auto simp: DeleteRequestsFromClient_def bind_r_eq_Inr)
  with delete_loop_filter show ?thesis by simp
qed

section \<open>The log server as an application of the web-socket server\<close>

definition owned :: "'w log_server \<Rightarrow> int set" where
  "owned a = log_client_id ` set (logs a)"

lemma owned_requests: "owned a = fst ` set (requests a)"
  by (force simp: owned_def requests_def request_def)

lemma do_request_owned:
  assumes "do_request api a i m = Inr a'"
  shows "owned a' \<subseteq> insert i (owned a)" and "logs_open a \<Longrightarrow> logs_open a'"
proof -
  have "owned a' \<subseteq> insert i (owned a) \<and> (logs_open a \<longrightarrow> logs_open a')"
  proof (cases "request_of m")
    case (AddLog n)
    with assms have "a' = add_request api i n a" by (simp add: do_request_def)
    with add_request_requests [of api i n a] add_request_open [of a api i n] show ?thesis
      by (auto simp: owned_requests)
  next
    case (DelLog n)
    with assms have "stop_request api i n a = Inr a'" by (simp add: do_request_def)
    from stop_request_requests [OF this] show ?thesis by (auto simp: owned_def logs_open_def)
  next
    case Ignored
    with assms show ?thesis by (auto simp: do_request_def)
  qed
  then show "owned a' \<subseteq> insert i (owned a)" and "logs_open a \<Longrightarrow> logs_open a'" by simp_all
qed

interpretation lg: ws_app "log_handlers api fresh" "do_request api"
  "\<lambda>a i. DeleteRequestsFromClient api i a" owned logs_open for api fresh
proof
  fix a a' c buf len i m
  show "on_message (log_handlers api fresh) a c buf len =
      bind_r (do_request api a (cl_id c) (cstr buf)) (\<lambda>a'. Inr (a', c))"
    by (simp add: log_handlers_def OnMessage_request)
  show "on_disconnect (log_handlers api fresh) a c =
      bind_r (DeleteRequestsFromClient api (cl_id c) a) (\<lambda>a'. Inr (a', c))"
    by (simp add: log_handlers_def OnDisconnect_def get_id_def)
  show "logs_open a' \<and> owned a' \<subseteq> insert i (owned a)"
    if "logs_open a" "do_request api a i m = Inr a'"
    using do_request_owned [OF that(2)] that(1) by blast
  show "logs_open a' \<and> owned a' \<subseteq> owned a - {i}"
    if "logs_open a" "DeleteRequestsFromClient api i a = Inr a'"
    using release_requests [OF that(2)] that(1) by (auto simp: logs_open_def owned_def)
qed

text \<open>While every stream of the list is open no handler can fault.\<close>

lemma do_request_returns:
  assumes "logs_open a"
  shows "\<exists>a'. do_request api a i m = Inr a'"
proof (cases "request_of m")
  case (DelLog n)
  obtain r where "stop_loop api i n (logs a) (os a) = Inr r"
    using stop_loop_returns assms by (metis logs_open_def)
  with DelLog show ?thesis by (cases r) (simp add: do_request_def stop_request_def)
qed (simp_all add: do_request_def)

lemma release_returns:
  assumes "logs_open a"
  shows "\<exists>a'. DeleteRequestsFromClient api i a = Inr a'"
proof -
  obtain r where "delete_loop api i (logs a) (os a) = Inr r"
    using delete_loop_returns assms by (metis logs_open_def)
  then show ?thesis by (cases r) (simp add: DeleteRequestsFromClient_def)
qed

interpretation lt: ws_total "log_handlers api fresh" "do_request api"
  "\<lambda>a i. DeleteRequestsFromClient api i a" owned logs_open for api fresh
  by unfold_locales (use do_request_returns release_returns in blast)+

section \<open>Reading a line\<close>

text \<open>\<^verbatim>\<open>fgets\<close> stores less than the size of the buffer, the final zero included.\<close>

definition fgets_ok :: "'w os_api \<Rightarrow> bool" where
  "fgets_ok api \<longleftrightarrow>
     (\<forall>w fd n line w'. sys_fgets api w fd n = (Some line, w') \<longrightarrow> int (length line) < n)"

definition ns :: "timespec \<Rightarrow> int" where
  "ns t = fst t * 1000000000 + snd t"

definition normal :: "timespec \<Rightarrow> bool" where
  "normal t \<longleftrightarrow> 0 \<le> snd t \<and> snd t < 1000000000"

lemma next_time_ns:
  "ns (sec + (nsec + i) div 1000000000, (nsec + i) mod 1000000000) = ns (sec, nsec) + i"
  by (simp add: ns_def)

lemma next_time_normal: "normal (sec, (n :: int) mod 1000000000)"
  by (simp add: normal_def)

lemma set_next_time_fields:
  assumes "set_next_time api d w = (d', w')"
  obtains now where "sys_clock api w = (now, w')" "ns (next_send_time d') = ns now + send_interval d"
    "normal (next_send_time d')" "d' = d\<lparr>next_send_time := next_send_time d'\<rparr>"
proof -
  obtain s n w1 where c: "sys_clock api w = ((s, n), w1)" by (metis prod.exhaust)
  with assms have "d' = d\<lparr>next_send_time := (s + (n + send_interval d) div 1000000000,
      (n + send_interval d) mod 1000000000)\<rparr>" "w' = w1"
    by (auto simp: set_next_time_def)
  with that [of "(s, n)"] c show thesis by (simp add: next_time_ns next_time_normal)
qed

lemma fgets_open:
  assumes "fgets_ok api" and "length buf = 2048" and "f = OpenFile fd"
  obtains (line) line w' where "sys_fgets api w fd 2048 = (Some line, w')" "length line < 2048"
      "fgets api f buf 2048 w = Inr (True, line @ 0 # drop (Suc (length line)) buf, w')"
  | (none) w' where "sys_fgets api w fd 2048 = (None, w')" "fgets api f buf 2048 w = Inr (False, buf, w')"
proof -
  obtain r w' where r: "sys_fgets api w fd 2048 = (r, w')" by fastforce
  show thesis
  proof (cases r)
    case None
    with r assms(3) none show ?thesis by (simp add: fgets_def)
  next
    case (Some l)
    with r assms(1) have "length l < 2048" by (fastforce simp: fgets_ok_def)
    with r Some assms(2,3) line show ?thesis by (simp add: fgets_def mem_ok)
  qed
qed

text \<open>Opening a tail gives an open description, keeps the old one, or dies of a null stream.\<close>

lemma OpenTail_outcome:
  "case OpenTail api d w of
     Inl x \<Rightarrow> x = NullDeref
   | Inr (ret, d', w') \<Rightarrow>
       ret = 0 \<and> 0 \<le> tail_pid d' \<and>
         d' = d\<lparr>tail_pid := tail_pid d', log_fd := log_fd d', log_stream := OpenFile (log_fd d')\<rparr> \<or>
       ret < 0 \<and> d' = d"
  by (simp add: OpenTail_def Cleanup_def fclose_def Let_def case_prod_unfold split: option.split)

end
