(* ===== verification/Log_Run.thy ===== *)
theory Log_Run
  imports Log_Laws
begin

text \<open>
  Reading the logs: what \<open>GetNextLine\<close> returns and when, which streams it leaves closed, the
  signals \<open>Cleanup\<close> sends, and what one turn of the loop of \<open>Run\<close> keeps of the list of requests
  and of the map of clients.
\<close>

section \<open>One line\<close>

lemma Cleanup_request: "Cleanup api d w = Inr (d', w') \<Longrightarrow> d' = d\<lparr>log_stream := ClosedFile\<rparr>"
  by (auto simp: Cleanup_def bind_r_eq_Inr Let_def case_prod_unfold split: if_splits)

lemma request_simps [simp]:
  "request (d\<lparr>log_stream := f\<rparr>) = request d"
  "request (d\<lparr>tail_pid := p\<rparr>) = request d"
  "request (d\<lparr>log_fd := i\<rparr>) = request d"
  "request (d\<lparr>next_send_time := t\<rparr>) = request d"
  by (simp_all add: request_def)

lemma fgets_terminates:
  "fgets api f buf n w = Inr (got, buf', w') \<Longrightarrow>
   length buf' = length buf \<and> (got \<longrightarrow> 0 \<in> set buf') \<and> (\<not> got \<longrightarrow> buf' = buf)"
  by (auto simp: fgets_def bind_r_eq_Inr write_bytes_eq_Inr split: log_file.splits option.splits prod.splits)

text \<open>The ways through \<open>GetNextLine\<close> on an open stream.\<close>

text \<open>The end of a plain file: a tail is opened, and a first line read from it.\<close>

lemma GetNextLine_tail:
  assumes "fgets_ok api" and "length buf = 2048" and "log_stream d = OpenFile fd" and "tail_pid d \<le> 0"
    and "sys_fgets api (sys_sleep_until api w (next_send_time d)) fd 2048 = (None, w1)"
  obtains (no_tail) ret w' where
      "OpenTail api (d\<lparr>log_stream := ClosedFile\<rparr>) (sys_fclose api w1 fd) = Inr (ret, d\<lparr>log_stream := ClosedFile\<rparr>, w')"
      "ret < 0" "GetNextLine api d buf 2048 w = Inr (-3, d\<lparr>log_stream := ClosedFile\<rparr>, buf, w')"
  | (tail_fails) "OpenTail api (d\<lparr>log_stream := ClosedFile\<rparr>) (sys_fclose api w1 fd) = Inl NullDeref"
      "GetNextLine api d buf 2048 w = Inl NullDeref"
  | (tail_empty) d1 w2 w' where
      "OpenTail api (d\<lparr>log_stream := ClosedFile\<rparr>) (sys_fclose api w1 fd) = Inr (0, d1, w2)"
      "d1 = d\<lparr>tail_pid := tail_pid d1, log_fd := log_fd d1, log_stream := OpenFile (log_fd d1)\<rparr>"
      "sys_fgets api w2 (log_fd d1) 2048 = (None, w')"
      "GetNextLine api d buf 2048 w = Inr (1, d1, buf, w')"
  | (tail_line) d1 w2 line w3 d' w' where
      "OpenTail api (d\<lparr>log_stream := ClosedFile\<rparr>) (sys_fclose api w1 fd) = Inr (0, d1, w2)"
      "d1 = d\<lparr>tail_pid := tail_pid d1, log_fd := log_fd d1, log_stream := OpenFile (log_fd d1)\<rparr>"
      "sys_fgets api w2 (log_fd d1) 2048 = (Some line, w3)" "set_next_time api d1 w3 = (d', w')"
      "GetNextLine api d buf 2048 w = Inr (0, d', line @ 0 # drop (Suc (length line)) buf, w')"
proof -
  let ?d = "d\<lparr>log_stream := ClosedFile\<rparr>" and ?w = "sys_fclose api w1 fd"
  have step: "GetNextLine api d buf 2048 w = bind_r (OpenTail api ?d ?w) (\<lambda>(ret, d1, w4).
      if ret < 0 then Inr (-3, d1, buf, w4)
      else
        bind_r (fgets api (log_stream d1) buf 2048 w4) (\<lambda>(got2, buf2, w5).
        if \<not> got2 then Inr (1, d1, buf2, w5)
        else let (d2, w6) = set_next_time api d1 w5 in Inr (0, d2, buf2, w6)))"
    using assms(3-5) by (simp add: GetNextLine_def Let_def fgets_def fclose_def)
  note o = OpenTail_outcome [where api = api and d = ?d and w = ?w]
  show thesis
  proof (cases "OpenTail api ?d ?w")
    case (Inl x)
    with o step tail_fails show thesis by simp
  next
    case (Inr r)
    then obtain ret d1 w2 where t: "OpenTail api ?d ?w = Inr (ret, d1, w2)" by (cases r) auto
    show thesis
    proof (cases "ret < 0")
      case True
      with o t step no_tail show thesis by simp
    next
      case False
      with o t have d1: "d1 = ?d\<lparr>tail_pid := tail_pid d1, log_fd := log_fd d1, log_stream := OpenFile (log_fd d1)\<rparr>"
        and r: "ret = 0" by auto
      have e: "d1 = d\<lparr>tail_pid := tail_pid d1, log_fd := log_fd d1, log_stream := OpenFile (log_fd d1)\<rparr>"
        "log_stream d1 = OpenFile (log_fd d1)"
        by (subst d1, simp)+
      from assms(1,2) e(2) show thesis
      proof (cases rule: fgets_open [where w = w2, consumes 3, case_names line none])
        case (line l w3)
        obtain d' w' where "set_next_time api d1 w3 = (d', w')" by fastforce
        with line tail_line [OF t [unfolded r] e(1)] step t r show thesis by simp
      next
        case (none w3)
        with tail_empty [OF t [unfolded r] e(1)] step t r show thesis by simp
      qed
    qed
  qed
qed

lemma GetNextLine_cases:
  assumes "fgets_ok api" and "length buf = 2048" and "log_stream d = OpenFile fd"
  obtains (line) line w1 d' w' where "sys_fgets api (sys_sleep_until api w (next_send_time d)) fd 2048 = (Some line, w1)"
      "set_next_time api d w1 = (d', w')"
      "GetNextLine api d buf 2048 w = Inr (0, d', line @ 0 # drop (Suc (length line)) buf, w')"
  | (tail_ended) w1 w' where "sys_fgets api (sys_sleep_until api w (next_send_time d)) fd 2048 = (None, w1)"
      "0 < tail_pid d" "Cleanup api d w1 = Inr (d\<lparr>log_stream := ClosedFile\<rparr>, w')"
      "GetNextLine api d buf 2048 w = Inr (-2, d\<lparr>log_stream := ClosedFile\<rparr>, buf, w')"
  | (no_tail) w1 ret w' where "sys_fgets api (sys_sleep_until api w (next_send_time d)) fd 2048 = (None, w1)"
      "tail_pid d \<le> 0"
      "OpenTail api (d\<lparr>log_stream := ClosedFile\<rparr>) (sys_fclose api w1 fd) = Inr (ret, d\<lparr>log_stream := ClosedFile\<rparr>, w')"
      "ret < 0" "GetNextLine api d buf 2048 w = Inr (-3, d\<lparr>log_stream := ClosedFile\<rparr>, buf, w')"
  | (tail_fails) w1 where "sys_fgets api (sys_sleep_until api w (next_send_time d)) fd 2048 = (None, w1)"
      "tail_pid d \<le> 0"
      "OpenTail api (d\<lparr>log_stream := ClosedFile\<rparr>) (sys_fclose api w1 fd) = Inl NullDeref"
      "GetNextLine api d buf 2048 w = Inl NullDeref"
  | (tail_empty) w1 d1 w2 w' where "sys_fgets api (sys_sleep_until api w (next_send_time d)) fd 2048 = (None, w1)"
      "tail_pid d \<le> 0"
      "OpenTail api (d\<lparr>log_stream := ClosedFile\<rparr>) (sys_fclose api w1 fd) = Inr (0, d1, w2)"
      "d1 = d\<lparr>tail_pid := tail_pid d1, log_fd := log_fd d1, log_stream := OpenFile (log_fd d1)\<rparr>"
      "sys_fgets api w2 (log_fd d1) 2048 = (None, w')"
      "GetNextLine api d buf 2048 w = Inr (1, d1, buf, w')"
  | (tail_line) w1 d1 w2 line w3 d' w' where
      "sys_fgets api (sys_sleep_until api w (next_send_time d)) fd 2048 = (None, w1)" "tail_pid d \<le> 0"
      "OpenTail api (d\<lparr>log_stream := ClosedFile\<rparr>) (sys_fclose api w1 fd) = Inr (0, d1, w2)"
      "d1 = d\<lparr>tail_pid := tail_pid d1, log_fd := log_fd d1, log_stream := OpenFile (log_fd d1)\<rparr>"
      "sys_fgets api w2 (log_fd d1) 2048 = (Some line, w3)" "set_next_time api d1 w3 = (d', w')"
      "GetNextLine api d buf 2048 w = Inr (0, d', line @ 0 # drop (Suc (length line)) buf, w')"
proof -
  let ?w = "sys_sleep_until api w (next_send_time d)"
  from assms(1,2,3) show thesis
  proof (cases rule: fgets_open [where w = ?w, consumes 3, case_names line none])
    case (line l w1)
    obtain d' w' where "set_next_time api d w1 = (d', w')" by fastforce
    with line that(1) show ?thesis by (simp add: GetNextLine_def Let_def assms(3))
  next
    case (none w1)
    show ?thesis
    proof (cases "0 < tail_pid d")
      case True
      obtain w' where "Cleanup api d w1 = Inr (d\<lparr>log_stream := ClosedFile\<rparr>, w')"
        using Cleanup_open [of d api w1] assms(3) by (auto simp: open_log_def)
      with True none that(2) show ?thesis by (simp add: GetNextLine_def Let_def assms(3))
    next
      case False
      then have "tail_pid d \<le> 0" by simp
      from assms this none(1) show ?thesis
        by (cases rule: GetNextLine_tail [consumes 5]) (erule that(3-6) [OF none(1) \<open>tail_pid d \<le> 0\<close>]; assumption)+
    qed
  qed
qed

text \<open>
  On an open stream \<open>GetNextLine\<close> returns 0 with a terminated line in the buffer, 1 with a new
  \<^verbatim>\<open>tail\<close> that has nothing yet, or a negative code with the stream closed behind the caller's
  back; it dies when the stream of a new \<^verbatim>\<open>tail\<close> cannot be made.
\<close>

lemma GetNextLine_outcome:
  assumes "fgets_ok api" and "length buf = 2048" and "open_log d"
  shows "case GetNextLine api d buf 2048 w of
      Inl x \<Rightarrow> x = NullDeref \<and> tail_pid d \<le> 0
    | Inr (ret, d', buf', w') \<Rightarrow> request d' = request d \<and> length buf' = 2048 \<and>
        (ret = 0 \<and> open_log d' \<and> (\<exists>w1 fd line w2. sys_fgets api w1 fd 2048 = (Some line, w2) \<and>
           cstr buf' = cstr line) \<or>
         ret = 1 \<and> open_log d' \<and> tail_pid d \<le> 0 \<and> buf' = buf \<or>
         ret = (if 0 < tail_pid d then -2 else -3) \<and> d' = d\<lparr>log_stream := ClosedFile\<rparr> \<and> buf' = buf)"
proof -
  obtain fd where fd: "log_stream d = OpenFile fd" using assms(3) by (auto simp: open_log_def)
  have len: "int (length line) < 2048" if "sys_fgets api w1 fd 2048 = (Some line, w2)" for w1 fd line w2
    using assms(1) that unfolding fgets_ok_def by blast
  have next_fields: "request d' = request d1 \<and> log_stream d' = log_stream d1" if "set_next_time api d1 w1 = (d', w2)" for d1 d' w1 w2
    using that by (auto simp: set_next_time_def split: prod.splits)
  from assms(1,2) fd show ?thesis
  proof (cases rule: GetNextLine_cases [where w = w, consumes 3,
        case_names line tail_ended no_tail tail_fails tail_empty tail_line])
    case (line l w1 d' w')
    with fd next_fields [OF line(2)] len [OF line(1)] assms(2) show ?thesis
      by (auto simp: open_log_def cstr_payload)
  next
    case (tail_ended w1 w')
    with assms(2) show ?thesis by simp
  next
    case (no_tail w1 ret w')
    with assms(2) show ?thesis by simp
  next
    case (tail_fails w1)
    then show ?thesis by simp
  next
    case (tail_empty w1 d1 w2 w')
    have "open_log d1" "request d1 = request d" by (subst tail_empty(4); simp add: open_log_def)+
    with tail_empty(2,6) assms(2) show ?thesis by simp
  next
    case (tail_line w1 d1 w2 l w3 d' w')
    have "open_log d1" "request d1 = request d" by (subst tail_line(4); simp add: open_log_def)+
    with next_fields [OF tail_line(6)] len [OF tail_line(5)] assms(2) tail_line(5,7) show ?thesis
      by (auto simp: open_log_def cstr_payload)
  qed
qed

section \<open>Time\<close>

text \<open>
  \<open>now\<close> is the monotonic clock, in nanoseconds: \<^verbatim>\<open>clock_gettime\<close> reads it, the sleep ends no
  earlier than asked (no signal handler interrupts it), and no call turns it back.
\<close>

definition time_ok :: "'w os_api \<Rightarrow> ('w \<Rightarrow> int) \<Rightarrow> bool" where
  "time_ok api now \<longleftrightarrow>
     (\<forall>w t w'. sys_clock api w = (t, w') \<longrightarrow> now w \<le> ns t \<and> ns t \<le> now w') \<and>
     (\<forall>w t. now w \<le> now (sys_sleep_until api w t) \<and> ns t \<le> now (sys_sleep_until api w t)) \<and>
     (\<forall>w fd n r w'. sys_fgets api w fd n = (r, w') \<longrightarrow> now w \<le> now w') \<and>
     (\<forall>w fd. now w \<le> now (sys_fclose api w fd)) \<and>
     (\<forall>w r w'. sys_pipe api w = (r, w') \<longrightarrow> now w \<le> now w') \<and>
     (\<forall>w r w'. sys_fork api w = (r, w') \<longrightarrow> now w \<le> now w') \<and>
     (\<forall>w fd. now w \<le> now (sys_close api w fd)) \<and>
     (\<forall>w fd r w'. sys_fdopen api w fd = (r, w') \<longrightarrow> now w \<le> now w') \<and>
     (\<forall>w fd r w'. sys_fcntl api w fd = (r, w') \<longrightarrow> now w \<le> now w')"

lemma time_okD:
  assumes "time_ok api now"
  shows "sys_clock api w = (t, w') \<Longrightarrow> now w \<le> ns t \<and> ns t \<le> now w'"
    and "max (now w) (ns t) \<le> now (sys_sleep_until api w t)"
    and "sys_fgets api w fd n = (line, w') \<Longrightarrow> now w \<le> now w'"
    and "now w \<le> now (sys_fclose api w fd)"
    and "sys_pipe api w = (p, w') \<Longrightarrow> now w \<le> now w'"
    and "sys_fork api w = (pid, w') \<Longrightarrow> now w \<le> now w'"
    and "now w \<le> now (sys_close api w fd)"
    and "sys_fdopen api w fd = (given, w') \<Longrightarrow> now w \<le> now w'"
    and "sys_fcntl api w fd = (r, w') \<Longrightarrow> now w \<le> now w'"
proof -
  note c1 = assms [unfolded time_ok_def]
  note c2 = conjunct2 [OF c1]
  note c3 = conjunct2 [OF c2]
  note c4 = conjunct2 [OF c3]
  note c5 = conjunct2 [OF c4]
  note c6 = conjunct2 [OF c5]
  note c7 = conjunct2 [OF c6]
  note c8 = conjunct2 [OF c7]
  note c9 = conjunct2 [OF c8]
  show "sys_clock api w = (t, w') \<Longrightarrow> now w \<le> ns t \<and> ns t \<le> now w'" by (rule conjunct1 [OF c1, rule_format])
  show "max (now w) (ns t) \<le> now (sys_sleep_until api w t)" using conjunct1 [OF c2, rule_format] by simp
  show "sys_fgets api w fd n = (line, w') \<Longrightarrow> now w \<le> now w'" by (rule conjunct1 [OF c3, rule_format])
  show "now w \<le> now (sys_fclose api w fd)" by (rule conjunct1 [OF c4, rule_format])
  show "sys_pipe api w = (p, w') \<Longrightarrow> now w \<le> now w'" by (rule conjunct1 [OF c5, rule_format])
  show "sys_fork api w = (pid, w') \<Longrightarrow> now w \<le> now w'" by (rule conjunct1 [OF c6, rule_format])
  show "now w \<le> now (sys_close api w fd)" by (rule conjunct1 [OF c7, rule_format])
  show "sys_fdopen api w fd = (given, w') \<Longrightarrow> now w \<le> now w'" by (rule conjunct1 [OF c8, rule_format])
  show "sys_fcntl api w fd = (r, w') \<Longrightarrow> now w \<le> now w'" by (rule c9 [rule_format])
qed

lemma OpenTail_time:
  assumes "time_ok api now" and "OpenTail api d w = Inr (0, d', w')"
  shows "now w \<le> now w'"
proof -
  note t = time_okD [OF assms(1)]
  obtain rd wr w1 where 1: "sys_pipe api w = (Some (rd, wr), w1)"
    using assms(2) by (auto simp: OpenTail_def split: option.splits prod.splits)
  obtain pid w2 where 2: "sys_fork api w1 = (pid, w2)" by fastforce
  obtain g w3 where 3: "sys_fdopen api (sys_close api w2 wr) rd = (g, w3)" by fastforce
  obtain r w4 where 4: "sys_fcntl api w3 rd = (r, w4)" by fastforce
  have "w' = w4" using assms(2)
    by (simp add: OpenTail_def 1 2 3 4 Let_def log_SetNonBlocking_def bind_r_eq_Inr split: if_splits)
  moreover have "now w \<le> now w1" "now w1 \<le> now w2" "now w2 \<le> now (sys_close api w2 wr)"
    "now (sys_close api w2 wr) \<le> now w3" "now w3 \<le> now w4"
    by (rule t(5) [OF 1], rule t(6) [OF 2], rule t(7), rule t(8) [OF 3], rule t(9) [OF 4])
  ultimately show ?thesis by simp
qed

lemma set_next_time_later:
  assumes "time_ok api now" and "set_next_time api d w = (d', w')"
  shows "now w + send_interval d \<le> ns (next_send_time d') \<and> normal (next_send_time d') \<and>
    ns (next_send_time d') \<le> now w' + send_interval d \<and> send_interval d' = send_interval d"
proof -
  obtain t where t: "sys_clock api w = (t, w')" "ns (next_send_time d') = ns t + send_interval d"
    "normal (next_send_time d')" "d' = d\<lparr>next_send_time := next_send_time d'\<rparr>"
    using set_next_time_fields [OF assms(2)] .
  moreover have "now w \<le> ns t" "ns t \<le> now w'" using time_okD(1) [OF assms(1) t(1)] by simp_all
  moreover have "send_interval d' = send_interval d" by (subst t(4)) simp
  ultimately show ?thesis by simp
qed

lemma GetNextLine_time:
  assumes "time_ok api now" and "fgets_ok api" and "length buf = 2048" and "open_log d"
    and "GetNextLine api d buf 2048 w = Inr (0, d', buf', w')"
  shows "max (now w) (ns (next_send_time d)) + send_interval d \<le> ns (next_send_time d') \<and>
    normal (next_send_time d') \<and> send_interval d' = send_interval d"
proof -
  let ?w = "sys_sleep_until api w (next_send_time d)"
  obtain fd where fd: "log_stream d = OpenFile fd" using assms(4) by (auto simp: open_log_def)
  note t = time_okD [OF assms(1)]
  have sleep: "max (now w) (ns (next_send_time d)) \<le> now ?w" by (rule t(2))
  from assms(2,3) fd show ?thesis
  proof (cases rule: GetNextLine_cases [where w = w, consumes 3,
        case_names line tail_ended no_tail tail_fails tail_empty tail_line])
    case (line l w1 d'' w'')
    with assms(5) set_next_time_later [OF assms(1) line(2)] t(3) [OF line(1)] sleep show ?thesis by auto
  next
    case (tail_line w1 d1 w2 l w3 d'' w'')
    have "send_interval d1 = send_interval d" by (subst tail_line(4)) simp
    with assms(5) tail_line(7) set_next_time_later [OF assms(1) tail_line(6)] t(3) [OF tail_line(1)]
      t(3) [OF tail_line(5)] OpenTail_time [OF assms(1) tail_line(3)] t(4) [of w1 fd] sleep
    show ?thesis by auto
  qed (use assms(5) in auto)
qed

section \<open>One turn of the loop\<close>

lemma OpenTail_request: "OpenTail api d w = Inr (ret, d', w') \<Longrightarrow> request d' = request d"
  using OpenTail_outcome [where api = api and d = d and w = w] by auto (metis request_simps(1-3))+

lemma GetNextLine_request:
  assumes "GetNextLine api d buf n w = Inr (ret, d', buf', w')"
  shows "request d' = request d \<and> length buf' = length buf"
proof -
  have s: "set_next_time api d1 w1 = (d2, w2) \<Longrightarrow> request d2 = request d1" for d1 w1 d2 w2
    by (auto simp: set_next_time_def split: prod.splits)
  obtain got buf1 w1 where f: "fgets api (log_stream d) buf n (sys_sleep_until api w (next_send_time d)) = Inr (got, buf1, w1)"
    using assms by (auto simp: GetNextLine_def Let_def bind_r_eq_Inr)
  note f1 = fgets_terminates [OF f]
  consider (got) "got" | (tail) "\<not> got" "0 < tail_pid d" | (eof) "\<not> got" "\<not> 0 < tail_pid d" by blast
  then show ?thesis
  proof cases
    case got
    with assms f f1 show ?thesis by (auto simp: GetNextLine_def Let_def dest: s split: prod.splits)
  next
    case tail
    with assms f f1 show ?thesis
      by (auto simp: GetNextLine_def Let_def bind_r_eq_Inr dest!: Cleanup_request)
  next
    case eof
    obtain w2 r d1 w3 where t: "OpenTail api (d\<lparr>log_stream := ClosedFile\<rparr>) w2 = Inr (r, d1, w3)"
      and rest: "(if r < 0 then Inr (-3, d1, buf1, w3)
          else bind_r (fgets api (log_stream d1) buf1 n w3) (\<lambda>(got2, buf2, w5).
            if \<not> got2 then Inr (1, d1, buf2, w5)
            else let (d2, w6) = set_next_time api d1 w5 in Inr (0, d2, buf2, w6))) = Inr (ret, d', buf', w')"
      using assms f eof by (auto simp: GetNextLine_def Let_def bind_r_eq_Inr)
    have "request d1 = request d" using OpenTail_request [OF t] by simp
    with rest f1 show ?thesis
      by (auto simp: bind_r_eq_Inr Let_def dest!: s fgets_terminates split: if_splits prod.splits)
  qed
qed

lemma Send_entry:
  assumes "entry_ok (k, c)" and "length m < 2 ^ 31" and "Send tls c m = Inr (r, c')"
  shows "entry_ok (k, c')"
proof -
  have b: "bufs_ok c" "fd_ok c" using assms(1) by (simp_all add: entry_ok_def client_ok_def)
  have keep: "entry_ok (k, c\<lparr>send_buf := sb\<rparr>)" if "length sb = 16001" for sb
    using assms(1) that by (simp add: entry_ok_def client_ok_def bufs_ok_def fd_ok_def)
  have tls: "entry_ok (k, c1\<lparr>tls_connection := s\<rparr>)" if "entry_ok (k, c1)" for c1 :: "'a client" and s
    using that by (simp add: entry_ok_def client_ok_def bufs_ok_def fd_ok_def)
  show ?thesis
  proof (cases "15996 < length m")
    case True
    with Send_steps [OF b(1) assms(2), of tls] assms(3) keep show ?thesis by auto
  next
    case False
    with Send_steps [OF b(1) assms(2), of tls] assms(3) obtain sb where sb: "length sb = 16001"
      "SendFrame tls (c\<lparr>send_buf := sb\<rparr>) (rfc_server_frame (frame_code WS_TEXT_FRAME) m) = Inr (r, c')" by auto
    have "fd_ok (c\<lparr>send_buf := sb\<rparr>)" using b(2) by (simp add: fd_ok_def)
    from SendFrame_cases [OF this, of tls "rfc_server_frame (frame_code WS_TEXT_FRAME) m"] sb keep [OF sb(1)] tls
    show ?thesis by auto
  qed
qed

lemma keys_put: "map_find es k \<noteq> None \<Longrightarrow> keys (map_put es k v) = keys es"
  using map_put_keys [of es k v]
  by (auto simp: keys_def map_find_def dom_map_of_conv_image_fst [symmetric] insert_absorb)

lemma read_log_keeps:
  assumes es: "clients_ok es" and buf: "length buf = 2048"
    and r: "read_log api tls d buf es w = Inr (kept, buf', es', w')"
  shows "length buf' = 2048 \<and> clients_ok es' \<and> keys es' = keys es \<and>
    (\<forall>d'. kept = Some d' \<longrightarrow> request d' = request d \<and> log_client_id d \<in> keys es)"
proof (cases "map_find es (log_client_id d)")
  case None
  with r es buf show ?thesis by (auto simp: read_log_def bind_r_eq_Inr)
next
  case (Some c)
  then have c: "(log_client_id d, c) \<in> set es" by (simp add: map_find_def map_of_SomeD)
  then have k: "log_client_id d \<in> keys es" by (force simp: keys_def)
  obtain ret d1 w1 where g: "GetNextLine api d buf MSG_BUF_LEN w = Inr (ret, d1, buf', w1)" "kept = Some d1"
    "es' = es \<or> (\<exists>rs c1. Send tls c (cstr buf') = Inr (rs, c1) \<and> es' = map_put es (log_client_id d) c1)"
    using r Some by (auto simp: read_log_def bind_r_eq_Inr split: if_splits)
  note q = GetNextLine_request [OF g(1)]
  have "clients_ok es' \<and> keys es' = keys es"
  proof (cases "es' = es")
    case True
    with es show ?thesis by simp
  next
    case False
    then obtain rs c1 where s: "Send tls c (cstr buf') = Inr (rs, c1)" "es' = map_put es (log_client_id d) c1"
      using g(3) by blast
    have "entry_ok (log_client_id d, c)" using es c by (simp add: clients_ok_def)
    moreover have "length (cstr buf') < 2 ^ 31" using length_cstr [of buf'] q buf by simp
    ultimately have "entry_ok (log_client_id d, c1)" using Send_entry s(1) by blast
    with s(2) clients_ok_put [OF es] keys_put [of es "log_client_id d" c1] Some show ?thesis by simp
  qed
  with q g(2) k buf show ?thesis by simp
qed

lemma log_step_keeps:
  assumes es: "clients_ok es" and buf: "length buf = 2048"
    and r: "log_step api tls read_fds except_fds d buf es w = Inr (kept, buf', es', w')"
  shows "length buf' = 2048 \<and> clients_ok es' \<and> keys es' = keys es \<and>
    (\<forall>d'. kept = Some d' \<longrightarrow> request d' = request d \<and> (read_fds (log_fd d) \<longrightarrow> log_client_id d \<in> keys es))"
proof -
  obtain kept1 w1 where
    r1: "(if read_fds (log_fd d) then read_log api tls d buf es w else Inr (Some d, buf, es, w)) =
      Inr (kept1, buf', es', w1)" and k: "kept = None \<or> kept = kept1"
    using r by (auto simp: log_step_def check_except_def bind_r_eq_Inr split: option.splits if_splits)
  show ?thesis
  proof (cases "read_fds (log_fd d)")
    case True
    with r1 have "read_log api tls d buf es w = Inr (kept1, buf', es', w1)" by simp
    from read_log_keeps [OF es buf this] k show ?thesis by auto
  next
    case False
    with r1 k es buf show ?thesis by auto
  qed
qed

lemma log_loop_keeps:
  assumes "log_loop api tls read_fds except_fds ds buf es w = Inr (ds', buf', es', w')"
    and "clients_ok es" and "length buf = 2048"
  shows "clients_ok es' \<and> keys es' = keys es \<and> length buf' = 2048 \<and>
    subseq (map request ds') (map request (filter (\<lambda>d. read_fds (log_fd d) \<longrightarrow> log_client_id d \<in> keys es) ds))"
  using assms
proof (induction ds arbitrary: buf es w ds')
  case Nil
  then show ?case by simp
next
  case (Cons d ds)
  obtain kept buf1 es1 w1 ds1 where
    s: "log_step api tls read_fds except_fds d buf es w = Inr (kept, buf1, es1, w1)"
    and l: "log_loop api tls read_fds except_fds ds buf1 es1 w1 = Inr (ds1, buf', es', w')"
    and ds': "ds' = (case kept of None \<Rightarrow> ds1 | Some d1 \<Rightarrow> d1 # ds1)"
    using Cons.prems(1) by (auto simp: bind_r_eq_Inr)
  note o = log_step_keeps [OF Cons.prems(2,3) s]
  with Cons.IH [OF l] have IH: "clients_ok es'" "keys es' = keys es" "length buf' = 2048"
    "subseq (map request ds1) (map request (filter (\<lambda>d. read_fds (log_fd d) \<longrightarrow> log_client_id d \<in> keys es) ds))"
    by auto
  then show ?case
    using o ds' by (cases kept) (auto simp: list_emb_Cons)
qed

lemma set_subseq: "subseq xs ys \<Longrightarrow> set xs \<subseteq> set ys"
  by (induction rule: list_emb.induct) auto

definition server_ok :: "'s client id_map \<times> 'w log_server \<Rightarrow> bool" where
  "server_ok st \<longleftrightarrow> clients_ok (fst st) \<and> owned (snd st) \<subseteq> keys (fst st)"

definition turn_ok :: "('s, 'w) log_turn \<Rightarrow> bool" where
  "turn_ok t \<longleftrightarrow> (\<forall>st. server_ok st \<longrightarrow> server_ok (waited t st) \<and> server_ok (between t st))"

text \<open>A turn ends after \<^verbatim>\<open>select\<close>, or goes through the list as it is then.\<close>

lemma Run_turn_cases:
  assumes "Run_turn api tls t buf st = Inr (buf', st')"
    and "(if logs (snd st) = [] then waited t st else st) = st0" and "between t st0 = (es1, a1)"
  obtains (skip) "st' = (es1, a1)" "buf' = buf"
      "sel_ret (selected t) < 0 \<and> sel_errno (selected t) = EINTR \<or> sel_ret (selected t) = 0"
  | (loop) rd ex ds es2 w where "st' = (es2, a1\<lparr>logs := ds, os := w\<rparr>)"
      "log_loop api tls rd ex (logs a1) buf es1 (os a1) = Inr (ds, buf', es2, w)"
      "rd = (if sel_ret (selected t) < 0 then (\<lambda>fd. fd \<in> log_fd ` set (logs (snd st0))) else sel_read (selected t))"
      "ex = (if sel_ret (selected t) < 0 then (\<lambda>fd. fd \<in> log_fd ` set (logs (snd st0))) else sel_except (selected t))"
      "\<not> (sel_ret (selected t) < 0 \<and> sel_errno (selected t) = EINTR \<or> sel_ret (selected t) = 0)"
proof (cases "sel_ret (selected t) < 0 \<and> sel_errno (selected t) = EINTR \<or> sel_ret (selected t) = 0")
  case True
  with assms that(1) show thesis
    by (auto simp: Run_turn_def bind_r_eq_Inr Let_def case_prod_unfold)
next
  case False
  define rd where "rd = (if sel_ret (selected t) < 0 then (\<lambda>fd. fd \<in> log_fd ` set (logs (snd st0))) else sel_read (selected t))"
  define ex where "ex = (if sel_ret (selected t) < 0 then (\<lambda>fd. fd \<in> log_fd ` set (logs (snd st0))) else sel_except (selected t))"
  have "bind_r (log_loop api tls rd ex (logs a1) buf es1 (os a1))
      (\<lambda>(ds, buf1, es2, w). Inr (buf1, es2, a1\<lparr>logs := ds, os := w\<rparr>)) = Inr (buf', st')"
    using assms(1,3) False unfolding Run_turn_def assms(2) rd_def ex_def
    by (auto simp: bind_r_eq_Inr [of "fill_logs ds n" for ds n] Let_def case_prod_unfold)
  then obtain ds es2 w where "log_loop api tls rd ex (logs a1) buf es1 (os a1) = Inr (ds, buf', es2, w)"
    "st' = (es2, a1\<lparr>logs := ds, os := w\<rparr>)"
    by (auto simp: bind_r_eq_Inr)
  with that(2) rd_def ex_def False show thesis by blast
qed

lemma Run_turn_keeps:
  assumes "Run_turn api tls t buf st = Inr (buf', st')" and "server_ok st" and "turn_ok t" and "length buf = 2048"
  shows "server_ok st' \<and> length buf' = 2048"
proof -
  define st0 where "st0 = (if logs (snd st) = [] then waited t st else st)"
  obtain es1 a1 where st1: "between t st0 = (es1, a1)" by fastforce
  have "server_ok st0"
    using assms(2) assms(3) [unfolded turn_ok_def, rule_format, OF assms(2)] by (simp add: st0_def)
  then have ok: "server_ok (es1, a1)" using assms(3) st1 by (metis turn_ok_def)
  from assms(1) st0_def [symmetric] st1 show ?thesis
  proof (cases rule: Run_turn_cases [consumes 3, case_names skip loop])
    case skip
    with ok assms(4) show ?thesis by simp
  next
    case (loop rd ex ds es2 w)
    from log_loop_keeps [OF loop(2) _ assms(4)] ok have k: "clients_ok es2" "keys es2 = keys es1" "length buf' = 2048"
      "subseq (map request ds) (map request (filter (\<lambda>d. rd (log_fd d) \<longrightarrow> log_client_id d \<in> keys es1) (logs a1)))"
      by (simp_all add: server_ok_def)
    from set_subseq [OF k(4)] have "set (map request ds) \<subseteq> set (map request (logs a1))" by auto
    then have "log_client_id ` set ds \<subseteq> log_client_id ` set (logs a1)"
      by (force simp: request_def)
    with ok k loop(1) show ?thesis by (auto simp: server_ok_def owned_def)
  qed
qed

lemma Run_turns_keeps:
  assumes "Run_turns api tls ts buf st = Inr (buf', st')" and "server_ok st" and "\<forall>t \<in> set ts. turn_ok t"
    and "length buf = 2048"
  shows "server_ok st'"
  using assms
proof (induction ts arbitrary: buf st)
  case (Cons t ts)
  obtain buf1 st1 where t: "Run_turn api tls t buf st = Inr (buf1, st1)"
    "Run_turns api tls ts buf1 st1 = Inr (buf', st')"
    using Cons.prems(1) by (auto simp: bind_r_eq_Inr)
  with Run_turn_keeps [OF t(1) Cons.prems(2) _ Cons.prems(4)] Cons.IH [OF t(2)] Cons.prems(3) show ?case by simp
qed simp

section \<open>A line goes to its client\<close>

text \<open>Where the line of a ready log goes.\<close>

lemma read_log_sends:
  assumes "fgets_ok api" and "ssl_write_ok tls sent" and "length buf = 2048" and "open_log d"
    and es: "clients_ok es" "map_find es (log_client_id d) = Some c"
    and g: "GetNextLine api d buf 2048 w = Inr (ret, d1, buf1, w1)"
    and r: "read_log api tls d buf es w = Inr (kept, buf', es', w')"
  shows "kept = Some d1 \<and> buf' = buf1 \<and> w' = w1 \<and>
    (\<forall>k. k \<noteq> log_client_id d \<longrightarrow> map_find es' k = map_find es k) \<and>
    (\<exists>c'. map_find es' (log_client_id d) = Some c' \<and>
      (if ret = 0
       then sent (tls_connection c') = sent (tls_connection c) \<or>
         (\<exists>w2 fd line w3. sys_fgets api w2 fd 2048 = (Some line, w3) \<and>
            sent (tls_connection c') =
              sent (tls_connection c) @ rfc_server_frame (frame_code WS_TEXT_FRAME) (cstr line))
       else c' = c))"
proof (cases "ret = 0")
  case False
  with r g es(2) show ?thesis by (auto simp: read_log_def MSG_BUF_LEN_def)
next
  case True
  then obtain rs c1 where s: "Send tls c (cstr buf1) = Inr (rs, c1)"
    and o: "kept = Some d1" "buf' = buf1" "w' = w1" "es' = map_put es (log_client_id d) c1"
    using r g es(2) by (auto simp: read_log_def MSG_BUF_LEN_def bind_r_eq_Inr)
  obtain w2 fd line w3 where l: "sys_fgets api w2 fd 2048 = (Some line, w3)" "cstr buf1 = cstr line"
    using GetNextLine_outcome [OF assms(1,3,4), of w] g True by (auto split: if_splits)
  have "(log_client_id d, c) \<in> set es" using es(2) by (simp add: map_find_def map_of_SomeD)
  then have c: "bufs_ok c" using es(1) by (auto simp: clients_ok_def entry_ok_def client_ok_def)
  have "length line < 2048" using assms(1) l(1) unfolding fgets_ok_def by fastforce
  then have len: "length (cstr buf1) \<le> 15996" using l(2) length_cstr [of line] by simp
  have m: "map_ok es" using es(1) by (simp add: clients_ok_def)
  have "sent (tls_connection c1) = sent (tls_connection c) \<or>
      sent (tls_connection c1) = sent (tls_connection c) @ rfc_server_frame (frame_code WS_TEXT_FRAME) (cstr line)"
    using Send_outcome [OF assms(2) c _ s] len l(2) by (auto split: if_splits)
  then have "sent (tls_connection c1) = sent (tls_connection c) \<or>
      (\<exists>w2 fd line w3. sys_fgets api w2 fd 2048 = (Some line, w3) \<and>
         sent (tls_connection c1) = sent (tls_connection c) @ rfc_server_frame (frame_code WS_TEXT_FRAME) (cstr line))"
    using l(1) by blast
  moreover have "map_find es' = (map_find es)(log_client_id d \<mapsto> c1)" using o(4) map_find_put [OF m] by simp
  ultimately show ?thesis using o(1-3) True by simp
qed

section \<open>Signals\<close>

text \<open>\<open>signals\<close> are the signals the process has sent: \<^verbatim>\<open>kill\<close> sends one, the other calls none.\<close>

definition signals_ok :: "'w os_api \<Rightarrow> ('w \<Rightarrow> (int \<times> int) list) \<Rightarrow> bool" where
  "signals_ok api signals \<longleftrightarrow>
     (\<forall>w p s. signals (sys_kill api w p s) = signals w @ [(p, s)]) \<and>
     (\<forall>w p b. signals (snd (sys_waitpid api w p b)) = signals w) \<and>
     (\<forall>w fd. signals (sys_fclose api w fd) = signals w)"

lemma Cleanup_signals:
  assumes "signals_ok api signals" and "log_stream d = OpenFile fd" and "Cleanup api d w = Inr (d', w')"
  shows "signals w' = signals w @
    (if fst (sys_waitpid api (sys_fclose api w fd) (tail_pid d) True) = 0 then [(tail_pid d, 9)] else [])"
  using assms
  by (auto simp: Cleanup_def fclose_def signals_ok_def Let_def case_prod_unfold split: if_splits)

lemma delete_loop_signals:
  assumes "signals_ok api signals" and "delete_loop api i ds w = Inr (ds', w')"
  shows "\<exists>new. signals w' = signals w @ new \<and> set new \<subseteq> {(tail_pid d, 9) | d. d \<in> set ds \<and> log_client_id d = i}"
  using assms(2)
proof (induction ds arbitrary: w ds')
  case Nil
  then show ?case by simp
next
  case (Cons d ds)
  show ?case
  proof (cases "log_client_id d = i")
    case True
    then obtain d1 w1 where c: "Cleanup api d w = Inr (d1, w1)" "delete_loop api i ds w1 = Inr (ds', w')"
      using Cons.prems by (auto simp: bind_r_eq_Inr)
    then obtain fd where fd: "log_stream d = OpenFile fd"
      by (auto simp: Cleanup_def fclose_def split: log_file.splits)
    note s = Cleanup_signals [OF assms(1) fd c(1)]
    obtain new where "signals w' = signals w1 @ new"
      "set new \<subseteq> {(tail_pid d, 9) | d. d \<in> set ds \<and> log_client_id d = i}"
      using Cons.IH [OF c(2)] by blast
    with s True show ?thesis by (auto split: if_splits)
  next
    case False
    then obtain ds1 where "delete_loop api i ds w = Inr (ds1, w')" using Cons.prems by (auto simp: bind_r_eq_Inr)
    from Cons.IH [OF this] show ?thesis by auto
  qed
qed

lemma stop_loop_first:
  assumes "\<forall>e \<in> set pre. request e \<noteq> (i, cstr n)" and "request d = (i, cstr n)"
  shows "stop_loop api i n (pre @ d # post) w = bind_r (Cleanup api d w) (\<lambda>(_, w1). Inr (pre @ post, w1))"
  using assms(1)
proof (induction pre)
  case Nil
  with assms(2) show ?case by (simp add: request_def)
next
  case (Cons e pre)
  then have "\<not> (log_client_id e = i \<and> log_name e = cstr n)" by (auto simp: request_def)
  then have "stop_loop api i n ((e # pre) @ d # post) w =
      bind_r (stop_loop api i n (pre @ d # post) w) (\<lambda>(ds', w1). Inr (e # ds', w1))" by (auto simp: case_prod_unfold)
  with Cons show ?case by (simp add: bind_r_assoc case_prod_unfold)
qed

text \<open>A description whose stream has been closed cannot be used or dropped any more.\<close>

lemma closed_log_faults:
  assumes "log_stream d = ClosedFile"
  shows "Cleanup api d w = Inl UseAfterFree" and "GetNextLine api d buf n w = Inl UseAfterFree"
  using assms by (simp_all add: Cleanup_def fclose_def GetNextLine_def fgets_def Let_def)

lemma delete_loop_closed:
  assumes "d \<in> set ds" and "log_client_id d = i" and "log_stream d = ClosedFile"
    and "\<forall>e \<in> set ds. log_stream e \<noteq> NullFile"
  shows "delete_loop api i ds w = Inl UseAfterFree"
  using assms
proof (induction ds arbitrary: w)
  case (Cons e ds)
  show ?case
  proof (cases "d = e \<or> log_client_id e = i \<and> log_stream e = ClosedFile")
    case True
    with Cons.prems show ?thesis by (auto simp: closed_log_faults)
  next
    case False
    have "log_client_id e = i \<Longrightarrow> open_log e"
      using False Cons.prems(4) by (cases "log_stream e") (auto simp: open_log_def)
    then have "log_client_id e = i \<Longrightarrow> \<exists>w'. Cleanup api e w = Inr (e\<lparr>log_stream := ClosedFile\<rparr>, w')"
      using Cleanup_open by metis
    moreover have "delete_loop api i ds w1 = Inl UseAfterFree" for w1
      using Cons.IH Cons.prems False by auto
    ultimately show ?thesis by auto
  qed
qed simp

end
