(* ===== verification/Log_Props.thy ===== *)
theory Log_Props
  imports Log_Run Server_Props
begin

text \<open>
  The properties of the log server, alone and on top of the web-socket server, with a small
  operating system for their witnesses: a clock, the lines each descriptor still gives, and
  the running children.
\<close>

section \<open>A small operating system\<close>

record sample_world =
  now_ns :: int
  lines_of :: "int \<Rightarrow> byte list list"
  next_fd :: int
  running_children :: "int list"
  sent_signals :: "(int \<times> int) list"

definition sample_os :: "sample_world os_api" where
  "sample_os = \<lparr>
     sys_open = (\<lambda>w n. if n = [] then (-1, w) else (next_fd w, w\<lparr>next_fd := next_fd w + 1\<rparr>)),
     sys_fdopen = (\<lambda>w fd. (True, w)),
     sys_fclose = (\<lambda>w fd. w),
     sys_fgets = (\<lambda>w fd n. case lines_of w fd of
        l # ls \<Rightarrow> if int (length l) < n then (Some l, w\<lparr>lines_of := (lines_of w)(fd := ls)\<rparr>) else (None, w)
      | [] \<Rightarrow> (None, w)),
     sys_fcntl = (\<lambda>w fd. (0, w)),
     sys_pipe = (\<lambda>w. (Some (next_fd w, next_fd w + 1), w\<lparr>next_fd := next_fd w + 2\<rparr>)),
     sys_close = (\<lambda>w fd. w),
     sys_dup2 = (\<lambda>w a b. w),
     sys_fork = (\<lambda>w. (100 + next_fd w, w\<lparr>running_children := (100 + next_fd w) # running_children w\<rparr>)),
     sys_execvp = (\<lambda>w args. (True, w)),
     sys_waitpid = (\<lambda>w p nohang.
        (if p = -1 then (if running_children w = [] then -1 else 0)
         else if p \<in> set (running_children w) then 0 else -1, w)),
     sys_kill = (\<lambda>w p s. w\<lparr>sent_signals := sent_signals w @ [(p, s)],
        running_children := (if p = -1 then [] else removeAll p (running_children w))\<rparr>),
     sys_clock = (\<lambda>w. ((now_ns w div 1000000000, now_ns w mod 1000000000), w)),
     sys_sleep_until = (\<lambda>w t. w\<lparr>now_ns := max (now_ns w) (ns t)\<rparr>)\<rparr>"

lemma sample_os_ok:
  "fgets_ok sample_os" "time_ok sample_os now_ns" "signals_ok sample_os sent_signals"
  by (auto simp: sample_os_def fgets_ok_def time_ok_def signals_ok_def ns_def split: list.splits if_splits)

definition sample_world :: "int list \<Rightarrow> (int \<Rightarrow> byte list list) \<Rightarrow> sample_world" where
  "sample_world children ls = \<lparr>now_ns = 7000000000, lines_of = ls, next_fd = 20,
     running_children = children, sent_signals = []\<rparr>"

definition sample_log :: "int \<Rightarrow> string \<Rightarrow> int \<Rightarrow> int \<Rightarrow> log_description" where
  "sample_log i n fd pid = \<lparr>log_name = bytes_of n, log_fd = fd, log_stream = OpenFile fd, tail_pid = pid,
     log_client_id = i, next_send_time = (7, 995000000), send_interval = 10000000\<rparr>"

lemma sample_fields [simp]:
  "cl_id (sample_client hs cks) = 0"
  "sent_signals (sample_world kids ls) = []"
  "running_children (sample_world kids ls) = kids"
  "sys_fclose sample_os w fd = w"
  by (simp_all add: sample_client_def sample_world_def sample_os_def)

section \<open>Requests\<close>

text \<open>
  C6: A message changes the list of requests exactly as it asks: with no two dots in it and the
  prefix \<^verbatim>\<open>add\<close> or \<^verbatim>\<open>del\<close>, what follows the first space is the name of a log, which is
  appended for the sender if the file opens, or of whose requests by the sender the first is
  removed. Any other message changes nothing, the client is never touched, and while the
  streams of the list are open no message can make the server fault.
\<close>

theorem OnMessage_refines:
  assumes "logs_open a"
  shows "\<exists>a'. OnMessage api fresh a c buf len = Inr (a', c) \<and> logs_open a' \<and>
    requests a' =
      (case request_of (cstr buf) of
         AddLog n \<Rightarrow> if log_opens api n (os a) then requests a @ [(cl_id c, n)] else requests a
       | DelLog n \<Rightarrow> remove1 (cl_id c, n) (requests a)
       | Ignored \<Rightarrow> requests a)"
proof -
  obtain a' where a': "do_request api a (cl_id c) (cstr buf) = Inr a'" using do_request_returns [OF assms] by blast
  moreover have "logs_open a'" using do_request_owned(2) [OF a' assms] .
  moreover have "cstr n = n" if "request_of (cstr buf) = DelLog n" for n
    using request_of_no_zero [OF cstr_nonzero that] by (rule cstr_id)
  ultimately show ?thesis
    using add_request_opens [of api "cl_id c" _ a] stop_request_requests [of api "cl_id c" _ a a']
    by (auto simp: OnMessage_request do_request_def split: wish.splits)
qed

theorem OnMessage_refines_witness:
  "(\<exists>a'. OnMessage sample_os (sample_log 0 '''' 0 0) \<lparr>logs = [], wakeups = 0, os = sample_world [] (\<lambda>_. [])\<rparr>
      (sample_client True []) (bytes_of ''add /var/log/a'' @ [0]) 14 = Inr (a', sample_client True []) \<and>
    requests a' = [(0, bytes_of ''/var/log/a'')])"
proof -
  let ?a = "\<lparr>logs = [], wakeups = 0, os = sample_world [] (\<lambda>_. [])\<rparr>"
  have "request_of (cstr (bytes_of ''add /var/log/a'' @ [0])) = AddLog (bytes_of ''/var/log/a'')"
    by code_simp
  moreover have "log_opens sample_os (bytes_of ''/var/log/a'') (os ?a)" by code_simp
  ultimately show ?thesis
    using OnMessage_refines [of ?a sample_os "sample_log 0 '''' 0 0" "sample_client True []"
        "bytes_of ''add /var/log/a'' @ [0]" 14]
    by (auto simp: logs_open_def requests_def sample_client_def simp del: bytes_of_simps)
qed

text \<open>
  No name with two dots in a row is ever brought onto the list by a message, whatever it
  says. (Nothing else about a name is checked: any absolute path is accepted.)
\<close>

theorem no_dotdot_name:
  assumes "\<forall>r \<in> set (requests a). \<not> sublist (bytes_of ''..'') (snd r)"
    and "OnMessage api fresh a c buf len = Inr (a', c')"
  shows "\<forall>r \<in> set (requests a'). \<not> sublist (bytes_of ''..'') (snd r)"
proof -
  have d: "do_request api a (cl_id c) (cstr buf) = Inr a'"
    using assms(2) by (auto simp: OnMessage_request bind_r_eq_Inr)
  have name: "\<not> sublist (bytes_of ''..'') n" if "request_of (cstr buf) = AddLog n" for n
    unfolding message_literals using that by (rule request_of_no_dots)
  from d show ?thesis
  proof (cases "request_of (cstr buf)")
    case (AddLog n)
    with d have "a' = add_request api (cl_id c) n a" by (simp add: do_request_def)
    with add_request_requests [of api "cl_id c" n a] name [OF AddLog] assms(1) show ?thesis
      by (auto simp del: bytes_of_simps)
  next
    case (DelLog n)
    with d have "stop_request api (cl_id c) n a = Inr a'" by (simp add: do_request_def)
    from stop_request_requests [OF this] have "set (requests a') \<subseteq> set (requests a)"
      using set_remove1_subset by metis
    with assms(1) show ?thesis by blast
  next
    case Ignored
    with d assms(1) show ?thesis by (simp add: do_request_def)
  qed
qed

theorem no_dotdot_name_witness:
  "\<exists>a'. OnMessage sample_os (sample_log 0 '''' 0 0) \<lparr>logs = [], wakeups = 0, os = sample_world [] (\<lambda>_. [])\<rparr>
     (sample_client True []) (bytes_of ''add ./x'' @ [0]) 7 = Inr (a', sample_client True []) \<and>
     (\<forall>r \<in> set (requests a'). \<not> sublist (bytes_of ''..'') (snd r))"
proof -
  let ?a = "\<lparr>logs = [], wakeups = 0, os = sample_world [] (\<lambda>_. [])\<rparr>"
  obtain a' where a': "do_request sample_os ?a (cl_id (sample_client True [])) (cstr (bytes_of ''add ./x'' @ [0])) = Inr a'"
    using do_request_returns [of ?a sample_os] unfolding logs_open_def by fastforce
  then have m: "OnMessage sample_os (sample_log 0 '''' 0 0) ?a (sample_client True []) (bytes_of ''add ./x'' @ [0]) 7 =
      Inr (a', sample_client True [])" by (simp add: OnMessage_request)
  have "\<forall>r \<in> set (requests ?a). \<not> sublist (bytes_of ''..'') (snd r)" by (simp add: requests_def)
  from no_dotdot_name [OF this m] m show ?thesis by blast
qed



text \<open>
  C35: Stopping a log that is still read as a plain file can kill every process the server may
  signal: its \<open>tail_pid\<close> is -1, so \<open>Cleanup\<close> waits for any child, and while the \<^verbatim>\<open>tail\<close> of another
  log runs and none has ended it goes on to \<^verbatim>\<open>kill(-1, 9)\<close>. This is reached by an ordinary message:
  \<open>del\<close> for a log of the sender, whatever the logs before it.
\<close>

theorem stop_kills_every_process:
  assumes "signals_ok api signals"
    and wait: "\<forall>w. fst (sys_waitpid api w (-1) True) = 0 \<longleftrightarrow> running w \<noteq> {} \<and> ended w = {}"
    and "request_of (cstr buf) = DelLog n" and "logs a = pre @ d # post"
    and "\<forall>e \<in> set pre. request e \<noteq> (cl_id c, n)" and "request d = (cl_id c, n)"
    and "tail_pid d = -1" and "log_stream d = OpenFile fd"
    and "running (sys_fclose api (os a) fd) \<noteq> {}" and "ended (sys_fclose api (os a) fd) = {}"
  shows "\<exists>a'. OnMessage api fresh a c buf len = Inr (a', c) \<and> logs a' = pre @ post \<and>
    signals (os a') = signals (os a) @ [(-1, 9)]"
proof -
  have n: "cstr n = n" using request_of_no_zero [OF cstr_nonzero assms(3)] by (rule cstr_id)
  have "open_log d" using assms(8) by (simp add: open_log_def)
  then obtain w' where w': "Cleanup api d (os a) = Inr (d\<lparr>log_stream := ClosedFile\<rparr>, w')" by (rule Cleanup_open)
  have "fst (sys_waitpid api (sys_fclose api (os a) fd) (tail_pid d) True) = 0"
    using wait assms(7,9,10) by simp
  with Cleanup_signals [OF assms(1,8) w'] have "signals w' = signals (os a) @ [(-1, 9)]"
    using assms(7) by simp
  moreover have "stop_loop api (cl_id c) n (logs a) (os a) = Inr (pre @ post, w')"
    using stop_loop_first [of pre "cl_id c" n d api post "os a"] assms(4-6) w' n by simp
  ultimately show ?thesis
    using assms(3) by (simp add: OnMessage_request do_request_def stop_request_def)
qed

theorem stop_kills_every_process_witness:
  "\<exists>a'. OnMessage sample_os (sample_log 0 '''' 0 0) \<lparr>logs = [sample_log 3 ''/b'' 8 108, sample_log 0 ''/a'' 7 (-1)],
       wakeups = 0, os = sample_world [108] (\<lambda>_. [])\<rparr> (sample_client True []) (bytes_of ''del /a'' @ [0]) 6 =
     Inr (a', sample_client True []) \<and> sent_signals (os a') = [(-1, 9)]"
proof -
  let ?w = "sample_world [108] (\<lambda>_. [])"
  let ?a = "\<lparr>logs = [sample_log 3 ''/b'' 8 108, sample_log 0 ''/a'' 7 (-1)], wakeups = 0, os = ?w\<rparr>"
  have wait: "\<forall>w. fst (sys_waitpid sample_os w (-1) True) = 0 \<longleftrightarrow> set (running_children w) \<noteq> {} \<and> {} = ({} :: int set)"
    by (simp add: sample_os_def)
  have r: "request_of (cstr (bytes_of ''del /a'' @ [0])) = DelLog (bytes_of ''/a'')" by code_simp
  have l: "logs ?a = [sample_log 3 ''/b'' 8 108] @ sample_log 0 ''/a'' 7 (-1) # []"
    "\<forall>e \<in> set [sample_log 3 ''/b'' 8 108]. request e \<noteq> (cl_id (sample_client True []), bytes_of ''/a'')"
    "request (sample_log 0 ''/a'' 7 (-1)) = (cl_id (sample_client True []), bytes_of ''/a'')"
    "tail_pid (sample_log 0 ''/a'' 7 (-1)) = -1" "log_stream (sample_log 0 ''/a'' 7 (-1)) = OpenFile 7"
    by (simp_all add: request_def sample_log_def)
  from stop_kills_every_process [OF sample_os_ok(3) wait r l, of "sample_log 0 '''' 0 0" 6]
  show ?thesis by (auto simp del: bytes_of_simps)
qed

section \<open>The log server on the web-socket server\<close>

text \<open>
  C5: Messages are handled in order, each once. On a connection whose peer has sent short text
  frames, and with open streams, the message loop ends: it has handled the first messages of
  the stream one after the other, each as the C string its payload is, and leaves the others
  for later, or it has lost the connection and has released the requests of the client after
  the messages it has handled. It can only be stopped by the assertion on a frame that is cut
  two to five bytes after its start, or by a closing frame that never gets through.
\<close>

theorem messages_handled_in_order:
  assumes "ssl_read_ok tls" and "ssl_stream_ok tls pending" and "ssl_write_ok tls sent"
    and "client_ok c" and "fd_ok c" and "handshaked c" and "length buf = 2048"
    and "short_messages msgs" and "stream pending c = text_frames msgs" and "logs_open a"
  shows "case recv_loop tls (log_handlers api fresh) c buf a of
      None \<Rightarrow> False
    | Some (Inl x) \<Rightarrow> x \<in> {AssertFail, NoReturn}
    | Some (Inr (ret, c', buf', a')) \<Rightarrow> \<exists>n a1. n \<le> length msgs \<and>
        handle_all (do_request api) a (cl_id c) (map (cstr \<circ> snd) (take n msgs)) = Inr a1 \<and>
        (if 0 \<le> ret then a' = a1 \<and> stream pending c' = text_frames (drop n msgs)
         else logs a' = filter (\<lambda>d. log_client_id d \<noteq> cl_id c) (logs a1))"
proof -
  obtain r where r: "recv_loop tls (log_handlers api fresh) c buf a = Some r"
    using lg.recv_loop_total [OF assms(1,2,4,5,7,10)] by blast
  show ?thesis
  proof (cases r)
    case (Inl x)
    from lt.recv_loop_faults [OF assms r [unfolded Inl]] r Inl show ?thesis by simp
  next
    case (Inr t)
    then obtain ret c' buf' a' where t: "recv_loop tls (log_handlers api fresh) c buf a = Some (Inr (ret, c', buf', a'))"
      using r by (cases t) auto
    from lg.recv_loop_in_order [OF assms(1,2,4-9) t] obtain n a1 where "n \<le> length msgs"
      "handle_all (do_request api) a (cl_id c) (map (cstr \<circ> snd) (take n msgs)) = Inr a1"
      "if 0 \<le> ret then a' = a1 \<and> stream pending c' = text_frames (drop n msgs)
       else DeleteRequestsFromClient api (cl_id c) a1 = Inr a'" by blast
    with t release_requests [of api "cl_id c" a1 a'] show ?thesis by (auto split: if_splits)
  qed
qed

theorem messages_handled_in_order_witness:
  "case recv_loop queue_tls (log_handlers sample_os (sample_log 0 '''' 0 0)) (sample_client True [sample_frame])
      (replicate 2048 0) \<lparr>logs = [], wakeups = 0, os = sample_world [] (\<lambda>_. [])\<rparr> of
      None \<Rightarrow> False
    | Some (Inl x) \<Rightarrow> x \<in> {AssertFail, NoReturn}
    | Some (Inr (ret, c', buf', a')) \<Rightarrow> set (requests a') \<subseteq> {(0, bytes_of ''/var/log/a'')}"
proof -
  let ?a = "\<lparr>logs = [], wakeups = 0, os = sample_world [] (\<lambda>_. [])\<rparr>"
  let ?msgs = "[([1, 2, 3, 4], bytes_of ''add /var/log/a'')]"
  have s: "stream (\<lambda>s. concat (chunks s)) (sample_client True [sample_frame]) = text_frames ?msgs"
    by (simp add: text_frames_def sample_frame_def)
  have m: "short_messages ?msgs" by (simp add: short_messages_def)
  have "request_of (bytes_of ''add /var/log/a'') = AddLog (bytes_of ''/var/log/a'')" by code_simp
  then have "do_request sample_os ?a 0 (bytes_of ''add /var/log/a'') = Inr (add_request sample_os 0 (bytes_of ''/var/log/a'') ?a)"
    by (simp add: do_request_def)
  then have h: "set (requests a1) \<subseteq> {(0, bytes_of ''/var/log/a'')}"
    if "handle_all (do_request sample_os) ?a 0 (map (cstr \<circ> snd) (take n ?msgs)) = Inr a1" for n a1
    using that add_request_requests [of sample_os 0 "bytes_of ''/var/log/a''" ?a]
    by (cases n) (auto simp: requests_def cstr_id bytes_of_def)
  have f: "set (requests a2) \<subseteq> set (requests a1)" if "logs a2 = filter P (logs a1)" for P and a1 a2 :: "sample_world log_server"
    using that by (auto simp: requests_def)
  have "logs_open ?a" by (simp add: logs_open_def)
  from messages_handled_in_order [OF queue_tls_ok(1,2,3) sample_client_ok(1,2) _ length_receive_buffer m s this,
      of sample_os "sample_log 0 '''' 0 0"] h f
  show ?thesis
    by (fastforce split: option.splits sum.splits prod.splits if_splits simp del: replicate.simps bytes_of_simps)
qed



text \<open>
  No request outlives its client. A turn of the message thread keeps the map of clients well
  formed and every request on the list under the id of a client of the map, whatever the
  clients send and however many of them go: those that go are taken out of the map only after
  their requests are gone.
\<close>

theorem message_pass_keeps_server:
  assumes "ssl_read_ok tls" and "ssl_stream_ok tls pending" and "length buf = 2048"
    and "logs_open a" and "server_ok (clients (arrived srv), a)"
    and "message_pass tls (log_handlers api fresh) arrived ready srv buf a = Inr (srv', buf', a')"
  shows "server_ok (clients srv', a') \<and> logs_open a' \<and>
    keys (clients srv') \<subseteq> keys (clients (arrived srv)) \<and> id_counter srv' = id_counter (arrived srv)"
proof -
  obtain es where s: "serve_clients tls (log_handlers api fresh) ready (clients (arrived srv)) buf a = Inr (es, buf', a')"
    "srv' = (arrived srv)\<lparr>clients := es\<rparr>"
    using assms(6) by (auto simp: message_pass_def bind_r_eq_Inr Let_def)
  have "clients_ok (clients (arrived srv))" using assms(5) by (simp add: server_ok_def)
  from lg.serve_clients_outcome [OF assms(1,2) s(1) this assms(3,4)] assms(5) s(2) show ?thesis
    by (auto simp: server_ok_def)
qed

theorem message_pass_keeps_server_witness:
  "\<exists>srv' buf' a'. message_pass queue_tls (log_handlers sample_os (sample_log 0 '''' 0 0)) (\<lambda>s. s) (\<lambda>fd. False)
     (sample_server [sample_entry 0, sample_entry 1] 1) (replicate 2048 0)
     \<lparr>logs = [sample_log 1 ''/a'' 7 (-1)], wakeups = 0, os = sample_world [] (\<lambda>_. [])\<rparr> = Inr (srv', buf', a') \<and>
     server_ok (clients srv', a')"
proof -
  let ?es = "[sample_entry 0, sample_entry 1]"
  let ?a = "\<lparr>logs = [sample_log 1 ''/a'' 7 (-1)], wakeups = 0, os = sample_world [] (\<lambda>_. [])\<rparr>"
  have sock: "fd_set_ok (socket (snd (sample_entry k))) = Inr ()" for k
    by (simp add: sample_entry_def sample_client_def fd_set_ok_def FD_SETSIZE_def del: replicate.simps)
  have ok: "server_ok (clients ((\<lambda>s. s) (sample_server ?es 1)), ?a)" "logs_open ?a"
    using sample_entries_ok
    by (simp_all add: server_ok_def owned_def keys_def sample_entry_def sample_log_def logs_open_def open_log_def)
  obtain r where r: "message_pass queue_tls (log_handlers sample_os (sample_log 0 '''' 0 0)) (\<lambda>s. s) (\<lambda>fd. False)
      (sample_server ?es 1) (replicate 2048 0) ?a = Inr r"
    by (simp add: message_pass_def serve_client_def sock del: replicate.simps)
  then obtain srv' buf' a' where "message_pass queue_tls (log_handlers sample_os (sample_log 0 '''' 0 0)) (\<lambda>s. s) (\<lambda>fd. False)
      (sample_server ?es 1) (replicate 2048 0) ?a = Inr (srv', buf', a')" by (cases r) blast
  with message_pass_keeps_server [OF queue_tls_ok(1,2) length_receive_buffer ok(2,1) this] show ?thesis by blast
qed

text \<open>
  The loop over the logs keeps the same invariant over every sequence of turns: whatever
  \<^verbatim>\<open>select\<close> reports and the files contain, the clients stay well formed and no request is on
  the list whose client is not in the map, if the message thread keeps this meanwhile.
\<close>

theorem Run_turns_keeps_server:
  assumes "Run_turns api tls ts buf st = Inr (buf', st')" and "server_ok st" and "\<forall>t \<in> set ts. turn_ok t"
    and "length buf = 2048"
  shows "server_ok st'"
  using assms by (rule Run_turns_keeps)

theorem Run_turns_keeps_server_witness:
  "\<exists>buf' st'. Run_turns sample_os queue_tls [\<lparr>waited = \<lambda>s. s, between = \<lambda>s. s,
       selected = \<lparr>sel_ret = 0, sel_errno = 0, sel_read = \<lambda>fd. False, sel_except = \<lambda>fd. False\<rparr>\<rparr>]
     (replicate 2048 0) ([sample_entry 0, sample_entry 1],
       \<lparr>logs = [sample_log 1 ''/a'' 7 (-1)], wakeups = 0, os = sample_world [] (\<lambda>_. [])\<rparr>) = Inr (buf', st') \<and>
     server_ok st'"
proof -
  let ?st = "([sample_entry 0, sample_entry 1],
       \<lparr>logs = [sample_log 1 ''/a'' 7 (-1)], wakeups = 0, os = sample_world [] (\<lambda>_. [])\<rparr>)"
  let ?t = "\<lparr>waited = \<lambda>s. s, between = \<lambda>s. s,
       selected = \<lparr>sel_ret = 0, sel_errno = 0, sel_read = \<lambda>fd. False, sel_except = \<lambda>fd. False\<rparr>\<rparr>"
  have ok: "server_ok ?st"
    using sample_entries_ok by (simp add: server_ok_def owned_def keys_def sample_entry_def sample_log_def)
  have t: "\<forall>t \<in> set [?t]. turn_ok t" by (simp add: turn_ok_def)
  have r: "Run_turns sample_os queue_tls [?t] (replicate 2048 0) ?st = Inr (replicate 2048 0, ?st)"
    by (simp add: Run_turn_def sample_log_def fd_set_ok_def FD_SETSIZE_def del: replicate.simps)
  from Run_turns_keeps_server [OF r ok t length_receive_buffer] r show ?thesis by blast
qed

section \<open>Reading and sending lines\<close>

text \<open>
  A line goes to the client that asked for the log and to nobody else: on connections that get
  through, when \<open>GetNextLine\<close> has a line the client of the request is sent exactly one text
  frame with the line up to its first zero byte, or the send has failed; when it has none
  nothing is sent. All other clients stay as they are, and the description stays on the list.
\<close>

theorem line_to_its_client:
  assumes "fgets_ok api" and "ssl_write_ok tls sent" and "turns_end tls rank"
    and "length buf = 2048" and "open_log d" and "clients_ok es"
    and "map_find es (log_client_id d) = Some c"
    and "GetNextLine api d buf 2048 w = Inr (ret, d1, buf1, w1)"
  shows "\<exists>es' c'. read_log api tls d buf es w = Inr (Some d1, buf1, es', w1) \<and>
    (\<forall>k. k \<noteq> log_client_id d \<longrightarrow> map_find es' k = map_find es k) \<and>
    map_find es' (log_client_id d) = Some c' \<and>
    (if ret = 0
     then sent (tls_connection c') = sent (tls_connection c) \<or>
       (\<exists>w2 fd line w3. sys_fgets api w2 fd 2048 = (Some line, w3) \<and>
          sent (tls_connection c') =
            sent (tls_connection c) @ rfc_server_frame (frame_code WS_TEXT_FRAME) (cstr line))
     else c' = c)"
proof -
  have "(log_client_id d, c) \<in> set es" using assms(7) by (simp add: map_find_def map_of_SomeD)
  then have c: "bufs_ok c" "fd_ok c" using assms(6) by (auto simp: clients_ok_def entry_ok_def client_ok_def)
  have "length (cstr buf1) < 2 ^ 31"
    using length_cstr [of buf1] GetNextLine_request [OF assms(8)] assms(4) by simp
  then obtain rs c1 where s: "Send tls c (cstr buf1) = Inr (rs, c1)"
    using Send_returns [OF assms(3) c] by blast
  then obtain r where r: "read_log api tls d buf es w = Inr r"
    using assms(7,8) by (cases "ret = 0") (auto simp: read_log_def MSG_BUF_LEN_def)
  obtain kept buf' es' w' where k: "read_log api tls d buf es w = Inr (kept, buf', es', w')" using r by (cases r) auto
  from read_log_sends [OF assms(1,2,4,5,6,7,8) k] k show ?thesis by auto
qed

definition two_lines :: "int \<Rightarrow> byte list list" where
  "two_lines fd = (if fd = 7 then [[104, 105, 10], [111, 107, 10]] else [])"

lemma sample_first_line:
  assumes "length buf = 2048"
  shows "\<exists>d1 buf1. GetNextLine sample_os (sample_log 0 ''/a'' 7 (-1)) buf 2048 (sample_world [] two_lines) =
    Inr (0, d1, buf1, (sample_world [] two_lines)\<lparr>now_ns := 7995000000,
      lines_of := two_lines(7 := [[111, 107, 10]])\<rparr>) \<and>
    d1 = (sample_log 0 ''/a'' 7 (-1))\<lparr>next_send_time := (8, 5000000)\<rparr>"
  using assms
  by (simp add: GetNextLine_def fgets_def set_next_time_def sample_log_def sample_os_def sample_world_def
      two_lines_def ns_def mem_ok)

theorem line_to_its_client_witness:
  "\<exists>d1 buf1 w1 es' c'. read_log sample_os queue_tls (sample_log 0 ''/a'' 7 (-1)) (replicate 2048 0)
      [sample_entry 0, sample_entry 1] (sample_world [] two_lines) = Inr (Some d1, buf1, es', w1) \<and>
    map_find es' 0 = Some c' \<and> map_find es' 1 = Some (snd (sample_entry 1))"
proof -
  obtain d1 buf1 w1 where g: "GetNextLine sample_os (sample_log 0 ''/a'' 7 (-1)) (replicate 2048 0) 2048
      (sample_world [] two_lines) = Inr (0, d1, buf1, w1)"
    using sample_first_line [OF length_receive_buffer] by blast
  have o: "open_log (sample_log 0 ''/a'' 7 (-1))" by (simp add: open_log_def sample_log_def)
  have i: "log_client_id (sample_log 0 ''/a'' 7 (-1)) = 0" by (simp add: sample_log_def)
  have c: "map_find [sample_entry 0, sample_entry 1] 0 = Some (snd (sample_entry 0))"
    "map_find [sample_entry 0, sample_entry 1] 1 = Some (snd (sample_entry 1))"
    by (simp_all add: map_find_def sample_entry_def)
  from line_to_its_client [OF sample_os_ok(1) queue_tls_ok(3,4) length_receive_buffer o sample_entries_ok _ g]
  show ?thesis unfolding i using c by (metis zero_neq_one)
qed

text \<open>
  C32: Lines are paced. The time set after a line is normalised and lies one interval after the
  clock when the line was read; the next call sleeps until then, so that two lines of a log
  are read at least one interval (10 ms) apart, whatever the log contains.
\<close>

theorem lines_paced:
  assumes "time_ok api now" and "fgets_ok api" and "open_log d" and "length buf = 2048" and "length buf' = 2048"
    and "GetNextLine api d buf 2048 w = Inr (0, d1, buf1, w1)"
    and "GetNextLine api d1 buf' 2048 w' = Inr (0, d2, buf2, w2)"
  shows "now w + send_interval d \<le> ns (next_send_time d1) \<and>
    ns (next_send_time d1) + send_interval d \<le> ns (next_send_time d2) \<and>
    now w' + send_interval d \<le> ns (next_send_time d2) \<and>
    normal (next_send_time d1) \<and> normal (next_send_time d2)"
proof -
  have "open_log d1" using GetNextLine_outcome [OF assms(2,4,3), of w] assms(6) by (auto split: if_splits)
  from GetNextLine_time [OF assms(1,2,4,3,6)] GetNextLine_time [OF assms(1,2,5) this assms(7)]
  show ?thesis by auto
qed

theorem lines_paced_witness:
  "\<exists>d1 buf1 w1 d2 buf2 w2.
    GetNextLine sample_os (sample_log 0 ''/a'' 7 (-1)) (replicate 2048 0) 2048 (sample_world [] two_lines) = Inr (0, d1, buf1, w1) \<and>
    GetNextLine sample_os d1 buf1 2048 w1 = Inr (0, d2, buf2, w2) \<and>
    ns (next_send_time d1) + 10000000 \<le> ns (next_send_time d2)"
proof -
  let ?d = "sample_log 0 ''/a'' 7 (-1)"
  obtain d1 buf1 w1 where g: "GetNextLine sample_os ?d (replicate 2048 0) 2048 (sample_world [] two_lines) = Inr (0, d1, buf1, w1)"
    and d1: "d1 = ?d\<lparr>next_send_time := (8, 5000000)\<rparr>"
      "w1 = (sample_world [] two_lines)\<lparr>now_ns := 7995000000, lines_of := two_lines(7 := [[111, 107, 10]])\<rparr>"
    using sample_first_line [OF length_receive_buffer] by blast
  have len: "length buf1 = 2048" using GetNextLine_request [OF g] length_receive_buffer by metis
  have "\<exists>d2 buf2 w2. GetNextLine sample_os d1 buf1 2048 w1 = Inr (0, d2, buf2, w2)"
    using len by (simp add: d1 GetNextLine_def fgets_def set_next_time_def sample_log_def sample_os_def
        sample_world_def ns_def mem_ok)
  then obtain d2 buf2 w2 where g2: "GetNextLine sample_os d1 buf1 2048 w1 = Inr (0, d2, buf2, w2)" by blast
  have "open_log ?d" by (simp add: open_log_def sample_log_def)
  from lines_paced [OF sample_os_ok(2,1) this length_receive_buffer len g g2] g g2 show ?thesis
    by (auto simp: sample_log_def)
qed

text \<open>
  C36: A log that can no longer be read brings the server down. When \<open>GetNextLine\<close> fails, after the
  end of a \<^verbatim>\<open>tail\<close> or because no \<^verbatim>\<open>tail\<close> can be started, it has closed the stream, but the
  loop ignores the code and keeps the description on the list. From then on reading it again,
  or the disconnect of its client, uses the closed stream.
\<close>

theorem failed_log_breaks_server:
  assumes "fgets_ok api" and "length buf = 2048" and "open_log d"
    and "map_find es (log_client_id d) = Some (c :: 's client)" and "0 \<le> log_fd d" and "log_fd d < 1024"
    and "read_fds (log_fd d)" and "\<not> except_fds (log_fd d)"
    and "GetNextLine api d buf 2048 w = Inr (ret, d1, buf1, w1)" and "ret < 0"
  shows "log_step api tls read_fds except_fds d buf es w = Inr (Some d1, buf1, es, w1) \<and>
    GetNextLine api d1 buf1 2048 w1 = Inl UseAfterFree \<and>
    (\<forall>a (who :: 's client). d1 \<in> set (logs a) \<and> cl_id who = log_client_id d1 \<and> (\<forall>e \<in> set (logs a). log_stream e \<noteq> NullFile) \<longrightarrow>
       OnDisconnect api a who = Inl UseAfterFree)"
proof -
  have d1: "d1 = d\<lparr>log_stream := ClosedFile\<rparr>" "buf1 = buf"
    using GetNextLine_outcome [OF assms(1-3), of w] assms(9,10) by (auto split: if_splits)
  then have "log_stream d1 = ClosedFile" "log_fd d1 = log_fd d" by simp_all
  moreover have "read_log api tls d buf es w = Inr (Some d1, buf1, es, w1)"
    using assms(4,9,10) by (simp add: read_log_def MSG_BUF_LEN_def)
  moreover have "OnDisconnect api a who = Inl UseAfterFree"
    if "d1 \<in> set (logs a)" "cl_id who = log_client_id d1" "\<forall>e \<in> set (logs a). log_stream e \<noteq> NullFile"
    for a and who :: "'s client"
    using delete_loop_closed [OF that(1) that(2) [symmetric] calculation(1) that(3), of api "os a"]
    by (simp add: OnDisconnect_def DeleteRequestsFromClient_def get_id_def)
  ultimately show ?thesis
    using assms(5-8) closed_log_faults(2) [of d1]
    by (simp add: log_step_def check_except_def fd_set_ok_def FD_SETSIZE_def)
qed

theorem failed_log_breaks_server_witness:
  "\<exists>d1 buf1 w1. log_step sample_os queue_tls (\<lambda>fd. True) (\<lambda>fd. False) (sample_log 0 ''/a'' 7 107) (replicate 2048 0)
      [sample_entry 0] (sample_world [] (\<lambda>_. [])) = Inr (Some d1, buf1, [sample_entry 0], w1) \<and>
    OnDisconnect sample_os \<lparr>logs = [d1], wakeups = 0, os = w1\<rparr> (sample_client True []) = Inl UseAfterFree"
proof -
  let ?d = "sample_log 0 ''/a'' 7 107"
  have g: "\<exists>d1 buf1 w1. GetNextLine sample_os ?d (replicate 2048 0) 2048 (sample_world [] (\<lambda>_. [])) = Inr (-2, d1, buf1, w1) \<and>
      log_client_id d1 = 0 \<and> log_stream d1 \<noteq> NullFile"
    by (simp add: GetNextLine_def fgets_def Cleanup_def fclose_def sample_log_def sample_os_def
        sample_world_def ns_def del: replicate.simps)
  then obtain d1 buf1 w1 where g: "GetNextLine sample_os ?d (replicate 2048 0) 2048 (sample_world [] (\<lambda>_. [])) = Inr (-2, d1, buf1, w1)"
    "log_client_id d1 = 0" "log_stream d1 \<noteq> NullFile" by blast
  have o: "open_log ?d" "map_find [sample_entry 0] (log_client_id ?d) = Some (snd (sample_entry 0))"
    "0 \<le> log_fd ?d" "log_fd ?d < 1024"
    by (simp_all add: open_log_def sample_log_def map_find_def sample_entry_def)
  have "log_step sample_os queue_tls (\<lambda>fd. True) (\<lambda>fd. False) ?d (replicate 2048 0)
      [sample_entry 0] (sample_world [] (\<lambda>_. [])) = Inr (Some d1, buf1, [sample_entry 0], w1) \<and>
    OnDisconnect sample_os \<lparr>logs = [d1], wakeups = 0, os = w1\<rparr> (sample_client True []) = Inl UseAfterFree"
    using failed_log_breaks_server [OF sample_os_ok(1) length_receive_buffer o _ _ g(1),
      of "\<lambda>fd. True" "\<lambda>fd. False" queue_tls] g(2,3)
    by (auto simp del: replicate.simps)
  then
  show ?thesis by blast
qed

end
