(* ===== verification/Progress.thy ===== *)
theory Progress
  imports Log_Props
begin

text \<open>
  Progress: bytes that have arrived are served in the same pass. When a read brings a complete
  request and complete frames, the connection is opened and every message is handled before
  the loop of the client ends, and nothing stays in the buffer.
\<close>

section \<open>A connection that is quiet\<close>

text \<open>
  \<open>quiet\<close> singles out states in which all bytes of the peer were read: further reads say so, and
  what is written goes out, perhaps after some waiting, without new bytes.
\<close>

definition quiet_ok :: "'s tls_api \<Rightarrow> ('s \<Rightarrow> bool) \<Rightarrow> bool" where
  "quiet_ok api quiet \<longleftrightarrow>
     (\<forall>s n ret bytes err s'. quiet s \<longrightarrow> SSL_read api s n = ((ret, bytes, err), s') \<longrightarrow>
        ret < 0 \<and> err = SSL_ERROR_WANT_READ \<and> quiet s') \<and>
     (\<forall>s bytes ret err s'. quiet s \<longrightarrow> bytes \<noteq> [] \<longrightarrow> SSL_write api s bytes = ((ret, err), s') \<longrightarrow>
        quiet s' \<and> (0 < ret \<or> err = SSL_ERROR_WANT_READ \<or> err = SSL_ERROR_WANT_WRITE)) \<and>
     (\<forall>s rw s'. quiet s \<longrightarrow> select_rw api s = (rw, s') \<longrightarrow> quiet s')"

lemma send_turns_quiet:
  assumes api: "quiet_ok api quiet" and b: "buffer \<noteq> []"
  shows "quiet (snd es) \<Longrightarrow> send_turns api buffer n es = Some (ret, s') \<Longrightarrow> quiet s' \<and> 0 < ret"
proof (induction n arbitrary: es)
  case (Suc n)
  obtain err s where es: "es = (err, s)" by (cases es)
  obtain rd w s1 where sel: "select_rw api s = ((rd, w), s1)" by (metis prod.exhaust)
  obtain ret1 err1 s2 where wr: "SSL_write api s1 buffer = ((ret1, err1), s2)" by (metis prod.exhaust)
  have "quiet s" using Suc.prems(1) by (simp add: es)
  with api sel have q1: "quiet s1" unfolding quiet_ok_def by blast
  then have q2: "quiet s2" "0 < ret1 \<or> err1 = SSL_ERROR_WANT_READ \<or> err1 = SSL_ERROR_WANT_WRITE"
    using api wr b unfolding quiet_ok_def by blast+
  then show ?case
    using Suc.prems Suc.IH [of "(err, s1)"] Suc.IH [of "(err1, s2)"] q1
    by (auto simp: es send_turn_def sel wr split: if_splits)
qed simp

lemma SendFrame_quiet:
  assumes "quiet_ok api quiet" and "turns_end api rank" and "fd_ok c" and "buffer \<noteq> []"
    and "quiet (tls_connection c)"
  obtains s where "SendFrame api c buffer = Inr (0, c\<lparr>tls_connection := s\<rparr>)" "quiet s"
proof -
  obtain ret s where loop: "send_loop api buffer SSL_ERROR_WANT_WRITE (tls_connection c) = Some (ret, s)"
    using send_loop_returns [OF assms(2)] by (metis prod.exhaust)
  obtain n where "send_turns api buffer n (SSL_ERROR_WANT_WRITE, tls_connection c) = Some (ret, s)"
    using send_loop_turns [OF loop] by blast
  from send_turns_quiet [OF assms(1,4) _ this] assms(5) have "quiet s" "0 < ret" by simp_all
  moreover have "fd_set_ok (socket c) = Inr ()" using assms(3) by (simp add: fd_ok_def fd_set_ok_range)
  ultimately show thesis using that [of s] loop by (simp add: SendFrame_def)
qed

lemma Send_quiet:
  assumes "quiet_ok api quiet" and "turns_end api rank" and "bufs_ok c" and "fd_ok c"
    and "length message \<le> 15996" and "quiet (tls_connection c)"
  obtains c' where "Send api c message = Inr (0, c')" "quiet (tls_connection c')"
proof -
  let ?f = "rfc_server_frame (frame_code WS_TEXT_FRAME) message"
  obtain sb where sb: "Send api c message = SendFrame api (c\<lparr>send_buf := sb\<rparr>) ?f"
    using Send_steps [OF assms(3), of message api] assms(5) by auto
  have "fd_ok (c\<lparr>send_buf := sb\<rparr>)" "?f \<noteq> []" "quiet (tls_connection (c\<lparr>send_buf := sb\<rparr>))"
    using assms(4,6) by (simp_all add: fd_ok_def rfc_server_frame_def)
  then obtain s where "SendFrame api (c\<lparr>send_buf := sb\<rparr>) ?f = Inr (0, c\<lparr>send_buf := sb, tls_connection := s\<rparr>)"
    "quiet s" by (rule SendFrame_quiet [OF assms(1,2)])
  then show thesis by (intro that [of "c\<lparr>send_buf := sb, tls_connection := s\<rparr>"]) (simp_all add: sb)
qed

section \<open>Bytes at hand\<close>

definition held :: "'s client \<Rightarrow> byte list" where
  "held c = take (nat (frame_buf_pos c)) (frame_buf c)"

lemma stream_held: "stream (\<lambda>_. []) c = held c"
  by (simp add: stream_def held_def)

text \<open>With the next read the buffer holds \<open>bs\<close> and the connection is quiet.\<close>

definition at_hand :: "'s tls_api \<Rightarrow> ('s \<Rightarrow> bool) \<Rightarrow> 's client \<Rightarrow> byte list \<Rightarrow> bool" where
  "at_hand api quiet c bs \<longleftrightarrow>
     (\<exists>ret err c1. read_more api c = Inr (ret, err, c1) \<and> (0 < ret \<or> ret < 0 \<and> err = SSL_ERROR_WANT_READ) \<and>
        held c1 = bs \<and> quiet (tls_connection c1))"

text \<open>A read that brings the rest, and a buffer that already holds everything.\<close>

lemma read_more_bytes:
  assumes "ssl_read_ok api" and "client_ok c"
    and "SSL_read api (tls_connection c) (BUF_LEN - frame_buf_pos c) = ((ret, bytes, err), s)" and "0 < ret"
  obtains c1 where "read_more api c = Inr (ret, err, c1)" "buf_only c c1" "filled c1"
    "held c1 = held c @ bytes" "tls_connection c1 = s"
proof -
  let ?p = "nat (frame_buf_pos c)"
  have c: "length (frame_buf c) = 8193" "0 \<le> frame_buf_pos c" "frame_buf_pos c < 8192"
    using assms(2) by (simp_all add: client_ok_def bufs_ok_def BUF_LEN_def)
  have n: "int (length bytes) = ret" "ret \<le> 8192 - frame_buf_pos c"
    using assms(1) [unfolded ssl_read_ok_def, rule_format, OF assms(3,4)] by (simp_all add: BUF_LEN_def)
  have fits: "?p + length bytes \<le> 8193" "nat (frame_buf_pos c + ret) = ?p + length bytes"
    using n c by linarith+
  let ?c = "c\<lparr>tls_connection := s,
      frame_buf := take ?p (frame_buf c) @ bytes @ drop (?p + length bytes) (frame_buf c),
      frame_buf_pos := frame_buf_pos c + ret\<rparr>"
  show thesis
  proof (rule that [of ?c])
    show "read_more api c = Inr (ret, err, ?c)"
      using assms(4) c fits by (simp add: read_more_def assms(3) mem_ok)
    show "buf_only c ?c" "filled ?c" using fits c n assms(4) by (simp_all add: buf_only_def filled_def)
    show "held ?c = held c @ bytes" using fits c by (simp add: held_def)
  qed simp
qed

lemma at_hand_read:
  assumes "ssl_read_ok api" and "client_ok c"
    and "SSL_read api (tls_connection c) (BUF_LEN - frame_buf_pos c) = ((ret, bytes, err), s)"
    and "0 < ret" and "quiet s"
  shows "at_hand api quiet c (held c @ bytes)"
  using read_more_bytes [OF assms(1-4)] assms(4,5) by (metis at_hand_def)

lemma at_hand_quiet:
  assumes "quiet_ok api quiet" and "quiet (tls_connection c)"
  shows "at_hand api quiet c (held c)"
proof -
  obtain ret bytes err s where rd:
    "SSL_read api (tls_connection c) (BUF_LEN - frame_buf_pos c) = ((ret, bytes, err), s)"
    by (metis prod.exhaust)
  have q: "ret < 0" "err = SSL_ERROR_WANT_READ" "quiet s"
    using assms rd unfolding quiet_ok_def by blast+
  then have "read_more api c = Inr (ret, err, c\<lparr>tls_connection := s\<rparr>)" by (simp add: read_more_def rd)
  then show ?thesis using q by (auto simp: at_hand_def held_def)
qed

text \<open>What is in the buffer then.\<close>

lemma at_hand_filled:
  assumes "ssl_read_ok api" and "client_ok c" and "at_hand api quiet c bs"
  obtains ret err c1 where "read_more api c = Inr (ret, err, c1)" "0 < ret \<or> ret < 0 \<and> err = SSL_ERROR_WANT_READ"
    "buf_only c c1" "held c1 = bs" "quiet (tls_connection c1)" "0 \<le> frame_buf_pos c1" "frame_buf_pos c1 \<le> 8192"
    "length bs = nat (frame_buf_pos c1)"
proof -
  obtain ret err s b p where rd:
    "read_more api c = Inr (ret, err, c\<lparr>tls_connection := s, frame_buf := b, frame_buf_pos := p\<rparr>)"
    and b: "length b = 8193" "0 \<le> p" "p \<le> 8192"
    by (rule read_more_result [OF assms(1,2), of "\<lambda>_. []"])
  moreover from b have "length (take (nat p) b) = nat p" by simp
  ultimately show thesis
    using assms(3) by (intro that [OF rd]) (auto simp: at_hand_def buf_only_def held_def)
qed

section \<open>A frame and a request that are at hand\<close>

lemma held_empty: "client_ok c \<Longrightarrow> held c = [] \<longleftrightarrow> frame_buf_pos c = 0"
  by (auto simp: held_def client_ok_def bufs_ok_def)

lemma Receive_next_message:
  assumes api: "ssl_read_ok api" and c: "client_ok c" "handshaked c" and buf: "length buf = 2048"
    and m: "length key = 4" "length payload \<le> 125"
    and bs: "at_hand api quiet c (rfc_client_frame (frame_code WS_TEXT_FRAME) key payload @ rest)"
  obtains c' where "Receive api c buf 2048 = Inr (if rest = [] then READ_SUCCEED else READ_SUCCEED_DATA_AVAILABLE,
      c', payload @ 0 # drop (Suc (length payload)) buf, int (length payload))"
    "buf_only c c'" "client_ok c'" "held c' = rest" "quiet (tls_connection c')"
    "\<And>sent. ssl_write_ok api sent \<Longrightarrow> sent (tls_connection c') = sent (tls_connection c)"
proof -
  let ?f = "rfc_client_frame (frame_code WS_TEXT_FRAME) key payload" and ?n = "length payload"
  have flen: "length ?f = 6 + ?n" using length_client_frame [OF m] .
  obtain ret err c1 where rd: "read_more api c = Inr (ret, err, c1)" "0 < ret \<or> ret < 0 \<and> err = SSL_ERROR_WANT_READ"
    and c1: "buf_only c c1" "held c1 = ?f @ rest" "quiet (tls_connection c1)" "0 \<le> frame_buf_pos c1"
      "frame_buf_pos c1 \<le> 8192" "length (?f @ rest) = nat (frame_buf_pos c1)"
    by (rule at_hand_filled [OF api c(1) bs])
  have whole: "6 + int ?n \<le> frame_buf_pos c1" using c1(4,6) flen by simp
  have fill: "filled c1" using c1(1,5) whole by (simp add: filled_def buf_only_def)
  have f: "begins_frame key payload rest c1"
    using fill m c1(2,6) by (simp add: begins_frame_def held_def)
  from receive_frame_whole [OF f buf whole, of "\<lambda>_. []", unfolded stream_held c1(2)]
  obtain c' where c': "receive_frame buf 2048 c1 = Inr (if frame_buf_pos c' = 0 then READ_SUCCEED
        else READ_SUCCEED_DATA_AVAILABLE, c', payload @ 0 # drop (Suc ?n) buf, int ?n)"
      "buf_only c1 c'" "tls_connection c' = tls_connection c1"
      "frame_buf_pos c' = frame_buf_pos c1 - (6 + int ?n)" "held c' = rest"
    using flen by auto
  have only: "buf_only c c'" by (rule buf_only_trans [OF c1(1) c'(2)])
  have ok: "client_ok c'" using only c(1) c'(4) whole c1(5)
    by (simp add: client_ok_def bufs_ok_def buf_only_def BUF_LEN_def)
  have "Receive api c buf 2048 = receive_frame buf 2048 c1"
    using rd whole c(2) by (auto simp: Receive_def)
  moreover have "sent (tls_connection c') = sent (tls_connection c)" if "ssl_write_ok api sent" for sent
    using read_more_sent [OF that rd(1)] c'(3) by simp
  ultimately show thesis
    using that [OF _ only ok c'(5)] c'(1,3) c1(3) held_empty [OF ok] c'(5) by simp
qed

lemma answer_request_quiet:
  assumes api: "turns_end api rank" "quiet_ok api quiet"
    and c: "bufs_ok c" "fd_ok c" "0 \<le> frame_buf_pos c" "frame_buf_pos c \<le> 8192" "int n \<le> frame_buf_pos c"
    and hs: "hs_type hs = WS_OPENING_FRAME" "hs_key hs = Some key" and key: "length key \<le> 219"
    and quiet: "quiet (tls_connection c)"
  obtains ret c' where "answer_request api hs n c = Inr (ret, c')" "0 \<le> ret" "quiet (tls_connection c')"
proof -
  let ?a = "answer_text (rfc_accept key)" and ?q = "nat (frame_buf_pos c) - n"
  let ?d = "\<lambda>sb. c\<lparr>send_buf := sb, frame_buf := take ?q (drop n (frame_buf c)) @ drop ?q (frame_buf c),
      frame_buf_pos := frame_buf_pos c - int n\<rparr>"
  obtain sb where sb: "answer_request api hs n c = bind_r (SendFrame api (?d sb) ?a)
      (\<lambda>(ret, c4). if ret = -1 then Inr (NETWORK_ERROR, c4)
        else Inr (if frame_buf_pos c4 = 0 then READ_SUCCEED else READ_SUCCEED_DATA_AVAILABLE,
                  c4\<lparr>handshaked := True\<rparr>))"
    using answer_request_steps [OF c(1,3,4) hs c(5) key, of api] by auto
  have "?a \<noteq> []" using length_answer_text [of "rfc_accept key"] length_rfc_accept [of key] by auto
  moreover have "fd_ok (?d sb)" "quiet (tls_connection (?d sb))" using c(2) quiet by (simp_all add: fd_ok_def)
  ultimately obtain s' where "SendFrame api (?d sb) ?a = Inr (0, (?d sb)\<lparr>tls_connection := s'\<rparr>)" "quiet s'"
    using SendFrame_quiet [OF api(2,1)] by metis
  with that [of "if frame_buf_pos c = int n then READ_SUCCEED else READ_SUCCEED_DATA_AVAILABLE"
      "(?d sb)\<lparr>tls_connection := s', handshaked := True\<rparr>"]
  show thesis by (simp add: sb return_codes)
qed

text \<open>
  A request is only looked at after a read that brought bytes, so here the last of them must come
  with this read.
\<close>

lemma Receive_next_request:
  assumes api: "ssl_read_ok api" "turns_end api rank" "quiet_ok api quiet"
    and c: "client_ok c" "fd_ok c" "\<not> handshaked c"
    and tok: "is_token target" "13 \<notin> set proto" "0 \<notin> set proto"
    and ls: "\<forall>l \<in> set ls. good_line l" "accepts ls" and key: "key_of ls = Some key" "length key \<le> 219"
    and rd: "SSL_read api (tls_connection c) (BUF_LEN - frame_buf_pos c) = ((ret, bytes, err), s)" "0 < ret"
    and bs: "held c @ bytes = render_request target proto ls @ rest" and quiet: "quiet s"
  obtains c' where "Receive api c buf n = Inr (HANDSHAKE_SUCCEED, c', buf, n)" "conn_only c c'" "client_ok c'"
    "handshaked c'" "held c' = rest" "quiet (tls_connection c')"
    "\<And>sent. ssl_write_ok api sent \<Longrightarrow>
      sent (tls_connection c') = sent (tls_connection c) @ answer_text (rfc_accept key)"
proof -
  let ?r = "render_request target proto ls" and ?a = "answer_text (rfc_accept key)"
  obtain c1 where c1: "read_more api c = Inr (ret, err, c1)" "buf_only c c1" "filled c1"
    "held c1 = ?r @ rest" "tls_connection c1 = s"
    using read_more_bytes [OF api(1) c(1) rd] bs by metis
  define c2 where "c2 = c1\<lparr>frame_buf := (frame_buf c1)[nat (frame_buf_pos c1) := 0]\<rparr>"
  let ?p = "nat (frame_buf_pos c1)"
  have p: "?p < 8193" "length (frame_buf c1) = 8193" "0 \<le> frame_buf_pos c1" "frame_buf_pos c1 \<le> 8192"
    using c1(3) by (auto simp: filled_def)
  have c2: "terminated c2" "bufs_ok c2" "fd_ok c2" "frame_buf_pos c2 = frame_buf_pos c1" "held c2 = ?r @ rest"
    "tls_connection c2 = s" "\<not> handshaked c2"
    using c1 c p by (simp_all add: c2_def terminated_def filled_def buf_only_def bufs_ok_def fd_ok_def held_def client_ok_def)
  have len: "length (?r @ rest) = ?p" using c2(5) p by (metis c2(4) filled_take held_def c2(1) terminated_def)
  have whole: "length ?r \<le> nat (frame_buf_pos c2)" using len c2(4) by simp
  have pre: "take (nat (frame_buf_pos c2)) (frame_buf c2) = take (nat (frame_buf_pos c2)) (?r @ rest)"
    using c2(4,5) len by (simp add: held_def)
  obtain hs where hs: "hs_type hs = WS_OPENING_FRAME" "hs_key hs = Some key"
    "handshake_frame api c2 = answer_request api hs (length ?r) c2"
    by (rule handshake_frame_request [OF c2(1) tok ls key(1) pre whole])
  have pos: "0 \<le> frame_buf_pos c2" "frame_buf_pos c2 \<le> 8192" "int (length ?r) \<le> frame_buf_pos c2" "4 \<le> length ?r"
    using c2(4) p whole by (linarith, linarith, linarith, simp add: render_request_def rn_def)
  obtain ret' c' where ans: "answer_request api hs (length ?r) c2 = Inr (ret', c')" "0 \<le> ret'" "quiet (tls_connection c')"
    by (rule answer_request_quiet [OF api(2,3) c2(2,3) pos(1-3) hs(1,2) key(2)]) (simp add: c2(6) quiet)
  note o = answer_request_outcome [OF c2(2) pos(1,2) c2(3) hs(1,2) key(2) pos(3,4), of api, unfolded ans(1)]
  have e: "conn_only c2 c'" "opened c2 (length ?r) ret' c'"
    "\<And>sent. ssl_write_ok api sent \<Longrightarrow> sent (tls_connection c') = sent (tls_connection c2) @ ?a"
    using o ans(2) by (auto simp: return_codes)
  have "Handshake api c = handshake_frame api c2"
    using rd(2) p by (simp add: Handshake_def c1(1) c2_def mem_ok)
  then have "Receive api c buf n = Inr (HANDSHAKE_SUCCEED, c', buf, n)"
    using c(3) ans(2) e(2) by (simp add: Receive_def hs(3) ans(1) opened_def)
  moreover have "conn_only c c'" using e(1) c1(2) by (simp add: conn_only_def c2_def buf_only_def)
  moreover have "client_ok c'" "handshaked c'"
    using opened_stream(1,2) [OF c2(1) e(2,1), of "\<lambda>_. []"] by simp_all
  moreover have "held c' = drop (length ?r) (held c2)" using e(2) unfolding opened_def held_def by blast
  moreover have "sent (tls_connection c') = sent (tls_connection c) @ ?a" if "ssl_write_ok api sent" for sent
    using e(3) [OF that] read_more_sent [OF that c1(1)] c1(5) c2(6) by simp
  ultimately show thesis using that [of c'] ans(3) c2(5) by simp
qed

section \<open>The loop of a client\<close>

lemma text_frames_Cons:
  "text_frames (m # ms) = rfc_client_frame (frame_code WS_TEXT_FRAME) (fst m) (snd m) @ text_frames ms"
  by (simp add: text_frames_def case_prod_unfold)

lemma text_frames_empty: "short_messages ms \<Longrightarrow> text_frames ms = [] \<longleftrightarrow> ms = []"
  by (cases ms) (auto simp: text_frames_def short_messages_def rfc_client_frame_short)

context ws_app
begin

lemma turn_at_hand:
  assumes api: "ssl_read_ok api" and c: "client_ok c" "handshaked c" and buf: "length buf = 2048"
    and m: "short_messages (m # ms)" "at_hand api quiet c (text_frames (m # ms))"
    and h: "handle a (cl_id c) (cstr (snd m)) = Inr a1"
  obtains c' buf' where
    "turn api app c buf a = Inr (if ms = [] then READ_SUCCEED else READ_SUCCEED_DATA_AVAILABLE, c', buf', a1)"
    "buf_only c c'" "client_ok c'" "length buf' = 2048" "quiet (tls_connection c')" "held c' = text_frames ms"
    "\<forall>sent. ssl_write_ok api sent \<longrightarrow> sent (tls_connection c') = sent (tls_connection c)"
proof -
  obtain key payload where k: "m = (key, payload)" "length key = 4" "length payload \<le> 125"
    using m(1) by (cases m) (auto simp: short_messages_def)
  have ms: "text_frames ms = [] \<longleftrightarrow> ms = []"
    using m(1) by (intro text_frames_empty) (simp add: short_messages_def)
  from m(2) have "at_hand api quiet c (rfc_client_frame (frame_code WS_TEXT_FRAME) key payload @ text_frames ms)"
    by (simp add: text_frames_Cons k(1))
  from Receive_next_message [OF api c buf k(2,3) this]
  obtain c' where c': "Receive api c buf 2048 = Inr (if text_frames ms = [] then READ_SUCCEED
        else READ_SUCCEED_DATA_AVAILABLE, c', payload @ 0 # drop (Suc (length payload)) buf, int (length payload))"
      "buf_only c c'" "client_ok c'" "held c' = text_frames ms" "quiet (tls_connection c')"
      "\<And>sent. ssl_write_ok api sent \<Longrightarrow> sent (tls_connection c') = sent (tls_connection c)" by metis
  have i: "cl_id c' = cl_id c" using c'(2) by (simp add: buf_only_def)
  have "turn api app c buf a = Inr (if ms = [] then READ_SUCCEED else READ_SUCCEED_DATA_AVAILABLE, c',
      payload @ 0 # drop (Suc (length payload)) buf, a1)"
    using turn_message [OF c'(1) i, of a] h ms by (simp add: k(1))
  moreover have "length (payload @ 0 # drop (Suc (length payload)) buf) = 2048" using buf k(3) by simp
  ultimately show thesis using that c'(2-6) by metis
qed

text \<open>All messages that are at hand are handled before the loop ends.\<close>

lemma recv_loop_serves:
  assumes api: "ssl_read_ok api" "quiet_ok api quiet"
    and "client_ok c" and "handshaked c" and "length buf = 2048"
    and "short_messages ms" and "ms \<noteq> []" and "at_hand api quiet c (text_frames ms)"
    and "handle_all handle a (cl_id c) (map (cstr \<circ> snd) ms) = Inr a'"
  shows "\<exists>c' buf'. recv_loop api app c buf a = Some (Inr (READ_SUCCEED, c', buf', a')) \<and>
    buf_only c c' \<and> client_ok c' \<and> held c' = [] \<and> quiet (tls_connection c') \<and>
    (\<forall>sent. ssl_write_ok api sent \<longrightarrow> sent (tls_connection c') = sent (tls_connection c))"
  using assms(3-9)
proof (induction ms arbitrary: c buf a)
  case (Cons m ms)
  obtain a1 where a1: "handle a (cl_id c) (cstr (snd m)) = Inr a1"
    "handle_all handle a1 (cl_id c) (map (cstr \<circ> snd) ms) = Inr a'"
    using Cons.prems(7) by (auto simp: bind_r_eq_Inr comp_def)
  obtain c1 buf1 where t:
    "turn api app c buf a = Inr (if ms = [] then READ_SUCCEED else READ_SUCCEED_DATA_AVAILABLE, c1, buf1, a1)"
    "buf_only c c1" "client_ok c1" "length buf1 = 2048" "quiet (tls_connection c1)" "held c1 = text_frames ms"
    "\<forall>sent. ssl_write_ok api sent \<longrightarrow> sent (tls_connection c1) = sent (tls_connection c)"
    by (rule turn_at_hand [OF api(1) Cons.prems(1-4,6) a1(1)])
  have ms: "short_messages ms" using Cons.prems(4) by (simp add: short_messages_def)
  have c1: "cl_id c1 = cl_id c" "handshaked c1" using t(2) Cons.prems(2) by (simp_all add: buf_only_def)
  show ?case
  proof (cases "ms = []")
    case True
    then have "recv_loop api app c buf a = Some (Inr (READ_SUCCEED, c1, buf1, a'))"
      using t(1) a1(2) by (subst recv_loop_turn) (simp add: goes_on_def return_codes)
    then show ?thesis using True t by (auto simp: text_frames_def)
  next
    case False
    have "at_hand api quiet c1 (text_frames ms)" using at_hand_quiet [OF api(2) t(5)] t(6) by simp
    from Cons.IH [OF t(3) c1(2) t(4) ms False this, of a1, unfolded c1(1), OF a1(2)]
    obtain c' buf' where r: "recv_loop api app c1 buf1 a1 = Some (Inr (READ_SUCCEED, c', buf', a'))"
      "buf_only c1 c'" "client_ok c'" "held c' = []" "quiet (tls_connection c')"
      "\<forall>sent. ssl_write_ok api sent \<longrightarrow> sent (tls_connection c') = sent (tls_connection c1)" by metis
    have "recv_loop api app c buf a = Some (Inr (READ_SUCCEED, c', buf', a'))"
      using t(1) False r(1) by (subst recv_loop_turn) (simp add: goes_on_def)
    then show ?thesis using r buf_only_trans [OF t(2) r(2)] t(7) by auto
  qed
qed simp

end

lemma Receive_quiet:
  assumes "quiet_ok api quiet" and "client_ok c" and "handshaked c" and "quiet (tls_connection c)" and "held c = []"
  obtains s where "Receive api c buf n = Inr (WAITING_FOR_MORE_DATA, c\<lparr>tls_connection := s\<rparr>, buf, n)" "quiet s"
    "\<forall>sent. ssl_write_ok api sent \<longrightarrow> sent s = sent (tls_connection c)"
proof -
  obtain ret bytes err s where rd:
    "SSL_read api (tls_connection c) (BUF_LEN - frame_buf_pos c) = ((ret, bytes, err), s)"
    by (metis prod.exhaust)
  have q: "ret < 0" "err = SSL_ERROR_WANT_READ" "quiet s"
    using assms(1,4) rd unfolding quiet_ok_def by blast+
  then have m: "read_more api c = Inr (ret, err, c\<lparr>tls_connection := s\<rparr>)" by (simp add: read_more_def rd)
  have "frame_buf_pos c = 0" using held_empty [OF assms(2)] assms(5) by simp
  then have "Receive api c buf n = Inr (WAITING_FOR_MORE_DATA, c\<lparr>tls_connection := s\<rparr>, buf, n)"
    using assms(3) q by (simp add: Receive_def m)
  then show thesis using that q(3) read_more_sent [OF _ m] by simp
qed

context ws_app
begin

lemma recv_loop_opens:
  assumes api: "ssl_read_ok api" "turns_end api rank" "quiet_ok api quiet"
    and c: "client_ok c" "fd_ok c" "\<not> handshaked c" and buf: "length buf = 2048"
    and req: "is_token target" "13 \<notin> set proto" "0 \<notin> set proto"
      "\<forall>l \<in> set ls. good_line l" "accepts ls" "key_of ls = Some key" "length key \<le> 219"
    and rd: "SSL_read api (tls_connection c) (BUF_LEN - frame_buf_pos c) = ((ret, bytes, err), s)" "0 < ret"
    and bs: "held c @ bytes = render_request target proto ls @ text_frames ms" and quiet: "quiet s"
    and ms: "short_messages ms" and h: "handle_all handle a (cl_id c) (map (cstr \<circ> snd) ms) = Inr a'"
  shows "\<exists>c' buf'. recv_loop api app c buf a =
      Some (Inr (if ms = [] then WAITING_FOR_MORE_DATA else READ_SUCCEED, c', buf', a')) \<and>
    conn_only c c' \<and> handshaked c' \<and> client_ok c' \<and> held c' = [] \<and> quiet (tls_connection c') \<and>
    (\<forall>sent. ssl_write_ok api sent \<longrightarrow>
       sent (tls_connection c') = sent (tls_connection c) @ answer_text (rfc_accept key))"
proof -
  from Receive_next_request [OF api c req rd bs quiet]
  obtain c1 where r: "Receive api c buf 2048 = Inr (HANDSHAKE_SUCCEED, c1, buf, 2048)"
    and c1: "conn_only c c1" "client_ok c1" "handshaked c1" "held c1 = text_frames ms" "quiet (tls_connection c1)"
      "\<forall>sent. ssl_write_ok api sent \<longrightarrow>
         sent (tls_connection c1) = sent (tls_connection c) @ answer_text (rfc_accept key)"
    by metis
  have loop: "recv_loop api app c buf a = recv_loop api app c1 buf a"
    by (subst recv_loop_turn) (simp add: turn_def MSG_BUF_LEN_def r dispatch_def goes_on_def return_codes)
  show ?thesis
  proof (cases "ms = []")
    case True
    then have "held c1 = []" using c1(4) by (simp add: text_frames_def)
    then obtain s' where s': "Receive api c1 buf 2048 = Inr (WAITING_FOR_MORE_DATA, c1\<lparr>tls_connection := s'\<rparr>, buf, 2048)"
      "quiet s'" "\<forall>sent. ssl_write_ok api sent \<longrightarrow> sent s' = sent (tls_connection c1)"
      by (rule Receive_quiet [OF api(3) c1(2,3,5)])
    have "recv_loop api app c1 buf a = Some (Inr (WAITING_FOR_MORE_DATA, c1\<lparr>tls_connection := s'\<rparr>, buf, a))"
      by (subst recv_loop_turn) (simp add: turn_wait [OF s'(1)] goes_on_def return_codes)
    moreover have "a' = a" using h True by simp
    ultimately show ?thesis
      using True c1 s'(2,3) \<open>held c1 = []\<close>
      by (auto simp: loop conn_only_def client_ok_def bufs_ok_def held_def)
  next
    case False
    have "at_hand api quiet c1 (text_frames ms)" using at_hand_quiet [OF api(3) c1(5)] c1(4) by simp
    moreover have i: "cl_id c1 = cl_id c" using c1(1) by (simp add: conn_only_def)
    ultimately obtain c' buf' where "recv_loop api app c1 buf a = Some (Inr (READ_SUCCEED, c', buf', a'))"
      "buf_only c1 c'" "client_ok c'" "held c' = []" "quiet (tls_connection c')"
      "\<forall>sent. ssl_write_ok api sent \<longrightarrow> sent (tls_connection c') = sent (tls_connection c1)"
      using recv_loop_serves [OF api(1,3) c1(2,3) buf ms False] h by metis
    with False c1 show ?thesis
      by (auto simp: loop conn_only_def buf_only_def client_ok_def)
  qed
qed

end

context ws_total
begin

lemma handle_all_returns: "inv a \<Longrightarrow> \<exists>a'. handle_all handle a i ms = Inr a'"
proof (induction ms arbitrary: a)
  case (Cons m ms)
  obtain a1 where a1: "handle a i m = Inr a1" using handle_returns [OF Cons.prems] by blast
  with handle_ok [OF Cons.prems a1] Cons.IH [of a1] show ?case by simp
qed simp

end

section \<open>The log server\<close>

text \<open>
  Messages that have arrived are all handled at once. When a read on an open connection
  completes a sequence of short text frames in the buffer, one pass of the message loop handles
  every message, in order, and ends with an empty buffer and the code of success: none has to
  wait for the next bytes of the client.
\<close>

theorem messages_served_at_once:
  assumes "ssl_read_ok tls" and "quiet_ok tls quiet" and "client_ok c" and "handshaked c"
    and "length buf = 2048" and "short_messages msgs" and "msgs \<noteq> []" and "logs_open a"
    and "SSL_read tls (tls_connection c) (BUF_LEN - frame_buf_pos c) = ((ret, bytes, err), s)"
    and "0 < ret" and "quiet s"
    and "take (nat (frame_buf_pos c)) (frame_buf c) @ bytes = text_frames msgs"
  shows "\<exists>c' buf' a'. recv_loop tls (log_handlers api fresh) c buf a = Some (Inr (READ_SUCCEED, c', buf', a')) \<and>
    handle_all (do_request api) a (cl_id c) (map (cstr \<circ> snd) msgs) = Inr a' \<and>
    frame_buf_pos c' = 0 \<and> client_ok c'"
proof -
  have "at_hand tls quiet c (text_frames msgs)"
    using at_hand_read [where quiet = quiet, OF assms(1,3,9-11)] assms(12) by (simp add: held_def)
  moreover obtain a' where h: "handle_all (do_request api) a (cl_id c) (map (cstr \<circ> snd) msgs) = Inr a'"
    using lt.handle_all_returns [OF assms(8)] by blast
  ultimately obtain c' buf' where "recv_loop tls (log_handlers api fresh) c buf a = Some (Inr (READ_SUCCEED, c', buf', a'))"
    "client_ok c'" "held c' = []"
    using lg.recv_loop_serves [OF assms(1-7)] by metis
  then show ?thesis using h held_empty [of c'] by auto
qed

text \<open>
  Progress needs a quiet connection. The loop ends as soon as the buffer is empty, without asking
  whether OpenSSL holds more: whatever the state \<open>s\<close> after the read still has to give, it stays
  there until the socket is readable again.
\<close>

theorem buffered_message_waits:
  assumes "ssl_read_ok tls" and "client_ok c" and "handshaked c" and "length buf = 2048"
    and "length key = 4" and "length payload \<le> 125" and "logs_open a"
    and "SSL_read tls (tls_connection c) (BUF_LEN - frame_buf_pos c) = ((ret, bytes, err), s)" and "0 < ret"
    and "take (nat (frame_buf_pos c)) (frame_buf c) @ bytes = rfc_client_frame (frame_code WS_TEXT_FRAME) key payload"
  shows "\<exists>c' buf' a'. recv_loop tls (log_handlers api fresh) c buf a = Some (Inr (READ_SUCCEED, c', buf', a')) \<and>
    tls_connection c' = s"
proof -
  have m: "at_hand tls (\<lambda>t. t = s) c (text_frames [(key, payload)])" "short_messages [(key, payload)]"
    using at_hand_read [where quiet = "\<lambda>t. t = s", OF assms(1,2,8,9)] assms(5,6,10)
    by (simp_all add: held_def text_frames_def short_messages_def)
  obtain a' where h: "do_request api a (cl_id c) (cstr (snd (key, payload))) = Inr a'"
    using do_request_returns [OF assms(7)] by fastforce
  obtain c' buf' where "turn tls (log_handlers api fresh) c buf a = Inr (READ_SUCCEED, c', buf', a')"
    "tls_connection c' = s"
    by (rule lg.turn_at_hand [OF assms(1-4) m(2,1) h, of fresh]) (use that in simp)
  then show ?thesis by (subst recv_loop_turn) (auto simp: goes_on_def return_codes)
qed

lemma queue_tls_quiet: "quiet_ok queue_tls (\<lambda>s. chunks s = [])"
  by (auto simp: quiet_ok_def queue_tls_def)

text \<open>A client that has sent \<open>bytes\<close>, in one piece, and one that has nothing more to read.\<close>

lemma sample_read:
  assumes "ck \<noteq> []" and "length ck \<le> 8192"
  shows "SSL_read queue_tls (tls_connection (sample_client hs [ck])) (BUF_LEN - frame_buf_pos (sample_client hs [ck])) =
    ((int (length ck), ck, SSL_ERROR_NONE), \<lparr>chunks = [], wire = [], busy = 2\<rparr>)"
  using assms by (simp add: queue_tls_def BUF_LEN_def)

theorem messages_served_at_once_witness:
  "\<exists>c' buf' a'. recv_loop queue_tls (log_handlers sample_os (sample_log 0 '''' 0 0)) (sample_client True [sample_frame])
     (replicate 2048 0) \<lparr>logs = [], wakeups = 0, os = sample_world [] (\<lambda>_. [])\<rparr> =
       Some (Inr (READ_SUCCEED, c', buf', a')) \<and> requests a' = [(0, bytes_of ''/var/log/a'')]"
proof -
  let ?a = "\<lparr>logs = [], wakeups = 0, os = sample_world [] (\<lambda>_. [])\<rparr>"
  let ?msgs = "[([1, 2, 3, 4], bytes_of ''add /var/log/a'')]"
  have f: "sample_frame \<noteq> []" "length sample_frame \<le> 8192" "0 < int (length sample_frame)"
    by (simp_all add: sample_frame_def rfc_client_frame_short)
  have m: "short_messages ?msgs" "?msgs \<noteq> []" by (simp_all add: short_messages_def)
  have s: "take (nat (frame_buf_pos (sample_client True [sample_frame]))) (frame_buf (sample_client True [sample_frame])) @
      sample_frame = text_frames ?msgs"
    by (simp add: text_frames_def sample_frame_def)
  have "logs_open ?a" by (simp add: logs_open_def)
  from messages_served_at_once [OF queue_tls_ok(1) queue_tls_quiet sample_client_ok(1) _ length_receive_buffer m this
      sample_read [OF f(1,2)] f(3) _ s, of sample_os "sample_log 0 '''' 0 0"]
  obtain c' buf' a' where r: "recv_loop queue_tls (log_handlers sample_os (sample_log 0 '''' 0 0))
      (sample_client True [sample_frame]) (replicate 2048 0) ?a = Some (Inr (READ_SUCCEED, c', buf', a'))"
    "handle_all (do_request sample_os) ?a 0 (map (cstr \<circ> snd) ?msgs) = Inr a'" by auto
  have "request_of (bytes_of ''add /var/log/a'') = AddLog (bytes_of ''/var/log/a'')" by code_simp
  with r(2) have "a' = add_request sample_os 0 (bytes_of ''/var/log/a'') ?a"
    by (simp add: do_request_def cstr_id bytes_of_def)
  then have "requests a' = [(0, bytes_of ''/var/log/a'')]"
    by (simp add: add_request_def sample_os_def sample_world_def requests_def request_def)
  with r(1) show ?thesis by blast
qed

text \<open>
  C14: A client that has sent its opening request, with messages right behind it, is served at once:
  when a read completes an acceptable request followed by short text frames, one pass of the
  message loop sends the answer of RFC 6455, opens the connection and handles every message,
  in order, on any connection that takes what is written to it, and nothing stays in the buffer.
\<close>

theorem client_served_at_once:
  assumes "ssl_read_ok tls" and "ssl_write_ok tls sent" and "turns_end tls rank" and "quiet_ok tls quiet"
    and "client_ok c" and "fd_ok c" and "\<not> handshaked c" and "length buf = 2048"
    and "is_token target" and "13 \<notin> set proto" and "0 \<notin> set proto"
    and "\<forall>l \<in> set ls. good_line l" and "accepts ls" and "key_of ls = Some key" and "length key \<le> 219"
    and "short_messages msgs" and "logs_open a"
    and "SSL_read tls (tls_connection c) (BUF_LEN - frame_buf_pos c) = ((ret, bytes, err), s)"
    and "0 < ret" and "quiet s"
    and "take (nat (frame_buf_pos c)) (frame_buf c) @ bytes = render_request target proto ls @ text_frames msgs"
  shows "\<exists>c' buf' a'. recv_loop tls (log_handlers api fresh) c buf a =
      Some (Inr (if msgs = [] then WAITING_FOR_MORE_DATA else READ_SUCCEED, c', buf', a')) \<and>
    handshaked c' \<and> sent (tls_connection c') =
      sent (tls_connection c) @ answer_text (b64_spec (fips_sha1 (key @ secret))) \<and>
    handle_all (do_request api) a (cl_id c) (map (cstr \<circ> snd) msgs) = Inr a' \<and> frame_buf_pos c' = 0"
proof -
  obtain a' where h: "handle_all (do_request api) a (cl_id c) (map (cstr \<circ> snd) msgs) = Inr a'"
    using lt.handle_all_returns [OF assms(17)] by blast
  have "held c @ bytes = render_request target proto ls @ text_frames msgs"
    using assms(21) by (simp add: held_def)
  from lg.recv_loop_opens [OF assms(1,3-15,18,19) this assms(20,16) h] obtain c' buf' where
    "recv_loop tls (log_handlers api fresh) c buf a =
      Some (Inr (if msgs = [] then WAITING_FOR_MORE_DATA else READ_SUCCEED, c', buf', a'))"
    "handshaked c'" "client_ok c'" "held c' = []"
    "sent (tls_connection c') = sent (tls_connection c) @ answer_text (rfc_accept key)"
    using assms(2) by blast
  then show ?thesis using h held_empty [of c'] by (auto simp: rfc_accept_def)
qed

theorem client_served_at_once_witness:
  "\<exists>c' buf' a'. recv_loop queue_tls (log_handlers sample_os (sample_log 0 '''' 0 0))
     (sample_client False [sample_request @ sample_frame])
     (replicate 2048 0) \<lparr>logs = [], wakeups = 0, os = sample_world [] (\<lambda>_. [])\<rparr> =
       Some (Inr (READ_SUCCEED, c', buf', a')) \<and> wire (tls_connection c') =
         answer_text (b64_spec (fips_sha1 (bytes_of ''dGhlIHNhbXBsZSBub25jZQ=='' @ secret)))"
proof -
  let ?a = "\<lparr>logs = [], wakeups = 0, os = sample_world [] (\<lambda>_. [])\<rparr>"
  let ?msgs = "[([1, 2, 3, 4], bytes_of ''add /var/log/a'')]" and ?c = "sample_client False [sample_request @ sample_frame]"
  have f: "sample_request @ sample_frame \<noteq> []" "length (sample_request @ sample_frame) \<le> 8192"
    "0 < int (length (sample_request @ sample_frame))"
    by (simp_all add: sample_frame_def rfc_client_frame_short sample_request_def sample_lines_def render_request_def
        request_line_def rn_def)
  have m: "short_messages ?msgs" by (simp add: short_messages_def)
  have s: "take (nat (frame_buf_pos ?c)) (frame_buf ?c) @ sample_request @ sample_frame =
      render_request (bytes_of ''/'') (bytes_of ''HTTP/1.1'') sample_lines @ text_frames ?msgs"
    by (simp add: text_frames_def sample_frame_def sample_request_def)
  have o: "logs_open ?a" by (simp add: logs_open_def)
  have tok: "is_token (bytes_of ''/'')" "13 \<notin> set (bytes_of ''HTTP/1.1'')" "0 \<notin> set (bytes_of ''HTTP/1.1'')"
    by code_simp+
  have ls: "\<forall>l \<in> set sample_lines. good_line l" "accepts sample_lines"
    "key_of sample_lines = Some (bytes_of ''dGhlIHNhbXBsZSBub25jZQ=='')" by code_simp+
  have k: "length (bytes_of ''dGhlIHNhbXBsZSBub25jZQ=='') \<le> 219" by simp
  from client_served_at_once [OF queue_tls_ok(1,3,4) queue_tls_quiet sample_client_ok(1,2) _ length_receive_buffer
      tok ls k m o sample_read [OF f(1,2)] f(3) _ s, of sample_os "sample_log 0 '''' 0 0"]
  show ?thesis by (auto simp del: replicate.simps bytes_of_simps)
qed

end
