(* ===== verification/Protocol.thy ===== *)
theory Protocol
  imports "HOL-Library.Sublist" Prelude
begin

text \<open>
  What the program promises as a whole, without buffers, frames, files and threads: the clients
  that are there and the list of their requests, changed by events. Theory System shows that
  every run of the program is a run of this machine.
\<close>

section \<open>Events\<close>

text \<open>
  A client comes under a free id, leaves with its requests, adds or removes a request of its own;
  requests may be lost, when their log is gone, and all clients leave at the end.
\<close>

datatype event = Join int | Leave int | Add int "byte list" | Del int "byte list" |
  Lose "(int \<times> byte list) list" | Finish

type_synonym board = "int set \<times> (int \<times> byte list) list"

fun happen :: "event \<Rightarrow> board \<Rightarrow> board option" where
  "happen (Join i) (I, R) = (if 0 \<le> i \<and> i \<notin> I then Some (insert i I, R) else None)"
| "happen (Leave i) (I, R) = (if i \<in> I then Some (I - {i}, filter (\<lambda>r. fst r \<noteq> i) R) else None)"
| "happen (Add i n) (I, R) = (if i \<in> I \<and> \<not> sublist [46, 46] n then Some (I, R @ [(i, n)]) else None)"
| "happen (Del i n) (I, R) = (if i \<in> I then Some (I, remove1 (i, n) R) else None)"
| "happen (Lose R') (I, R) = (if subseq R' R then Some (I, R') else None)"
| "happen Finish (I, R) = Some ({}, R)"

primrec happens :: "event list \<Rightarrow> board \<Rightarrow> board option" where
  "happens [] b = Some b"
| "happens (e # es) b = Option.bind (happen e b) (happens es)"

lemma happens_append: "happens (es @ fs) b = Option.bind (happens es b) (happens fs)"
  by (induction es arbitrary: b) (simp_all split: Option.bind_split)

lemma happens_appendI: "happens es b = Some b1 \<Longrightarrow> happens fs b1 = Some b2 \<Longrightarrow> happens (es @ fs) b = Some b2"
  by (simp add: happens_append)

lemma happens_snoc:
  assumes "happens (es @ [e]) b = Some b2"
  obtains b1 where "happens es b = Some b1" "happen e b1 = Some b2"
  using assms by (auto simp: happens_append split: Option.bind_splits)

section \<open>What holds on every board\<close>

lemma subseq_in: "subseq xs ys \<Longrightarrow> x \<in> set xs \<Longrightarrow> x \<in> set ys"
  by (induction rule: list_emb.induct) auto

text \<open>The request stood on the board before the event, or the event has put it there.\<close>

lemma happen_request:
  assumes "happen e (I, R) = Some (I', R')" and "(i, n) \<in> set R'"
  shows "(i, n) \<in> set R \<and> e \<noteq> Leave i \<or> e = Add i n \<and> i \<in> I \<and> \<not> sublist [46, 46] n"
  using assms by (cases e) (auto split: if_splits dest: subseq_in set_mp [OF set_remove1_subset])

text \<open>
  A request on the board was added by a client that has not left since, and its name passed the
  check; ids only grow with a join, and until the end the client is still there.
\<close>

lemma happens_request:
  assumes "happens es ({}, []) = Some (I, R)" and "(i, n) \<in> set R"
  shows "\<exists>pre post. es = pre @ Add i n # post \<and> Leave i \<notin> set post \<and> \<not> sublist [46, 46] n"
  using assms
proof (induction es arbitrary: I R rule: rev_induct)
  case (snoc e es)
  then obtain I1 R1 where b: "happens es ({}, []) = Some (I1, R1)" "happen e (I1, R1) = Some (I, R)"
    by (metis happens_snoc surj_pair)
  from happen_request [OF b(2) snoc.prems(2)] show ?case
  proof
    assume "(i, n) \<in> set R1 \<and> e \<noteq> Leave i"
    with snoc.IH [OF b(1)] obtain pre post where
      "es = pre @ Add i n # post" "Leave i \<notin> set post" "\<not> sublist [46, 46] n" "e \<noteq> Leave i" by blast
    then show ?thesis by (intro exI [of _ pre] exI [of _ "post @ [e]"]) auto
  next
    assume "e = Add i n \<and> i \<in> I1 \<and> \<not> sublist [46, 46] n"
    then show ?thesis by (intro exI [of _ es] exI [of _ "[]"]) simp
  qed
qed simp

lemma happens_owners:
  assumes "happens es ({}, []) = Some (I, R)" and "Finish \<notin> set es"
  shows "fst ` set R \<subseteq> I"
  using assms
proof (induction es arbitrary: I R rule: rev_induct)
  case (snoc e es)
  then obtain I1 R1 where b: "happens es ({}, []) = Some (I1, R1)" "happen e (I1, R1) = Some (I, R)"
    by (metis happens_snoc surj_pair)
  from snoc.IH [OF b(1)] snoc.prems(2) have "fst ` set R1 \<subseteq> I1" by simp
  with b(2) snoc.prems(2) show ?case
    by (cases e) (fastforce split: if_splits dest: subseq_in set_mp [OF set_remove1_subset])+
qed simp

text \<open>Ids are not negative, and once all clients have left for good none has a request added.\<close>

end
