(* ===== verification/Server_Steps.thy ===== *)
theory Server_Steps
  imports Server_Laws
begin

text \<open>
  A pass of the message thread over the clients as steps of its handlers: the locale \<open>ws_app\<close>
  gives, for any bytes the peers send, the messages and the releases that make up the change of
  the handlers' state and of the set of ids.
\<close>

section \<open>Steps of the handlers\<close>

text \<open>
  What a pass over the clients does to the state of the handlers, seen from outside: messages of
  clients that are still there, and the release of clients that leave.
\<close>

inductive app_steps ::
  "('a \<Rightarrow> int \<Rightarrow> byte list \<Rightarrow> 'a result) \<Rightarrow> ('a \<Rightarrow> int \<Rightarrow> 'a result) \<Rightarrow> int set \<Rightarrow> 'a \<Rightarrow> int set \<Rightarrow> 'a \<Rightarrow> bool"
  for handle release where
  same: "app_steps handle release I a I a"
| message: "i \<in> I \<Longrightarrow> handle a i m = Inr a1 \<Longrightarrow> app_steps handle release I a1 I' a' \<Longrightarrow>
    app_steps handle release I a I' a'"
| gone: "i \<in> I \<Longrightarrow> release a i = Inr a1 \<Longrightarrow> app_steps handle release (I - {i}) a1 I' a' \<Longrightarrow>
    app_steps handle release I a I' a'"

lemma app_steps_trans:
  "app_steps handle release I a I1 a1 \<Longrightarrow> app_steps handle release I1 a1 I' a' \<Longrightarrow>
   app_steps handle release I a I' a'"
  by (induction rule: app_steps.induct) (auto intro: app_steps.intros)

lemma app_steps_more:
  "app_steps handle release I a I' a' \<Longrightarrow> i \<notin> I \<Longrightarrow> app_steps handle release (insert i I) a (insert i I') a'"
proof (induction rule: app_steps.induct)
  case (gone j I a a1 I' a')
  then have "insert i (I - {j}) = insert i I - {j}" by auto
  with gone show ?case by (auto intro: app_steps.gone)
qed (auto intro: app_steps.intros)

lemma app_steps_handle_all:
  "handle_all handle a i ms = Inr a' \<Longrightarrow> i \<in> I \<Longrightarrow> app_steps handle release I a I a'"
  by (induction ms arbitrary: a) (auto simp: bind_r_eq_Inr intro: app_steps.intros)

context ws_app
begin

text \<open>On any stream, the loop hands messages to the handler and then perhaps releases the client.\<close>

lemma turn_steps:
  assumes api: "ssl_read_ok api" and c: "client_ok c" and fd: "fd_ok c" and buf: "length buf = 2048"
    and i: "cl_id c \<in> I" and t: "turn api app c buf a = Inr (ret, c', buf', a')"
  shows "app_steps handle release I a (if 0 \<le> ret then I else I - {cl_id c}) a'"
proof -
  obtain c1 len1 where r: "Receive api c buf 2048 = Inr (ret, c1, buf', len1)"
    and d: "dispatch api app ret c1 buf' len1 a = Inr (a', c')"
    using t by (auto simp: turn_def bind_r_eq_Inr MSG_BUF_LEN_def)
  have c1: "cl_id c1 = cl_id c"
    "ret \<in> {READ_SUCCEED, READ_SUCCEED_DATA_AVAILABLE} \<Longrightarrow> delivered buf' len1"
    using Receive_continues [OF api c fd buf r] by (simp_all add: same_conn_def)
  consider "ret \<in> {READ_SUCCEED, READ_SUCCEED_DATA_AVAILABLE}" | "ret < 0"
    | "0 \<le> ret" "ret \<notin> {READ_SUCCEED, READ_SUCCEED_DATA_AVAILABLE}" by linarith
  then show ?thesis
  proof cases
    case 1
    then have "handle a (cl_id c) (cstr buf') = Inr a'"
      using d on_message [OF delivered_terminated [OF c1(2) [OF 1]]] by (auto simp: dispatch_def bind_r_eq_Inr c1(1))
    with 1 i show ?thesis by (auto simp: return_codes intro: app_steps.intros)
  next
    case 2
    then obtain c2 where "Disconnect api c1 = Inr c2" "release a (cl_id c2) = Inr a'"
      using d by (auto simp: dispatch_def return_codes bind_r_eq_Inr on_disconnect)
    with 2 i c1(1) Disconnect_keeps_id [of api c1 c2] show ?thesis by (auto intro: app_steps.intros)
  next
    case 3
    with d show ?thesis by (auto simp: dispatch_def intro: app_steps.intros)
  qed
qed

lemma recv_loop_steps:
  assumes api: "ssl_read_ok api" "ssl_stream_ok api pending"
    and "client_ok c" and "fd_ok c" and "length buf = 2048" and "inv a" and "cl_id c \<in> I"
    and "recv_loop api app c buf a = Some (Inr (ret, c', buf', a'))"
  shows "app_steps handle release I a (if 0 \<le> ret then I else I - {cl_id c}) a'"
  using assms(3-8)
proof (induction "length (stream pending c)" arbitrary: c buf a rule: less_induct)
  case less
  note loop = less.prems(6) [unfolded recv_loop_turn [of api app c buf a]]
  obtain r c1 buf1 a1 where t: "turn api app c buf a = Inr (r, c1, buf1, a1)"
    using loop by (auto split: sum.splits)
  note s = turn_steps [OF api(1) less.prems(1-3,5) t]
  note o = turn_outcome [OF api(1) less.prems(1-4) t]
  show ?case
  proof (cases "goes_on r")
    case False
    with t loop s show ?thesis by simp
  next
    case True
    then have ret: "0 \<le> r" by (auto simp: goes_on_def return_codes)
    with o obtain len1 where rc: "Receive api c buf 2048 = Inr (r, c1, buf1, len1)" by auto
    have ok: "client_ok c1" "fd_ok c1" "length buf1 = 2048" "inv a1" "cl_id c1 \<in> I" "cl_id c1 = cl_id c"
      using o ret less.prems(5) by simp_all
    have "length (stream pending c1) < length (stream pending c)"
      using True Receive_progress [OF api less.prems(1-3) rc] by (simp add: goes_on_def)
    from less.hyps [OF this ok(1-5)] t loop True ok(6) s ret show ?thesis
      using app_steps_trans by fastforce
  qed
qed

lemma serve_client_steps:
  assumes api: "ssl_read_ok api" "ssl_stream_ok api pending" and e: "entry_ok e"
    and buf: "length buf = 2048" and a: "inv a" and i: "fst e \<in> I"
    and s: "serve_client api app ready (snd e) buf a = Inr (ret, c', buf', a')"
  shows "app_steps handle release I a (if 0 \<le> ret then I else I - {fst e}) a'"
proof (cases "ready (socket (snd e))")
  case False
  then show ?thesis using s by (auto simp: serve_client_def bind_r_eq_Inr intro: app_steps.intros)
next
  case True
  then have l: "recv_loop api app (snd e) buf a = Some (Inr (ret, c', buf', a'))"
    using s by (auto simp: serve_client_def bind_r_eq_Inr split: option.splits)
  have e': "client_ok (snd e)" "fd_ok (snd e)" "cl_id (snd e) = fst e" using e by (simp_all add: entry_ok_def)
  from recv_loop_steps [OF api e'(1,2) buf a _ l, of I] i show ?thesis
    by (cases "0 \<le> ret") (simp_all add: e'(3))
qed

lemma serve_clients_steps:
  assumes api: "ssl_read_ok api" "ssl_stream_ok api pending"
  shows "serve_clients api app ready es buf a = Inr (es', buf', a') \<Longrightarrow> clients_ok es \<Longrightarrow>
    length buf = 2048 \<Longrightarrow> inv a \<Longrightarrow> app_steps handle release (keys es) a (keys es') a'"
proof (induction es arbitrary: buf a es')
  case Nil
  then show ?case by (simp add: keys_def app_steps.same)
next
  case (Cons e es)
  obtain ret c1 buf1 a1 es1 where s: "serve_client api app ready (snd e) buf a = Inr (ret, c1, buf1, a1)"
    and rest: "serve_clients api app ready es buf1 a1 = Inr (es1, buf', a')"
    and es': "es' = (if ret \<ge> 0 then (fst e, c1) # es1 else es1)"
    using Cons.prems(1) by (auto simp: bind_r_eq_Inr)
  have e: "entry_ok e" "clients_ok es" "fst e \<notin> keys es"
    using Cons.prems(2) by (auto simp: clients_ok_Cons keys_def)
  have o: "length buf1 = 2048" "inv a1" using serve_client_outcome [OF api e(1) Cons.prems(3,4) s] by simp_all
  have "app_steps handle release (insert (fst e) (keys es)) a
      (if 0 \<le> ret then insert (fst e) (keys es) else keys es) a1"
    using serve_client_steps [OF api e(1) Cons.prems(3,4) _ s, of "insert (fst e) (keys es)"]
    by (cases "0 \<le> ret") (simp_all add: Diff_insert_absorb [OF e(3)])
  moreover have r: "app_steps handle release (keys es) a1 (keys es1) a'"
    by (rule Cons.IH [OF rest e(2) o])
  ultimately have "app_steps handle release (insert (fst e) (keys es)) a
      (if 0 \<le> ret then insert (fst e) (keys es1) else keys es1) a'"
    using app_steps_trans app_steps_more [OF r e(3)] by (cases "0 \<le> ret") fastforce+
  then show ?case by (cases "0 \<le> ret") (simp_all add: es' keys_def)
qed

text \<open>
  A client that stays has been sent at most the answer that opens its connection, and something
  is kept for it only from before or once the connection is open.
\<close>

lemma turn_talks:
  assumes api: "ssl_read_ok api" "ssl_write_ok api sent" and c: "client_ok c" and fd: "fd_ok c"
    and t: "turn api app c buf a = Inr (ret, c', buf', a')" and buf: "length buf = 2048" and ret: "0 \<le> ret"
  shows "talks sent c c'" and "a' = a \<or> handshaked c'"
proof -
  obtain c1 len1 where r: "Receive api c buf 2048 = Inr (ret, c1, buf', len1)"
    and d: "dispatch api app ret c1 buf' len1 a = Inr (a', c')"
    using t by (auto simp: turn_def bind_r_eq_Inr MSG_BUF_LEN_def)
  note tk = Receive_talks [OF api c fd r ret]
  have dl: "ret \<in> {READ_SUCCEED, READ_SUCCEED_DATA_AVAILABLE} \<Longrightarrow> delivered buf' len1"
    using Receive_continues [OF api(1) c fd buf r] by simp
  have "c' = c1 \<and> (a' = a \<or> handshaked c1)"
  proof (cases "ret \<in> {READ_SUCCEED, READ_SUCCEED_DATA_AVAILABLE}")
    case True
    with d on_message [OF delivered_terminated [OF dl]] tk(2) show ?thesis by (auto simp: dispatch_def bind_r_eq_Inr)
  next
    case False
    with d ret show ?thesis by (auto simp: dispatch_def)
  qed
  with tk(1) show "talks sent c c'" and "a' = a \<or> handshaked c'" by auto
qed

lemma recv_loop_talks:
  assumes api: "ssl_read_ok api" "ssl_stream_ok api pending" "ssl_write_ok api sent"
    and "client_ok c" and "fd_ok c" and "length buf = 2048" and "inv a"
    and "recv_loop api app c buf a = Some (Inr (ret, c', buf', a'))" and "0 \<le> ret"
  shows "talks sent c c' \<and> (a' = a \<or> handshaked c')"
  using assms(4-9)
proof (induction "length (stream pending c)" arbitrary: c buf a rule: less_induct)
  case less
  note loop = less.prems(5) [unfolded recv_loop_turn [of api app c buf a]]
  obtain r c1 buf1 a1 where t: "turn api app c buf a = Inr (r, c1, buf1, a1)"
    using loop by (auto split: sum.splits)
  note o = turn_outcome [OF api(1) less.prems(1-4) t]
  show ?case
  proof (cases "goes_on r")
    case False
    with t loop turn_talks [OF api(1,3) less.prems(1,2) t less.prems(3)] less.prems(6) show ?thesis by simp
  next
    case True
    then have ret: "0 \<le> r" by (auto simp: goes_on_def return_codes)
    note s = turn_talks [OF api(1,3) less.prems(1,2) t less.prems(3) ret]
    from o ret obtain len1 where rc: "Receive api c buf 2048 = Inr (r, c1, buf1, len1)" by auto
    have ok: "client_ok c1" "fd_ok c1" "length buf1 = 2048" "inv a1" using o ret by simp_all
    have "length (stream pending c1) < length (stream pending c)"
      using True Receive_progress [OF api(1,2) less.prems(1-3) rc] by (simp add: goes_on_def)
    from less.hyps [OF this ok] t loop True less.prems(6)
    have "talks sent c1 c' \<and> (a' = a1 \<or> handshaked c')" by simp
    with s show ?thesis using talks_trans [OF s(1)] by (auto simp: talks_def [of _ c1])
  qed
qed

lemma serve_client_talks:
  assumes api: "ssl_read_ok api" "ssl_stream_ok api pending" "ssl_write_ok api sent" and e: "entry_ok e"
    and buf: "length buf = 2048" and a: "inv a"
    and s: "serve_client api app ready (snd e) buf a = Inr (ret, c', buf', a')" and "0 \<le> ret"
  shows "talks sent (snd e) c' \<and> (a' = a \<or> handshaked c')"
proof (cases "ready (socket (snd e))")
  case False
  then show ?thesis using s by (auto simp: serve_client_def bind_r_eq_Inr)
next
  case True
  then have l: "recv_loop api app (snd e) buf a = Some (Inr (ret, c', buf', a'))"
    using s by (auto simp: serve_client_def bind_r_eq_Inr split: option.splits)
  have "client_ok (snd e)" "fd_ok (snd e)" using e by (simp_all add: entry_ok_def)
  from recv_loop_talks [OF api this buf a l assms(8)] show ?thesis .
qed

lemma serve_clients_talk:
  assumes api: "ssl_read_ok api" "ssl_stream_ok api pending" "ssl_write_ok api sent"
  shows "serve_clients api app ready es buf a = Inr (es', buf', a') \<Longrightarrow> clients_ok es \<Longrightarrow>
    length buf = 2048 \<Longrightarrow> inv a \<Longrightarrow> (k, c') \<in> set es' \<Longrightarrow>
    \<exists>c. (k, c) \<in> set es \<and> talks sent c c' \<and> (k \<in> owned a' \<longrightarrow> k \<in> owned a \<or> handshaked c')"
proof (induction es arbitrary: buf a es')
  case (Cons e es)
  obtain ret c1 buf1 a1 es1 where s: "serve_client api app ready (snd e) buf a = Inr (ret, c1, buf1, a1)"
    and rest: "serve_clients api app ready es buf1 a1 = Inr (es1, buf', a')"
    and es': "es' = (if ret \<ge> 0 then (fst e, c1) # es1 else es1)"
    using Cons.prems(1) by (auto simp: bind_r_eq_Inr)
  have e: "entry_ok e" "clients_ok es" "fst e \<notin> keys es"
    using Cons.prems(2) by (auto simp: clients_ok_Cons keys_def)
  have o: "length buf1 = 2048" "inv a1" "owned a1 \<subseteq> insert (fst e) (owned a)"
    using serve_client_outcome [OF api(1,2) e(1) Cons.prems(3,4) s] by (auto split: if_splits)
  have r: "owned a' \<subseteq> owned a1 - keys es \<union> keys es1" "keys es1 \<subseteq> keys es"
    using serve_clients_outcome [OF api(1,2) rest e(2) o(1,2)] by simp_all
  show ?case
  proof (cases "(k, c') \<in> set es1")
    case True
    then have "k \<in> keys es1" unfolding keys_def by (metis fst_conv image_eqI)
    then have "k \<noteq> fst e" using r(2) e(3) by blast
    with Cons.IH [OF rest e(2) o(1,2) True] o(3) show ?thesis by auto
  next
    case False
    with Cons.prems(5) es' have k: "0 \<le> ret" "k = fst e" "c' = c1" by (auto split: if_splits)
    with serve_client_talks [OF api e(1) Cons.prems(3,4) s] r e(3) show ?thesis
      by (intro exI [of _ "snd e"]) auto
  qed
qed simp

end

end
