(* ===== verification/System.thy ===== *)
theory System
  imports Protocol Server_Steps Log_Run
begin

text \<open>
  The program as a whole: the state of the web-socket server and of the log server with the
  buffers of the message thread and of the log thread, changed by the critical sections of the
  three threads in any order. The invariant of the data, and the refinement of theory Protocol.
\<close>

section \<open>Steps\<close>

text \<open>
  The message thread has filled its set and is in \<^verbatim>\<open>select\<close> when \<open>selecting\<close> holds; \<open>watched\<close> are
  the descriptors the log thread has put into its sets, while it is in \<^verbatim>\<open>select\<close>; \<open>ended\<close> says
  that the accept thread has disconnected all clients.
\<close>

record ('s, 'w) system =
  web :: "'s server"
  logsrv :: "'w log_server"
  data_buf :: "byte list"
  selecting :: bool
  line_buf :: "byte list"
  watched :: "int set option"
  ended :: bool

datatype actor = Accepter | Listener | Reader | Caller | OpSys

text \<open>
  The accept thread: one of the \<open>arrivals\<close> enters the map, and the shutdown once \<^verbatim>\<open>stop\<close> is seen.
\<close>

inductive accept_section ::
  "'s tls_api \<Rightarrow> 's arrival set \<Rightarrow> ('s, 'w) system \<Rightarrow> ('s, 'w) system \<Rightarrow> bool" for tls arrivals where
  enter: "\<not> ended st \<Longrightarrow> ar \<in> arrivals \<Longrightarrow> accept_step tls ar (web st) = Inr (signalled, dropped, srv) \<Longrightarrow>
    accept_section tls arrivals st (st\<lparr>web := srv\<rparr>)"
| finish: "\<not> ended st \<Longrightarrow> stop (web st) \<Longrightarrow> disconnect_all tls (clients (web st)) = Inr es \<Longrightarrow>
    accept_section tls arrivals st (st\<lparr>web := (web st)\<lparr>clients := []\<rparr>, ended := True\<rparr>)"

text \<open>The message thread: it fills its set, and after \<^verbatim>\<open>select\<close> serves the clients there are then.\<close>

inductive message_section ::
  "'s tls_api \<Rightarrow> 'w os_api \<Rightarrow> ('s, 'w) system \<Rightarrow> ('s, 'w) system \<Rightarrow> bool" for tls api where
  fill: "\<not> selecting st \<Longrightarrow> fill_set (clients (web st)) (-1) = Inr nfds \<Longrightarrow>
    message_section tls api st (st\<lparr>selecting := True\<rparr>)"
| serve: "selecting st \<Longrightarrow>
    serve_clients tls (log_handlers api fresh) ready (clients (web st)) (data_buf st) (logsrv st) =
      Inr (es, buf, a) \<Longrightarrow>
    message_section tls api st
      (st\<lparr>web := (web st)\<lparr>clients := es\<rparr>, logsrv := a, data_buf := buf, selecting := False\<rparr>)"

text \<open>
  The log thread: it fills its sets; after \<^verbatim>\<open>select\<close> it skips the turn or goes through the logs,
  with the sets as filled when \<^verbatim>\<open>select\<close> has failed.
\<close>

inductive log_section ::
  "'s tls_api \<Rightarrow> 'w os_api \<Rightarrow> ('s, 'w) system \<Rightarrow> ('s, 'w) system \<Rightarrow> bool" for tls api where
  watch: "watched st = None \<Longrightarrow> fill_logs (logs (logsrv st)) (-1) = Inr nfds \<Longrightarrow>
    log_section tls api st (st\<lparr>watched := Some (log_fd ` set (logs (logsrv st)))\<rparr>)"
| skip: "watched st = Some fds \<Longrightarrow> sel_ret (sel :: select_result) < 0 \<and> sel_errno sel = EINTR \<or> sel_ret sel = 0 \<Longrightarrow>
    log_section tls api st (st\<lparr>watched := None\<rparr>)"
| read: "watched st = Some fds \<Longrightarrow> \<not> (sel_ret (sel :: select_result) < 0 \<and> sel_errno sel = EINTR \<or> sel_ret sel = 0) \<Longrightarrow>
    log_loop api tls (if sel_ret sel < 0 then (\<lambda>fd. fd \<in> fds) else sel_read sel)
      (if sel_ret sel < 0 then (\<lambda>fd. fd \<in> fds) else sel_except sel)
      (logs (logsrv st)) (line_buf st) (clients (web st)) (os (logsrv st)) = Inr (ds, buf, es, w) \<Longrightarrow>
    log_section tls api st
      (st\<lparr>web := (web st)\<lparr>clients := es\<rparr>, logsrv := (logsrv st)\<lparr>logs := ds, os := w\<rparr>,
          line_buf := buf, watched := None\<rparr>)"

text \<open>
  The steps of the program: any thread may run its next section, \<open>Stop\<close> may be called, and the
  operating system may move on.
\<close>

inductive sys_step ::
  "'s tls_api \<Rightarrow> 'w os_api \<Rightarrow> 's arrival set \<Rightarrow> ('s, 'w) system \<Rightarrow> actor \<Rightarrow> ('s, 'w) system \<Rightarrow> bool"
  for tls api arrivals where
  accepts: "accept_section tls arrivals st st' \<Longrightarrow> sys_step tls api arrivals st Accepter st'"
| listens: "message_section tls api st st' \<Longrightarrow> sys_step tls api arrivals st Listener st'"
| reads: "log_section tls api st st' \<Longrightarrow> sys_step tls api arrivals st Reader st'"
| stops: "sys_step tls api arrivals st Caller (st\<lparr>web := snd (Stop (web st))\<rparr>)"
| moves: "sys_step tls api arrivals st OpSys (st\<lparr>logsrv := (logsrv st)\<lparr>os := w\<rparr>\<rparr>)"

text \<open>The program starts with the constructor and \<open>Run\<close>; the buffers hold anything.\<close>

definition starts :: "('s, 'w) system \<Rightarrow> bool" where
  "starts st \<longleftrightarrow> (\<exists>p q cf pkf create1 create2 errno memory w srv.
     LogServer p q cf pkf memory w = (srv, logsrv st) \<and> Run create1 create2 errno srv = (0, web st)) \<and>
     length (data_buf st) = 2048 \<and> length (line_buf st) = 2048 \<and> \<not> selecting st \<and> watched st = None \<and> \<not> ended st"

inductive sys_run ::
  "'s tls_api \<Rightarrow> 'w os_api \<Rightarrow> 's arrival set \<Rightarrow> ('s, 'w) system \<Rightarrow> ('s, 'w) system \<Rightarrow> bool"
  for tls api arrivals where
  stay: "sys_run tls api arrivals st st"
| go: "sys_run tls api arrivals st st1 \<Longrightarrow> sys_step tls api arrivals st1 t st' \<Longrightarrow> sys_run tls api arrivals st st'"

section \<open>The steps are the turns of the threads\<close>

lemma sys_run_trans: "sys_run tls api arrivals st1 st2 \<Longrightarrow> sys_run tls api arrivals st st1 \<Longrightarrow> sys_run tls api arrivals st st2"
  by (induction rule: sys_run.induct) (auto intro: sys_run.intros)

lemma sys_run_step: "sys_step tls api arrivals st t st1 \<Longrightarrow> sys_run tls api arrivals st1 st2 \<Longrightarrow> sys_run tls api arrivals st st2"
  using sys_run_trans sys_run.intros by metis

text \<open>
  One turn of each thread, as theories Server and LogServer define it, with the changes the other
  threads make while it is in \<^verbatim>\<open>select\<close>, is a run of the system.
\<close>

lemma message_pass_run:
  assumes "\<not> selecting st" and "sys_run tls api arrivals (st\<lparr>selecting := True\<rparr>) st1" and "selecting st1"
    and "message_pass tls (log_handlers api fresh) (\<lambda>_. web st1) ready (web st) (data_buf st1) (logsrv st1) =
      Inr (srv', buf', a')"
  shows "sys_run tls api arrivals st (st1\<lparr>web := srv', logsrv := a', data_buf := buf', selecting := False\<rparr>)"
proof -
  obtain nfds es where f: "fill_set (clients (web st)) (-1) = Inr nfds" "srv' = (web st1)\<lparr>clients := es\<rparr>"
    "serve_clients tls (log_handlers api fresh) ready (clients (web st1)) (data_buf st1) (logsrv st1) = Inr (es, buf', a')"
    using assms(4) by (auto simp: message_pass_def bind_r_eq_Inr Let_def)
  from sys_run_step [OF listens [OF fill [OF assms(1) f(1)]] assms(2)] listens [OF serve [OF assms(3) f(3)]]
  show ?thesis by (auto simp: f(2) intro: sys_run.go)
qed

lemma Run_turn_run:
  assumes "watched st = None" and "logs (logsrv st) \<noteq> []"
    and "sys_run tls api arrivals (st\<lparr>watched := Some (log_fd ` set (logs (logsrv st)))\<rparr>) st1"
    and "watched st1 = Some (log_fd ` set (logs (logsrv st)))"
    and "Run_turn api tls t (line_buf st1) (clients (web st), logsrv st) = Inr (buf', es', a')"
    and "between t (clients (web st), logsrv st) = (clients (web st1), logsrv st1)"
  shows "\<exists>st'. sys_run tls api arrivals st st' \<and> clients (web st') = es' \<and> logsrv st' = a' \<and> line_buf st' = buf' \<and>
    watched st' = None"
proof -
  let ?st = "(clients (web st), logsrv st)" and ?fds = "log_fd ` set (logs (logsrv st))"
  obtain nfds where "fill_logs (logs (logsrv st)) (-1) = Inr nfds"
    using assms(2,5) by (auto simp: Run_turn_def bind_r_eq_Inr Let_def case_prod_unfold)
  from sys_run_step [OF reads [OF watch [OF assms(1) this]] assms(3)]
  have r: "sys_run tls api arrivals st st1" .
  have "(if logs (snd ?st) = [] then waited t ?st else ?st) = ?st" using assms(2) by simp
  from assms(5) this assms(6) show ?thesis
  proof (cases rule: Run_turn_cases [consumes 3, case_names skip loop])
    case skip
    from sys_run.go [OF r reads [OF log_section.skip [OF assms(4) skip(3)]]] skip(1,2) show ?thesis
      by (intro exI [of _ "st1\<lparr>watched := None\<rparr>"]) simp
  next
    case (loop rd ex ds es2 w)
    from sys_run.go [OF r reads [OF read [OF assms(4) loop(5) loop(2) [unfolded loop(3,4) snd_conv]]]] loop(1)
    show ?thesis by force
  qed
qed

section \<open>The invariant\<close>

text \<open>
  The clients are well formed and the counter is an \<^verbatim>\<open>int\<close>, the buffers keep their sizes, and
  after the shutdown the map stays empty. What holds of the requests follows from the refinement.
\<close>

definition store_ok :: "('s, 'w) system \<Rightarrow> bool" where
  "store_ok st \<longleftrightarrow> clients_ok (clients (web st)) \<and> 0 \<le> id_counter (web st) \<and> id_counter (web st) \<le> INT_MAX \<and>
     length (data_buf st) = 2048 \<and> length (line_buf st) = 2048 \<and> (ended st \<longrightarrow> clients (web st) = [])"

lemma starts_ok:
  assumes "starts st"
  shows "store_ok st" and "clients (web st) = []" and "logs (logsrv st) = []" and "\<not> ended st"
proof -
  obtain p q cf pkf create1 create2 errno memory w srv where
    srv: "LogServer p q cf pkf memory w = (srv, logsrv st)" "Run create1 create2 errno srv = (0, web st)"
    and rest: "length (data_buf st) = 2048" "length (line_buf st) = 2048" "\<not> ended st"
    using assms unfolding starts_def by blast
  have "clients (web st) = []" "id_counter (web st) = 0"
    using srv by (auto simp: LogServer_def WebSocketServer_def Run_def Let_def split: if_splits dest: sym)
  with rest show "store_ok st" "clients (web st) = []" "\<not> ended st"
    by (simp_all add: store_ok_def clients_ok_def map_ok_def INT_MAX_def)
  show "logs (logsrv st) = []" using srv(1) by (auto simp: LogServer_def dest: sym)
qed

lemma accept_step_enters:
  assumes "clients_ok (clients srv)" and "0 \<le> id_counter srv" and "id_counter srv \<le> INT_MAX" and "arrival_ok ar"
    and s: "accept_step api ar srv = Inr (signalled, dropped, srv')"
  shows "srv' = srv \<or> (\<exists>k c. get_client srv k = None \<and> id_counter srv \<le> k \<and> k \<le> INT_MAX \<and>
    srv' = srv\<lparr>id_counter := k, clients := map_put (clients srv) k c\<rparr> \<and> entry_ok (k, c) \<and>
    0 < socket c \<and> \<not> handshaked c \<and> (\<exists>c0. accepted ar = (0, c0) \<and> tls_connection c = tls_connection c0))"
proof -
  obtain ret c where acc: "accepted ar = (ret, c)" by fastforce
  show ?thesis
  proof (cases "ret = 0")
    case False
    with s acc show ?thesis by (simp add: accept_step_def accepted_def)
  next
    case True
    have fc: "0 \<le> ar_fcntl ar" using assms(4) by (simp add: arrival_ok_def)
    obtain i srv1 where g: "GenerateID srv = Inr (i, srv1)"
      using s acc True fc by (auto simp: accept_step_def accepted_def SetNonBlocking_def bind_r_eq_Inr)
    show ?thesis
    proof (cases "0 \<le> i")
      case False
      with s acc True fc g have "srv' = srv1" by (auto simp: accept_step_def accepted_def SetNonBlocking_def)
      moreover have "srv1 = srv"
        using g False id_loop_found [of "clients srv" "id_counter srv" 0] assms(2)
        by (auto simp: GenerateID_def bind_r_eq_Inr split: option.splits)
      ultimately show ?thesis by simp
    next
      case pos: True
      then obtain k where k: "id_loop (clients srv) (id_counter srv) 0 = Inr (Some k)" "i = k" "srv1 = srv\<lparr>id_counter := k\<rparr>"
        using g by (auto simp: GenerateID_def bind_r_eq_Inr split: option.splits)
      from id_loop_found [OF k(1)] have f: "get_client srv k = None" "id_counter srv \<le> k" "k \<le> INT_MAX"
        by (simp_all add: get_client_def)
      have "entry_ok (k, set_id c k)"
        using accepted_fields [OF acc] True assms(2,4) f(2)
        by (auto simp: entry_ok_def set_id_def arrival_ok_def client_ok_def bufs_ok_def fd_ok_def BUF_LEN_def)
      moreover have "0 < socket (set_id c k)" "\<not> handshaked (set_id c k)" "tls_connection (set_id c k) = tls_connection c"
        using accepted_fields(1,5) [OF acc] True by (simp_all add: set_id_def)
      ultimately show ?thesis
        using f accept_step_joins [OF acc [unfolded True] fc g pos, of api] s k acc True by auto
    qed
  qed
qed

text \<open>
  The handlers of the log server once more, without the condition that every stream is open,
  which a failing log destroys.
\<close>

interpretation lw: ws_app "log_handlers api fresh" "do_request api"
  "\<lambda>a i. DeleteRequestsFromClient api i a" owned "\<lambda>_. True" for api fresh
proof
  show "True \<and> owned a' \<subseteq> insert i (owned a)" if "do_request api a i m = Inr a'" for a a' i m
    using do_request_owned(1) [OF that] by simp
  show "True \<and> owned a' \<subseteq> owned a - {i}" if "DeleteRequestsFromClient api i a = Inr a'" for a a' i
    using release_requests [OF that] by (auto simp: owned_def)
qed (simp_all add: lg.on_message lg.on_disconnect)

section \<open>The events of a step\<close>

definition board_of :: "('s, 'w) system \<Rightarrow> board" where
  "board_of st = (keys (clients (web st)), requests (logsrv st))"

fun may :: "actor \<Rightarrow> event \<Rightarrow> bool" where
  "may Accepter e = (case e of Join i \<Rightarrow> True | Finish \<Rightarrow> True | _ \<Rightarrow> False)"
| "may Listener e = (case e of Leave i \<Rightarrow> True | Add i n \<Rightarrow> True | Del i n \<Rightarrow> True | _ \<Rightarrow> False)"
| "may Reader e = (case e of Lose R \<Rightarrow> True | _ \<Rightarrow> False)"
| "may Caller e = False"
| "may OpSys e = False"

text \<open>A message is the event it asks for, if any.\<close>

lemma do_request_happens:
  assumes "do_request api a i m = Inr a'" and "i \<in> I"
  shows "\<exists>es. (\<forall>e \<in> set es. may Listener e) \<and> happens es (I, requests a) = Some (I, requests a')"
proof (cases "request_of m")
  case (AddLog n)
  with assms(1) have a': "a' = add_request api i n a" by (simp add: do_request_def)
  from add_request_requests [of api i n a] show ?thesis
  proof
    assume "requests (add_request api i n a) = requests a"
    with a' show ?thesis by (intro exI [of _ "[]"]) simp
  next
    assume "requests (add_request api i n a) = requests a @ [(i, n)]"
    with a' assms(2) request_of_no_dots [OF AddLog] show ?thesis by (intro exI [of _ "[Add i n]"]) simp
  qed
next
  case (DelLog n)
  with assms(1) have "stop_request api i n a = Inr a'" by (simp add: do_request_def)
  from stop_request_requests [OF this] assms(2) show ?thesis by (intro exI [of _ "[Del i (cstr n)]"]) simp
next
  case Ignored
  with assms(1) show ?thesis by (intro exI [of _ "[]"]) (simp add: do_request_def)
qed

lemma app_steps_happen:
  "app_steps (do_request api) (\<lambda>a i. DeleteRequestsFromClient api i a) I a I' a' \<Longrightarrow>
   \<exists>es. (\<forall>e \<in> set es. may Listener e) \<and> happens es (I, requests a) = Some (I', requests a')"
proof (induction rule: app_steps.induct)
  case (same I a)
  show ?case by (intro exI [of _ "[]"]) simp
next
  case (message i I a m a1 I' a')
  from do_request_happens [OF message(2,1)] obtain es where
    "\<forall>e \<in> set es. may Listener e" "happens es (I, requests a) = Some (I, requests a1)" by blast
  moreover obtain es' where
    "\<forall>e \<in> set es'. may Listener e" "happens es' (I, requests a1) = Some (I', requests a')"
    using message(4) by blast
  ultimately show ?case by (intro exI [of _ "es @ es'"]) (auto simp: happens_append)
next
  case (gone i I a a1 I' a')
  obtain es where es: "\<forall>e \<in> set es. may Listener e" "happens es (I - {i}, requests a1) = Some (I', requests a')"
    using gone(4) by blast
  have "requests a1 = filter (\<lambda>r. fst r \<noteq> i) (requests a)"
    using release_requests [OF gone(2)] by (simp add: requests_def request_def filter_map comp_def)
  with gone(1) es show ?case by (intro exI [of _ "Leave i # es"]) auto
qed

lemma clients_find:
  assumes "clients_ok es" and "i \<in> keys es"
  obtains c where "map_find es i = Some c" "entry_ok (i, c)"
proof -
  obtain c where "map_of es i = Some c"
    using assms(2) by (metis keys_def map_of_eq_None_iff not_None_eq)
  with that map_of_SomeD [OF this] assms(1) show thesis by (simp add: map_find_def clients_ok_def)
qed


lemma keys_put_new: "keys (map_put m k v) = insert k (keys m)"
  by (simp add: keys_def map_put_keys)

lemma subseq_filter_map: "subseq (map f (filter P xs)) (map f xs)"
  by (induction xs) auto

text \<open>A turn of the log thread only loses requests.\<close>

lemma log_loop_loses:
  assumes "log_loop api tls rd ex (logs a) buf es (os a) = Inr (ds, buf', es', w)"
    and "clients_ok es" and "length buf = 2048"
  shows "clients_ok es' \<and> keys es' = keys es \<and> length buf' = 2048 \<and>
    subseq (requests (a\<lparr>logs := ds, os := w\<rparr>)) (requests a)"
proof -
  note k = log_loop_keeps [OF assms]
  with subseq_filter_map have "subseq (map request ds) (map request (logs a))"
    by (blast intro: subseq_order.order_trans)
  with k show ?thesis by (simp add: requests_def)
qed

section \<open>The refinement\<close>

text \<open>Each step keeps the invariant and is a sequence of the events its actor may cause.\<close>

lemma enter_step:
  assumes "store_ok st" and "\<not> ended st" and "arrival_ok ar"
    and "accept_step tls ar (web st) = Inr (signalled, dropped, srv)"
  shows "store_ok (st\<lparr>web := srv\<rparr>) \<and>
    (\<exists>es. (\<forall>e \<in> set es. may Accepter e \<and> e \<noteq> Finish) \<and>
       happens es (board_of st) = Some (board_of (st\<lparr>web := srv\<rparr>)))"
proof -
  have ok: "clients_ok (clients (web st))" "0 \<le> id_counter (web st)" "id_counter (web st) \<le> INT_MAX"
    using assms(1) by (simp_all add: store_ok_def)
  from accept_step_enters [OF ok assms(3,4)] show ?thesis
  proof (elim disjE exE conjE)
    assume "srv = web st"
    with assms(1) show ?thesis by (intro conjI exI [of _ "[]"]) simp_all
  next
    fix k c
    assume k: "get_client (web st) k = None" "id_counter (web st) \<le> k" "k \<le> INT_MAX" "entry_ok (k, c)"
      and srv: "srv = (web st)\<lparr>id_counter := k, clients := map_put (clients (web st)) k c\<rparr>"
    have "k \<notin> keys (clients (web st))"
      using k(1) by (simp add: get_client_def map_find_def keys_def map_of_eq_None_iff)
    with k ok srv assms(1,2) clients_ok_put [OF ok(1) k(4)] show ?thesis
      by (intro conjI exI [of _ "[Join k]"]) (simp_all add: store_ok_def board_of_def keys_put_new)
  qed
qed

lemma serve_step:
  assumes api: "ssl_read_ok tls" "ssl_stream_ok tls pending" and ok: "store_ok st"
    and s: "serve_clients tls (log_handlers api fresh) ready (clients (web st)) (data_buf st) (logsrv st) =
      Inr (es, buf, a)"
    and st': "st' = st\<lparr>web := (web st)\<lparr>clients := es\<rparr>, logsrv := a, data_buf := buf, selecting := False\<rparr>"
  shows "store_ok st' \<and>
    (\<exists>es. (\<forall>e \<in> set es. may Listener e) \<and> happens es (board_of st) = Some (board_of st'))"
proof -
  have c: "clients_ok (clients (web st))" "length (data_buf st) = 2048" using ok by (simp_all add: store_ok_def)
  have "es = []" if "clients (web st) = []" using s that by simp
  with lw.serve_clients_outcome [OF api s c] ok have "store_ok st'" by (auto simp: store_ok_def st')
  with app_steps_happen [OF lw.serve_clients_steps [OF api s c]] show ?thesis by (simp add: board_of_def st')
qed

lemma read_step:
  assumes ok: "store_ok st"
    and l: "log_loop api tls rd ex (logs (logsrv st)) (line_buf st) (clients (web st)) (os (logsrv st)) = Inr (ds, buf, es, w)"
    and st': "st' = st\<lparr>web := (web st)\<lparr>clients := es\<rparr>, logsrv := (logsrv st)\<lparr>logs := ds, os := w\<rparr>,
      line_buf := buf, watched := None\<rparr>"
  shows "store_ok st' \<and>
    (\<exists>es. (\<forall>e \<in> set es. may Reader e) \<and> happens es (board_of st) = Some (board_of st'))"
proof -
  have c: "clients_ok (clients (web st))" "length (line_buf st) = 2048" using ok by (simp_all add: store_ok_def)
  note k = log_loop_loses [OF l c]
  have "es = []" if "clients (web st) = []" using k that by (simp add: keys_def)
  with k ok have "store_ok st'" by (simp add: store_ok_def st')
  moreover have "happens [Lose (requests (logsrv st'))] (board_of st) = Some (board_of st')"
    using k by (simp add: board_of_def st')
  ultimately show ?thesis by (intro conjI exI [of _ "[Lose (requests (logsrv st'))]"]) simp_all
qed

lemma sys_step_outcome:
  assumes api: "ssl_read_ok tls" "ssl_stream_ok tls pending" and arr: "\<forall>ar \<in> arrivals. arrival_ok ar"
    and "sys_step tls api arrivals st t st'" and ok: "store_ok st"
  shows "store_ok st' \<and>
    (\<exists>es. (\<forall>e \<in> set es. may t e \<and> (e = Finish \<longrightarrow> ended st')) \<and>
       happens es (board_of st) = Some (board_of st')) \<and> (ended st \<longrightarrow> ended st')"
  using assms(4)
proof cases
  case accepts
  from accepts(2) show ?thesis
  proof cases
    case (enter ar signalled dropped srv)
    with enter_step [OF ok enter(2) _ enter(4)] arr accepts(1) show ?thesis by fastforce
  next
    case (finish es)
    with ok accepts(1) show ?thesis
      by (intro conjI exI [of _ "[Finish]"]) (simp_all add: store_ok_def board_of_def clients_ok_def map_ok_def keys_def)
  qed
next
  case listens
  from listens(2) show ?thesis
  proof cases
    case (serve fresh ready es buf a)
    with serve_step [OF api ok serve(3,1)] listens(1) show ?thesis by fastforce
  qed (use ok in \<open>auto simp: store_ok_def board_of_def intro!: exI [of _ "[]"]\<close>)
next
  case reads
  from reads(2) show ?thesis
  proof cases
    case (read fds sel ds buf es w)
    with read_step [OF ok read(4,1)] reads(1) show ?thesis by fastforce
  qed (use ok in \<open>auto simp: store_ok_def board_of_def intro!: exI [of _ "[]"]\<close>)
qed (use ok in \<open>auto simp: store_ok_def board_of_def Stop_def requests_def intro!: exI [of _ "[]"]\<close>)

text \<open>Every run from the start has a history of events that explains its board.\<close>

lemma sys_run_history:
  assumes api: "ssl_read_ok tls" "ssl_stream_ok tls pending" and arr: "\<forall>ar \<in> arrivals. arrival_ok ar"
    and "sys_run tls api arrivals st0 st" and "starts st0"
  shows "store_ok st \<and>
    (\<exists>es. happens es ({}, []) = Some (board_of st) \<and> (\<not> ended st \<longrightarrow> Finish \<notin> set es))"
  using assms(4,5)
proof (induction rule: sys_run.induct)
  case (stay st)
  with starts_ok [OF stay] show ?case
    by (intro conjI exI [of _ "[]"]) (simp_all add: board_of_def keys_def requests_def)
next
  case (go st0 st1 t st)
  then obtain es where es: "store_ok st1" "happens es ({}, []) = Some (board_of st1)"
    "\<not> ended st1 \<longrightarrow> Finish \<notin> set es" by blast
  from sys_step_outcome [OF api arr go.hyps(2) es(1)] obtain fs where
    fs: "store_ok st" "\<forall>e \<in> set fs. e = Finish \<longrightarrow> ended st" "happens fs (board_of st1) = Some (board_of st)"
    "ended st1 \<longrightarrow> ended st" by blast
  have "happens (es @ fs) ({}, []) = Some (board_of st)" by (rule happens_appendI [OF es(2) fs(3)])
  with es(3) fs show ?case by (intro conjI exI [of _ "es @ fs"]) auto
qed

lemma sys_run_requests:
  assumes api: "ssl_read_ok tls" "ssl_stream_ok tls pending" and arr: "\<forall>ar \<in> arrivals. arrival_ok ar"
    and "sys_run tls api arrivals st0 st" and "starts st0" and "(i, n) \<in> set (requests (logsrv st))"
  shows "\<not> sublist [46, 46] n" and "\<not> ended st \<Longrightarrow> i \<in> keys (clients (web st))"
proof -
  from sys_run_history [OF assms(1-5)] obtain es where
    es: "happens es ({}, []) = Some (keys (clients (web st)), requests (logsrv st))"
    "\<not> ended st \<longrightarrow> Finish \<notin> set es" by (auto simp: board_of_def)
  from happens_request [OF es(1) assms(6)] show "\<not> sublist [46, 46] n" by blast
  show "i \<in> keys (clients (web st))" if "\<not> ended st"
    using happens_owners [OF es(1)] es(2) that assms(6) by force
qed

end
