(* ===== verification/Log_Sends.thy ===== *)
theory Log_Sends
  imports Log_Run
begin

text \<open>
  What a turn of the log thread puts on the wire of each client: the lines of the logs it has
  asked for, each as one text frame, at most one for each request, in the order of the list.
\<close>

section \<open>Lines\<close>

text \<open>A line that \<open>GetNextLine\<close> gives for a description, and what is sent for a list of lines.\<close>

definition line_of :: "'w os_api \<Rightarrow> log_description \<Rightarrow> byte list \<Rightarrow> bool" where
  "line_of api d l \<longleftrightarrow> (\<exists>buf w d1 buf1 w1. length buf = 2048 \<and>
     GetNextLine api d buf 2048 w = Inr (0, d1, buf1, w1) \<and> l = cstr buf1)"

definition line_frames :: "byte list list \<Rightarrow> byte list" where
  "line_frames ls = concat (map (rfc_server_frame (frame_code WS_TEXT_FRAME)) ls)"

lemma line_frames_simps [simp]:
  "line_frames [] = []"
  "line_frames (l # ls) = rfc_server_frame (frame_code WS_TEXT_FRAME) l @ line_frames ls"
  by (simp_all add: line_frames_def)

text \<open>The lines of some of the logs, one for each, in order.\<close>

definition lines_of_logs :: "'w os_api \<Rightarrow> log_description list \<Rightarrow> byte list list \<Rightarrow> bool" where
  "lines_of_logs api ds ls \<longleftrightarrow> (\<exists>ds'. subseq ds' ds \<and> list_all2 (line_of api) ds' ls)"

lemma lines_of_logs_Nil: "lines_of_logs api ds []"
  by (auto simp: lines_of_logs_def intro!: exI [of _ "[]"])

lemma lines_of_logs_Cons: "line_of api d l \<Longrightarrow> lines_of_logs api ds ls \<Longrightarrow> lines_of_logs api (d # ds) (l # ls)"
  unfolding lines_of_logs_def by (metis list.rel_intros(2) subseq_Cons2)

lemma lines_of_logs_skip: "lines_of_logs api ds ls \<Longrightarrow> lines_of_logs api (d # ds) ls"
  unfolding lines_of_logs_def by (blast intro: list_emb_Cons)

section \<open>One log, and all of them\<close>

lemma Send_handshaked: "Send tls c m = Inr (r, c') \<Longrightarrow> handshaked c' = handshaked c"
  by (auto simp: Send_def SendFrame_def bind_r_eq_Inr Let_def split: option.splits if_splits prod.splits)

lemma read_log_lines:
  assumes "ssl_write_ok tls sent" and buf: "length buf = 2048" and es: "clients_ok es" "map_find es i = Some c"
    and r: "read_log api tls d buf es w = Inr (kept, buf', es', w')"
  shows "\<exists>c' ls. map_find es' i = Some c' \<and> handshaked c' = handshaked c \<and>
    sent (tls_connection c') = sent (tls_connection c) @ line_frames ls \<and>
    (ls = [] \<or> (\<exists>l. ls = [l] \<and> log_client_id d = i \<and> line_of api d l))"
proof (cases "map_find es (log_client_id d)")
  case None
  with r have "es' = es" by (auto simp: read_log_def bind_r_eq_Inr)
  with es(2) show ?thesis by (intro exI [of _ c] exI [of _ "[]"]) simp
next
  case (Some cd)
  then obtain ret d1 buf1 w1 where g: "GetNextLine api d buf 2048 w = Inr (ret, d1, buf1, w1)"
    using r by (auto simp: read_log_def MSG_BUF_LEN_def bind_r_eq_Inr)
  show ?thesis
  proof (cases "ret = 0")
    case False
    with r g Some have "es' = es" by (auto simp: read_log_def MSG_BUF_LEN_def)
    with es(2) show ?thesis by (intro exI [of _ c] exI [of _ "[]"]) simp
  next
    case True
    then obtain rs c1 where s: "Send tls cd (cstr buf1) = Inr (rs, c1)"
      and es': "es' = map_put es (log_client_id d) c1"
      using r g Some by (auto simp: read_log_def MSG_BUF_LEN_def bind_r_eq_Inr)
    have "(log_client_id d, cd) \<in> set es" using Some by (simp add: map_find_def map_of_SomeD)
    then have cd: "bufs_ok cd" using es(1) by (auto simp: clients_ok_def entry_ok_def client_ok_def)
    have "length (cstr buf1) \<le> 2048"
      using length_cstr [of buf1] GetNextLine_request [OF g] buf by simp
    then have "sent (tls_connection c1) \<in> {sent (tls_connection cd),
        sent (tls_connection cd) @ rfc_server_frame (frame_code WS_TEXT_FRAME) (cstr buf1)}"
      using Send_outcome [OF assms(1) cd _ s] by (auto split: if_splits)
    then have c1: "\<exists>ls. sent (tls_connection c1) = sent (tls_connection cd) @ line_frames ls \<and>
        (ls = [] \<or> ls = [cstr buf1])"
      by (auto intro: exI [of _ "[]"] exI [of _ "[cstr buf1]"])
    have l: "line_of api d (cstr buf1)" using g True buf unfolding line_of_def by blast
    have "map_find es' = (map_find es)(log_client_id d \<mapsto> c1)"
      using es' es(1) map_find_put by (auto simp: clients_ok_def)
    with c1 l es(2) Some Send_handshaked [OF s] show ?thesis
      by (cases "log_client_id d = i") (auto intro: exI [of _ "[]"])
  qed
qed

lemma log_step_lines:
  assumes "ssl_write_ok tls sent" and "length buf = 2048" and "clients_ok es" and "map_find es i = Some c"
    and "log_step api tls rd ex d buf es w = Inr (kept, buf', es', w')"
  shows "\<exists>c' ls. map_find es' i = Some c' \<and> handshaked c' = handshaked c \<and>
    sent (tls_connection c') = sent (tls_connection c) @ line_frames ls \<and>
    (ls = [] \<or> (\<exists>l. ls = [l] \<and> log_client_id d = i \<and> line_of api d l))"
proof -
  obtain kept1 w1 where
    "(if rd (log_fd d) then read_log api tls d buf es w else Inr (Some d, buf, es, w)) =
      Inr (kept1, buf', es', w1)"
    using assms(5) by (auto simp: log_step_def check_except_def bind_r_eq_Inr split: option.splits if_splits)
  with read_log_lines [OF assms(1-4)] assms(4) show ?thesis
    by (cases "rd (log_fd d)") (auto intro: exI [of _ "[]"])
qed

lemma log_loop_lines:
  assumes "ssl_write_ok tls sent"
  shows "log_loop api tls rd ex ds buf es w = Inr (ds', buf', es', w') \<Longrightarrow> length buf = 2048 \<Longrightarrow>
    clients_ok es \<Longrightarrow> map_find es i = Some c \<Longrightarrow>
    \<exists>c' ls. map_find es' i = Some c' \<and> handshaked c' = handshaked c \<and>
      sent (tls_connection c') = sent (tls_connection c) @ line_frames ls \<and>
      lines_of_logs api (filter (\<lambda>d. log_client_id d = i) ds) ls"
proof (induction ds arbitrary: buf es w ds' c)
  case Nil
  then show ?case by (intro exI [of _ c] exI [of _ "[]"]) (simp add: lines_of_logs_Nil)
next
  case (Cons d ds)
  obtain kept buf1 es1 w1 ds1 where
    s: "log_step api tls rd ex d buf es w = Inr (kept, buf1, es1, w1)"
    and l: "log_loop api tls rd ex ds buf1 es1 w1 = Inr (ds1, buf', es', w')"
    using Cons.prems(1) by (auto simp: bind_r_eq_Inr)
  have k: "length buf1 = 2048" "clients_ok es1" using log_step_keeps [OF Cons.prems(3,2) s] by simp_all
  obtain c1 ls where c1: "map_find es1 i = Some c1" "handshaked c1 = handshaked c"
    "sent (tls_connection c1) = sent (tls_connection c) @ line_frames ls"
    "ls = [] \<or> (\<exists>l. ls = [l] \<and> log_client_id d = i \<and> line_of api d l)"
    using log_step_lines [OF assms Cons.prems(2-4) s] by blast
  obtain c' ls' where c': "map_find es' i = Some c'" "handshaked c' = handshaked c1"
    "sent (tls_connection c') = sent (tls_connection c1) @ line_frames ls'"
    "lines_of_logs api (filter (\<lambda>d. log_client_id d = i) ds) ls'"
    using Cons.IH [OF l k c1(1)] by blast
  have "lines_of_logs api (filter (\<lambda>d. log_client_id d = i) (d # ds)) (ls @ ls')"
    using c1(4) c'(4) lines_of_logs_Cons lines_of_logs_skip by fastforce
  with c1(2,3) c'(1-3) show ?case
    by (intro exI [of _ c'] exI [of _ "ls @ ls'"]) (simp add: line_frames_def)
qed

end
