(* ===== verification/System_Wire.thy ===== *)
theory System_Wire
  imports System Log_Sends
begin

text \<open>
  Everything a client has ever been sent: nothing before it has opened its web socket, and then
  the answer to its request followed by the lines of logs it has asked for, as an invariant of
  the whole program.
\<close>

section \<open>The bytes sent to a client\<close>

text \<open>Lines the client \<open>i\<close> may have: of logs requested by it, under names that were checked.\<close>

definition lines_for :: "'w os_api \<Rightarrow> int \<Rightarrow> byte list list \<Rightarrow> bool" where
  "lines_for api i ls \<longleftrightarrow>
     (\<forall>l \<in> set ls. \<exists>d. log_client_id d = i \<and> \<not> sublist [46, 46] (log_name d) \<and> line_of api d l)"

definition wire_ok :: "'w os_api \<Rightarrow> ('s \<Rightarrow> byte list) \<Rightarrow> int \<Rightarrow> 's client \<Rightarrow> bool" where
  "wire_ok api sent i c \<longleftrightarrow>
     (if handshaked c
      then \<exists>key ls. lines_for api i ls \<and>
        sent (tls_connection c) = answer_text (rfc_accept key) @ line_frames ls
      else sent (tls_connection c) = [])"

definition wires_ok :: "'w os_api \<Rightarrow> ('s \<Rightarrow> byte list) \<Rightarrow> ('s, 'w) system \<Rightarrow> bool" where
  "wires_ok api sent st \<longleftrightarrow>
     (\<forall>(i, c) \<in> set (clients (web st)). wire_ok api sent i c \<and> (i \<in> owned (logsrv st) \<longrightarrow> handshaked c))"

text \<open>A connection that is accepted has not been sent anything yet.\<close>

definition fresh_wires :: "('s \<Rightarrow> byte list) \<Rightarrow> 's arrival set \<Rightarrow> bool" where
  "fresh_wires sent arrivals \<longleftrightarrow>
     (\<forall>ar \<in> arrivals. \<forall>c. accepted ar = (0, c) \<longrightarrow> sent (tls_connection c) = [])"

lemma wire_okI:
  assumes "handshaked c" and "lines_for api i ls"
    and "sent (tls_connection c) = answer_text (rfc_accept key) @ line_frames ls"
  shows "wire_ok api sent i c"
  using assms by (auto simp: wire_ok_def)

lemma wire_ok_talks: "wire_ok api sent i c \<Longrightarrow> talks sent c c' \<Longrightarrow> wire_ok api sent i c'"
proof (cases "handshaked c' = handshaked c")
  case False
  moreover assume w: "wire_ok api sent i c" and t: "talks sent c c'"
  ultimately obtain key where "handshaked c'" "\<not> handshaked c"
    "sent (tls_connection c') = sent (tls_connection c) @ answer_text (rfc_accept key)"
    by (auto simp: talks_def)
  with w show ?thesis by (intro wire_okI [of c' api i "[]" sent key]) (simp_all add: wire_ok_def lines_for_def)
qed (auto simp: wire_ok_def talks_def)

lemma talks_handshaked: "talks sent c c' \<Longrightarrow> handshaked c \<Longrightarrow> handshaked c'"
  by (simp add: talks_def)

lemma wire_ok_lines:
  assumes "wire_ok api sent i c" and "handshaked c" and "handshaked c' = handshaked c"
    and "sent (tls_connection c') = sent (tls_connection c) @ line_frames ls" and "lines_for api i ls"
  shows "wire_ok api sent i c'"
proof -
  obtain key ls0 where ls0: "lines_for api i ls0"
    "sent (tls_connection c) = answer_text (rfc_accept key) @ line_frames ls0"
    using assms(1,2) by (auto simp: wire_ok_def)
  with assms show ?thesis
    by (intro wire_okI [of c' api i "ls0 @ ls" sent key]) (auto simp: lines_for_def line_frames_def)
qed

lemma lines_of_logs_for:
  assumes "lines_of_logs api (filter (\<lambda>d. log_client_id d = i) ds) ls"
    and "\<forall>d \<in> set ds. \<not> sublist [46, 46] (log_name d)"
  shows "lines_for api i ls" and "ls \<noteq> [] \<Longrightarrow> i \<in> log_client_id ` set ds"
proof -
  obtain ds' where d: "subseq ds' (filter (\<lambda>d. log_client_id d = i) ds)" "list_all2 (line_of api) ds' ls"
    using assms(1) by (auto simp: lines_of_logs_def)
  have sub: "d \<in> set ds \<and> log_client_id d = i" if "d \<in> set ds'" for d
    using subseq_in [OF d(1) that] by simp
  have "\<exists>d \<in> set ds'. line_of api d l" if "l \<in> set ls" for l
    using d(2) that by (metis in_set_conv_nth list_all2_conv_all_nth)
  with sub assms(2) show "lines_for api i ls" by (fastforce simp: lines_for_def)
  show "i \<in> log_client_id ` set ds" if "ls \<noteq> []"
    using that d(2) sub by (cases ds') auto
qed

section \<open>Every step keeps it\<close>

lemma enter_wires:
  assumes ok: "store_ok st" "wires_ok api sent st" and free: "owned (logsrv st) \<subseteq> keys (clients (web st))"
    and ar: "arrival_ok ar" "fresh_wires sent arrivals" "ar \<in> arrivals"
    and s: "accept_step tls ar (web st) = Inr (signalled, dropped, srv)"
  shows "wires_ok api sent (st\<lparr>web := srv\<rparr>)"
proof -
  have web: "clients_ok (clients (web st))" "0 \<le> id_counter (web st)" "id_counter (web st) \<le> INT_MAX"
    using ok(1) by (simp_all add: store_ok_def)
  from accept_step_enters [OF web ar(1) s] show ?thesis
  proof (elim disjE exE conjE)
    assume "srv = web st"
    with ok(2) show ?thesis by simp
  next
    fix k c c0
    assume k: "get_client (web st) k = None" "\<not> handshaked c" "accepted ar = (0, c0)"
      "tls_connection c = tls_connection c0"
      and srv: "srv = (web st)\<lparr>id_counter := k, clients := map_put (clients (web st)) k c\<rparr>"
    have new: "wire_ok api sent k c"
      using k(2-4) ar(2,3) unfolding wire_ok_def fresh_wires_def by auto
    have "k \<notin> owned (logsrv st)"
      using k(1) free by (auto simp: get_client_def map_find_def keys_def map_of_eq_None_iff)
    with new ok(2) set_map_put [of "clients (web st)" k c] show ?thesis
      unfolding wires_ok_def srv by fastforce
  qed
qed

lemma serve_wires:
  assumes api: "ssl_read_ok tls" "ssl_stream_ok tls pending" "ssl_write_ok tls sent"
    and ok: "store_ok st" "wires_ok api sent st"
    and s: "serve_clients tls (log_handlers api fresh) ready (clients (web st)) (data_buf st) (logsrv st) =
      Inr (es, buf, a)"
  shows "wires_ok api sent
    (st\<lparr>web := (web st)\<lparr>clients := es\<rparr>, logsrv := a, data_buf := buf, selecting := False\<rparr>)"
proof -
  have c: "clients_ok (clients (web st))" "length (data_buf st) = 2048" using ok(1) by (simp_all add: store_ok_def)
  have "wire_ok api sent i c' \<and> (i \<in> owned a \<longrightarrow> handshaked c')" if m: "(i, c') \<in> set es" for i c'
  proof -
    obtain c where c: "(i, c) \<in> set (clients (web st))" "talks sent c c'"
      "i \<in> owned a \<longrightarrow> i \<in> owned (logsrv st) \<or> handshaked c'"
      using lw.serve_clients_talk [OF api s c _ m] by blast
    with ok(2) have "wire_ok api sent i c" "i \<in> owned (logsrv st) \<longrightarrow> handshaked c" by (auto simp: wires_ok_def)
    with c(3) wire_ok_talks [OF _ c(2)] talks_handshaked [OF c(2)] show ?thesis by blast
  qed
  then show ?thesis by (auto simp: wires_ok_def)
qed

lemma read_wires:
  assumes w: "ssl_write_ok tls sent" and ok: "store_ok st" "wires_ok api sent st"
    and names: "\<forall>d \<in> set (logs (logsrv st)). \<not> sublist [46, 46] (log_name d)"
    and l: "log_loop api tls rd ex (logs (logsrv st)) (line_buf st) (clients (web st)) (os (logsrv st)) = Inr (ds, buf, es, w')"
  shows "wires_ok api sent (st\<lparr>web := (web st)\<lparr>clients := es\<rparr>, logsrv := (logsrv st)\<lparr>logs := ds, os := w'\<rparr>,
      line_buf := buf, watched := None\<rparr>)"
proof -
  have c: "clients_ok (clients (web st))" "length (line_buf st) = 2048" using ok(1) by (simp_all add: store_ok_def)
  note k = log_loop_loses [OF l c]
  have own: "i \<in> log_client_id ` set ds \<Longrightarrow> i \<in> owned (logsrv st)" for i
    using set_subseq [of "requests ((logsrv st)\<lparr>logs := ds, os := w'\<rparr>)" "requests (logsrv st)"] k
    by (force simp: owned_requests requests_def request_def)
  have "wire_ok api sent i c' \<and> (i \<in> log_client_id ` set ds \<longrightarrow> handshaked c')" if m: "(i, c') \<in> set es" for i c'
  proof -
    have i: "map_find es i = Some c'"
      using m k by (simp add: clients_ok_def map_ok_def map_find_def strict_sorted_iff)
    have "i \<in> keys (clients (web st))" using m k by (force simp: keys_def)
    with c(1) obtain c0 where c0: "map_find (clients (web st)) i = Some c0" by (rule clients_find)
    then have "(i, c0) \<in> set (clients (web st))" by (simp add: map_find_def map_of_SomeD)
    with ok(2) have w0: "wire_ok api sent i c0" "i \<in> owned (logsrv st) \<longrightarrow> handshaked c0"
      by (auto simp: wires_ok_def)
    obtain ls where ls: "handshaked c' = handshaked c0"
      "sent (tls_connection c') = sent (tls_connection c0) @ line_frames ls"
      "lines_of_logs api (filter (\<lambda>d. log_client_id d = i) (logs (logsrv st))) ls"
      using log_loop_lines [OF w l c(2,1) c0] by (auto simp: i)
    note f = lines_of_logs_for [OF ls(3) names]
    have "wire_ok api sent i c'"
    proof (cases "ls = []")
      case True
      with w0(1) ls show ?thesis by (auto simp: wire_ok_def)
    next
      case False
      with f(2) w0(2) have "handshaked c0" by (simp add: owned_def)
      with wire_ok_lines [OF w0(1) _ ls(1,2) f(1)] show ?thesis by simp
    qed
    with own w0(2) ls(1) show ?thesis by auto
  qed
  then show ?thesis by (auto simp: wires_ok_def owned_def)
qed

section \<open>Runs\<close>

lemma wires_same:
  "wires_ok api sent st \<Longrightarrow> clients (web st') = clients (web st) \<Longrightarrow> logs (logsrv st') = logs (logsrv st) \<Longrightarrow>
   wires_ok api sent st'"
  by (simp add: wires_ok_def owned_def)

lemma step_wires:
  assumes api: "ssl_read_ok tls" "ssl_stream_ok tls pending" "ssl_write_ok tls sent"
    and arr: "\<forall>ar \<in> arrivals. arrival_ok ar" "fresh_wires sent arrivals"
    and ok: "store_ok st" "wires_ok api sent st"
    and req: "\<forall>d \<in> set (logs (logsrv st)). \<not> sublist [46, 46] (log_name d)"
      "\<not> ended st \<Longrightarrow> owned (logsrv st) \<subseteq> keys (clients (web st))"
    and step: "sys_step tls api arrivals st t st'"
  shows "wires_ok api sent st'"
  using step
proof cases
  case accepts
  from accepts(2) show ?thesis
  proof cases
    case (enter ar signalled dropped srv)
    with enter_wires [OF ok req(2) _ arr(2) _ enter(4)] arr(1) show ?thesis by blast
  next
    case finish
    then show ?thesis by (simp add: wires_ok_def)
  qed
next
  case listens
  from listens(2) show ?thesis
  proof cases
    case fill
    then show ?thesis using wires_same [OF ok(2)] by simp
  next
    case (serve fresh ready es buf a)
    with serve_wires [OF api ok serve(3)] show ?thesis by simp
  qed
next
  case reads
  from reads(2) show ?thesis
  proof cases
    case (read fds sel ds buf es w)
    with read_wires [OF api(3) ok req(1) read(4)] show ?thesis by simp
  qed (use wires_same [OF ok(2)] in simp_all)
qed (use wires_same [OF ok(2)] in \<open>simp_all add: Stop_def\<close>)

lemma run_wires:
  assumes api: "ssl_read_ok tls" "ssl_stream_ok tls pending" "ssl_write_ok tls sent"
    and arr: "\<forall>ar \<in> arrivals. arrival_ok ar" "fresh_wires sent arrivals"
    and "sys_run tls api arrivals st0 st" and "starts st0"
  shows "wires_ok api sent st"
  using assms(6,7)
proof (induction rule: sys_run.induct)
  case (stay st)
  show ?case using starts_ok(2) [OF stay] by (simp add: wires_ok_def)
next
  case (go st0 st1 t st)
  note r = sys_run_requests [OF api(1,2) arr(1) go(1,4)]
  have "store_ok st1" using sys_run_history [OF api(1,2) arr(1) go(1,4)] by blast
  moreover have "\<not> sublist [46, 46] (log_name d)" if "d \<in> set (logs (logsrv st1))" for d
    using r(1) [of "log_client_id d" "log_name d"] that by (force simp: requests_def request_def)
  moreover have "owned (logsrv st1) \<subseteq> keys (clients (web st1))" if "\<not> ended st1"
    using r(2) that by (auto simp: owned_requests)
  ultimately show ?case using step_wires [OF api arr _ go(3) _ _ go(2)] go(4) by blast
qed

end
