(* ===== verification/Session.thy ===== *)
theory Session
  imports System_Wire Progress
begin

text \<open>
  A complete session, for the witnesses of the properties of the whole program: the server starts,
  a client connects, it has sent its opening request and the message to add a log, the message
  thread answers and registers the log, and the log thread sends the first line.
\<close>

section \<open>The program starts\<close>

text \<open>The first file that is opened has the descriptor 20 and one line.\<close>

definition session_lines :: "int \<Rightarrow> byte list list" where
  "session_lines fd = (if fd = 20 then [[104, 105, 10]] else [])"

definition sample_start :: "(peer, sample_world) system" where
  "sample_start = \<lparr>
     web = snd (Run (0, 1) (0, 2) 0 (fst (LogServer 443 10 [] [] (sample_server [] 0) (sample_world [] session_lines)))),
     logsrv = \<lparr>logs = [], wakeups = 0, os = sample_world [] session_lines\<rparr>,
     data_buf = replicate 2048 0, selecting = False, line_buf = replicate 2048 0, watched = None, ended = False\<rparr>"

lemma sample_starts: "starts sample_start"
proof -
  let ?srv = "fst (LogServer 443 10 [] [] (sample_server [] 0 :: peer server) (sample_world [] session_lines))"
  have "LogServer 443 10 [] [] (sample_server [] 0) (sample_world [] session_lines) = (?srv, logsrv sample_start)"
    "Run (0, 1) (0, 2) 0 ?srv = (0, web sample_start)"
    by (simp_all add: sample_start_def LogServer_def Run_def)
  moreover have "length (data_buf sample_start) = 2048 \<and> length (line_buf sample_start) = 2048 \<and>
      \<not> selecting sample_start \<and> watched sample_start = None \<and> \<not> ended sample_start"
    by (simp add: sample_start_def del: replicate.simps)
  ultimately show ?thesis unfolding starts_def by blast
qed

lemma sample_start_fields:
  "\<not> selecting sample_start" "watched sample_start = None" "\<not> ended sample_start"
  "length (data_buf sample_start) = 2048" "length (line_buf sample_start) = 2048" "logs (logsrv sample_start) = []"
  by (simp_all add: sample_start_def del: replicate.simps)

lemma sample_fills:
  assumes "fill_set (clients srv) (-1) = Inr nfds"
  shows "sys_step tls api arrivals (sample_start\<lparr>web := srv\<rparr>) Listener (sample_start\<lparr>web := srv, selecting := True\<rparr>)"
  by (rule listens, rule fill) (simp_all add: sample_start_fields assms)

section \<open>A client connects\<close>

definition caller :: "peer arrival" where
  "caller = (sample_arrival 1 0)\<lparr>ar_accept := (ar_accept (sample_arrival 1 0))
     \<lparr>ac_SSL_accept := (1, \<lparr>chunks = [sample_request @ sample_frame], wire = [], busy = 0\<rparr>)\<rparr>\<rparr>"

definition sample_arrivals :: "peer arrival set" where
  "sample_arrivals = {caller}"

lemma sample_arrivals_ok: "\<forall>ar \<in> sample_arrivals. arrival_ok ar" "fresh_wires wire sample_arrivals"
  using sample_client_ok(3) [of False "[]"]
  by (simp_all add: sample_arrivals_def caller_def sample_arrival_def arrival_ok_def fresh_wires_def
      accepted_def Accept_def Client_def Let_def)

definition called :: "peer client" where
  "called = set_id (snd (accepted caller)) 0"

lemma called_fields:
  "cl_id called = 0" "socket called = 7" "\<not> handshaked called" "frame_buf_pos called = 0"
  "tls_connection called = \<lparr>chunks = [sample_request @ sample_frame], wire = [], busy = 0\<rparr>"
  "client_ok called" "fd_ok called"
  using sample_client_ok(3) [of False "[]"]
  by (simp_all add: called_def set_id_def caller_def sample_arrival_def accepted_def Accept_def Client_def Let_def
      client_ok_def fd_ok_def bufs_ok_def BUF_LEN_def)

lemma sample_enters:
  obtains srv where "sys_run queue_tls sample_os sample_arrivals sample_start (sample_start\<lparr>web := srv\<rparr>)"
    "clients srv = [(0, called)]" "fill_set (clients srv) (-1) = Inr 8"
proof -
  let ?srv = "web sample_start"
  have c: "clients ?srv = []" "id_counter ?srv = 0"
    using starts_ok(2) [OF sample_starts] by (simp_all add: sample_start_def LogServer_def WebSocketServer_def Run_def)
  have acc: "accepted caller = (0, snd (accepted caller))"
    by (simp add: accepted_def Accept_def caller_def sample_arrival_def Client_def Let_def)
  have g: "GenerateID ?srv = Inr (0, ?srv)"
    using c by (simp add: GenerateID_def id_loop.simps [of _ _ 0] INT_MAX_def map_find_def)
  have s: "accept_step queue_tls caller ?srv = Inr (True, None, ?srv\<lparr>clients := [(0, called)]\<rparr>)"
    using accept_step_joins [OF acc _ g, of queue_tls] c by (simp add: caller_def sample_arrival_def called_def)
  have "sys_step queue_tls sample_os sample_arrivals sample_start Accepter (sample_start\<lparr>web := ?srv\<lparr>clients := [(0, called)]\<rparr>\<rparr>)"
    by (rule accepts [OF enter [OF _ _ s]]) (simp_all add: sample_start_def sample_arrivals_def)
  from sys_run.go [OF sys_run.stay this] show thesis
    by (rule that) (simp_all add: called_fields fd_set_ok_def FD_SETSIZE_def)
qed

section \<open>The client is served\<close>

text \<open>The messages of the client, and the log server when they have been handled.\<close>

definition asked :: "(byte list \<times> byte list) list" where
  "asked = [([1, 2, 3, 4], bytes_of ''add /var/log/a'')]"

definition session_log :: log_description where
  "session_log = \<lparr>log_name = bytes_of ''/var/log/a'', log_fd = 20, log_stream = OpenFile 20, tail_pid = -1,
     log_client_id = 0, next_send_time = (7, 0), send_interval = 10000000\<rparr>"

definition session_logs :: "sample_world log_server" where
  "session_logs = \<lparr>logs = [session_log], wakeups = 1, os = (sample_world [] session_lines)\<lparr>next_fd := 21\<rparr>\<rparr>"

lemma asked_handled: "handle_all (do_request sample_os) (logsrv sample_start) 0 (map (cstr \<circ> snd) asked) = Inr session_logs"
proof -
  have "request_of (bytes_of ''add /var/log/a'') = AddLog (bytes_of ''/var/log/a'')" by code_simp
  moreover have "cstr (bytes_of ''add /var/log/a'') = bytes_of ''add /var/log/a''" by code_simp
  moreover have "add_request sample_os 0 (bytes_of ''/var/log/a'') (logsrv sample_start) = session_logs"
    by (simp add: add_request_def sample_os_def sample_start_def session_logs_def session_log_def sample_world_def
        del: replicate.simps)
  ultimately show ?thesis by (simp add: asked_def do_request_def)
qed

lemma sample_request_ok:
  "is_token (bytes_of ''/'')" "13 \<notin> set (bytes_of ''HTTP/1.1'')" "0 \<notin> set (bytes_of ''HTTP/1.1'')"
  "\<forall>l \<in> set sample_lines. good_line l" "accepts sample_lines"
  "key_of sample_lines = Some (bytes_of ''dGhlIHNhbXBsZSBub25jZQ=='')"
  "length (bytes_of ''dGhlIHNhbXBsZSBub25jZQ=='') \<le> 219"
  by code_simp+

definition session_answer :: "byte list" where
  "session_answer = answer_text (rfc_accept (bytes_of ''dGhlIHNhbXBsZSBub25jZQ==''))"

lemma called_served:
  assumes "length buf = 2048"
  obtains c buf' where "recv_loop queue_tls (log_handlers sample_os session_log) called buf (logsrv sample_start) =
      Some (Inr (READ_SUCCEED, c, buf', session_logs))"
    "conn_only called c" "handshaked c" "client_ok c" "wire (tls_connection c) = session_answer"
    "chunks (tls_connection c) = []"
proof -
  let ?ck = "sample_request @ sample_frame"
  have f: "?ck \<noteq> []" "length ?ck \<le> 8192" "0 < int (length ?ck)"
    by (simp_all add: sample_frame_def rfc_client_frame_short sample_request_def sample_lines_def render_request_def
        request_line_def rn_def)
  have rd: "SSL_read queue_tls (tls_connection called) (BUF_LEN - frame_buf_pos called) =
      ((int (length ?ck), ?ck, SSL_ERROR_NONE), \<lparr>chunks = [], wire = [], busy = 0\<rparr>)"
    using f(1,2) by (simp add: queue_tls_def BUF_LEN_def called_fields)
  have bs: "held called @ ?ck = render_request (bytes_of ''/'') (bytes_of ''HTTP/1.1'') sample_lines @ text_frames asked"
    by (simp add: held_def called_fields text_frames_def asked_def sample_frame_def sample_request_def)
  have m: "short_messages asked" "asked \<noteq> []" by (simp_all add: short_messages_def asked_def)
  have h: "handle_all (do_request sample_os) (logsrv sample_start) (cl_id called) (map (cstr \<circ> snd) asked) = Inr session_logs"
    using asked_handled by (simp add: called_fields)
  obtain c buf' where "recv_loop queue_tls (log_handlers sample_os session_log) called buf (logsrv sample_start) =
      Some (Inr (if asked = [] then WAITING_FOR_MORE_DATA else READ_SUCCEED, c, buf', session_logs))"
    "conn_only called c" "handshaked c" "client_ok c" "chunks (tls_connection c) = []"
    "\<forall>sent. ssl_write_ok queue_tls sent \<longrightarrow> sent (tls_connection c) = sent (tls_connection called) @ session_answer"
    using lg.recv_loop_opens [OF queue_tls_ok(1,4) queue_tls_quiet called_fields(6,7,3) assms sample_request_ok
        rd f(3) bs _ m(1) h, of session_log, folded session_answer_def] by auto
  with m(2) queue_tls_ok(3) that [of c buf'] show thesis by (auto simp: called_fields)
qed

lemma sample_serves:
  obtains st1 st c where "sys_run queue_tls sample_os sample_arrivals sample_start st1"
    "clients (web st1) = [(0, called)]" "logs (logsrv st1) = []"
    "sys_step queue_tls sample_os sample_arrivals st1 Listener st" "clients (web st) = [(0, c)]"
    "entry_ok (0, c)" "handshaked c" "wire (tls_connection c) = session_answer" "chunks (tls_connection c) = []"
    "logsrv st = session_logs" "length (line_buf st) = 2048" "watched st = None"
proof -
  obtain srv where s: "sys_run queue_tls sample_os sample_arrivals sample_start (sample_start\<lparr>web := srv\<rparr>)"
    "clients srv = [(0, called)]" "fill_set (clients srv) (-1) = Inr 8" by (rule sample_enters)
  let ?buf = "data_buf sample_start" and ?st = "sample_start\<lparr>web := srv, selecting := True\<rparr>"
  obtain c buf' where r: "recv_loop queue_tls (log_handlers sample_os session_log) called ?buf (logsrv sample_start) =
      Some (Inr (READ_SUCCEED, c, buf', session_logs))"
    "conn_only called c" "handshaked c" "client_ok c" "wire (tls_connection c) = session_answer"
    "chunks (tls_connection c) = []"
    by (rule called_served [OF sample_start_fields(4)])
  have "serve_clients queue_tls (log_handlers sample_os session_log) (\<lambda>fd. True) (clients srv) ?buf (logsrv sample_start) =
      Inr ([(0, c)], buf', session_logs)"
    by (simp add: s(2) serve_client_def r(1) called_fields fd_set_ok_def FD_SETSIZE_def return_codes)
  then have "message_section queue_tls sample_os ?st
      (?st\<lparr>web := (web ?st)\<lparr>clients := [(0, c)]\<rparr>, logsrv := session_logs, data_buf := buf', selecting := False\<rparr>)"
    by (intro serve) simp_all
  from listens [OF this]
  have "sys_step queue_tls sample_os sample_arrivals ?st Listener
      (?st\<lparr>web := srv\<lparr>clients := [(0, c)]\<rparr>, logsrv := session_logs, data_buf := buf', selecting := False\<rparr>)" by simp
  moreover have "sys_run queue_tls sample_os sample_arrivals sample_start ?st"
    using sys_run.go [OF s(1) sample_fills [OF s(3)]] .
  moreover have "entry_ok (0, c)" using r(2,4) by (simp add: entry_ok_def conn_only_def called_fields fd_ok_def)
  ultimately show thesis using that [of ?st] r(3,5,6) s(2) by (simp add: sample_start_fields)
qed

section \<open>The first line is sent\<close>

lemma session_line:
  assumes "length buf = 2048"
  obtains d1 buf1 w1 where "GetNextLine sample_os session_log buf 2048 (os session_logs) = Inr (0, d1, buf1, w1)"
    "cstr buf1 = [104, 105, 10]" "log_fd d1 = 20" "log_client_id d1 = 0"
proof -
  have c: "cstr (104 # 105 # 10 # 0 # xs) = [104, 105, 10]" for xs by (simp add: cstr_def)
  have "\<exists>d1 buf1 w1. GetNextLine sample_os session_log buf 2048 (os session_logs) = Inr (0, d1, buf1, w1) \<and>
    cstr buf1 = [104, 105, 10] \<and> log_fd d1 = 20 \<and> log_client_id d1 = 0"
    using assms
    by (simp add: GetNextLine_def fgets_def set_next_time_def session_log_def session_logs_def sample_os_def
        sample_world_def session_lines_def ns_def mem_ok c)
  with that show thesis by blast
qed

lemma session_reads:
  assumes "entry_ok (0, c)" and "chunks (tls_connection c) = []" and "length buf = 2048"
  obtains ds buf1 c1 w1 where "log_loop sample_os queue_tls (\<lambda>fd. True) (\<lambda>fd. False) [session_log] buf [(0, c)]
      (os session_logs) = Inr (ds, buf1, [(0, c1)], w1)"
    "wire (tls_connection c1) = wire (tls_connection c) @ rfc_server_frame (frame_code WS_TEXT_FRAME) [104, 105, 10]"
    "handshaked c1 = handshaked c"
proof -
  obtain d1 buf1 w1 where g: "GetNextLine sample_os session_log buf 2048 (os session_logs) = Inr (0, d1, buf1, w1)"
    "cstr buf1 = [104, 105, 10]" "log_fd d1 = 20" "log_client_id d1 = 0"
    by (rule session_line [OF assms(3)])
  have c: "bufs_ok c" "fd_ok c" using assms(1) by (simp_all add: entry_ok_def client_ok_def)
  obtain c1 where s: "Send queue_tls c [104, 105, 10] = Inr (0, c1)"
    by (rule Send_quiet [OF queue_tls_quiet queue_tls_ok(4) c, of "[104, 105, 10]"]) (simp_all add: assms(2))
  have w: "wire (tls_connection c1) = wire (tls_connection c) @ rfc_server_frame (frame_code WS_TEXT_FRAME) [104, 105, 10]"
    using Send_outcome [OF queue_tls_ok(3) c(1) _ s] by simp
  have "log_step sample_os queue_tls (\<lambda>fd. True) (\<lambda>fd. False) session_log buf [(0, c)] (os session_logs) =
      Inr (Some d1, buf1, [(0, c1)], w1)"
    using g s by (simp add: log_step_def read_log_def check_except_def MSG_BUF_LEN_def fd_set_ok_def FD_SETSIZE_def
        session_log_def map_find_def)
  with that w Send_handshaked [OF s] show thesis by simp
qed

text \<open>After the session the client has the answer to its request and the first line of its log.\<close>

lemma sample_session:
  obtains st c where "sys_run queue_tls sample_os sample_arrivals sample_start st" "get_client (web st) 0 = Some c"
    "handshaked c"
    "wire (tls_connection c) = session_answer @ rfc_server_frame (frame_code WS_TEXT_FRAME) [104, 105, 10]"
proof -
  obtain st1 st c where s1: "sys_run queue_tls sample_os sample_arrivals sample_start st1"
    "sys_step queue_tls sample_os sample_arrivals st1 Listener st"
    and s: "clients (web st) = [(0, c)]" "entry_ok (0, c)" "handshaked c" "wire (tls_connection c) = session_answer" "chunks (tls_connection c) = []"
    "logsrv st = session_logs" "length (line_buf st) = 2048" "watched st = None" by (rule sample_serves)
  have l: "logs (logsrv st) = [session_log]" by (simp add: s(6) session_logs_def)
  then have "fill_logs (logs (logsrv st)) (-1) = Inr 21"
    by (simp add: session_log_def fd_set_ok_def FD_SETSIZE_def)
  from reads [OF watch [OF s(8) this]] have w: "sys_step queue_tls sample_os sample_arrivals st Reader
      (st\<lparr>watched := Some (log_fd ` set (logs (logsrv st)))\<rparr>)" (is "sys_step _ _ _ _ _ ?st") .
  obtain ds buf1 c1 w1 where r: "log_loop sample_os queue_tls (\<lambda>fd. True) (\<lambda>fd. False) [session_log] (line_buf st)
      [(0, c)] (os session_logs) = Inr (ds, buf1, [(0, c1)], w1)"
    "wire (tls_connection c1) = wire (tls_connection c) @ rfc_server_frame (frame_code WS_TEXT_FRAME) [104, 105, 10]"
    "handshaked c1 = handshaked c" by (rule session_reads [OF s(2,5,7)])
  have "log_section queue_tls sample_os ?st (?st\<lparr>web := (web ?st)\<lparr>clients := [(0, c1)]\<rparr>,
      logsrv := (logsrv ?st)\<lparr>logs := ds, os := w1\<rparr>, line_buf := buf1, watched := None\<rparr>)"
    using r(1) l s(1,6)
    by (intro read [of _ _ "\<lparr>sel_ret = 1, sel_errno = 0, sel_read = \<lambda>fd. True, sel_except = \<lambda>fd. False\<rparr>"]) simp_all
  from sys_run.go [OF sys_run.go [OF sys_run.go [OF s1] w] reads [OF this]] show thesis
    by (rule that [of _ c1]) (simp_all add: get_client_def map_find_def r(2,3) s(3,4))
qed

end
