(* ===== verification/Faults.thy ===== *)
theory Faults
  imports System
begin

text \<open>
  The faults of a section. A section that faults is not a step of theory System; here is what can
  stop one: for each loop the set of faults it can end in, whatever the peers send and the
  operating system answers.
\<close>

section \<open>Sending and closing\<close>

lemma SendFrame_fault: "fd_ok c \<Longrightarrow> SendFrame api c b = Inl x \<Longrightarrow> x = NoReturn"
  using SendFrame_cases [of c api b] by auto

lemma Send_fault:
  assumes "bufs_ok c" and "fd_ok c" and "length m < 2 ^ 31" and "Send api c m = Inl x"
  shows "x = NoReturn"
proof -
  obtain sb where "Send api c m = SendFrame api (c\<lparr>send_buf := sb\<rparr>) (rfc_server_frame (frame_code WS_TEXT_FRAME) m)"
    using Send_steps [OF assms(1,3), of api] assms(4) by (auto split: if_splits)
  moreover have "fd_ok (c\<lparr>send_buf := sb\<rparr>)" using assms(2) by (simp add: fd_ok_def)
  ultimately show ?thesis using SendFrame_fault assms(4) by metis
qed

lemma Disconnect_fault:
  assumes "bufs_ok c" and "fd_ok c" and "Disconnect api c = Inl x"
  shows "x = NoReturn"
proof -
  let ?c = "c\<lparr>send_buf := 0x88 # 0 # drop 2 (send_buf c)\<rparr>"
  have d: "Disconnect api c = bind_r (SendFrame api ?c closing_frame) (\<lambda>(ret, c2). Inr (CloseSocket api c2))"
    using assms(1) wsMakeFrame_closing [of "send_buf c"]
    by (simp add: Disconnect_def bufs_ok_def SEND_BUF_LEN_def mem_ok closing_frame_bytes bind_r_assoc case_prod_unfold)
  have "SendFrame api ?c closing_frame = Inl x" using assms(3) unfolding d by (auto simp: bind_r_eq_Inl)
  moreover have "fd_ok ?c" using assms(2) by (simp add: fd_ok_def)
  ultimately show ?thesis using SendFrame_fault by blast
qed

section \<open>Serving the clients\<close>

definition peer_faults :: "fault set" where
  "peer_faults = {AssertFail, OutOfBounds, HeapOverflow, NoReturn}"

lemma Receive_fault:
  assumes "ssl_read_ok api" and "client_ok c" and "fd_ok c" and "length buf = 2048"
    and "Receive api c buf 2048 = Inl x"
  shows "x \<in> peer_faults"
proof (cases "handshaked c")
  case True
  with Receive_open [OF assms(1,2) True assms(4)] assms(5) show ?thesis by (auto simp: peer_faults_def)
next
  case False
  with Receive_handshaking [OF assms(1-3) False, of buf 2048 "\<lambda>_. []" "\<lambda>_. []"] assms(5)
  show ?thesis by (auto simp: peer_faults_def)
qed

text \<open>Handlers whose own faults are known.\<close>

locale ws_faulty = ws_app +
  fixes faults :: "fault set"
  assumes handle_fault: "inv a \<Longrightarrow> handle a i m = Inl x \<Longrightarrow> x \<in> faults"
    and release_fault: "inv a \<Longrightarrow> release a i = Inl x \<Longrightarrow> x \<in> faults"

context ws_faulty
begin

lemma turn_fault:
  assumes "ssl_read_ok api" and "client_ok c" and "fd_ok c" and "length buf = 2048" and "inv a"
    and "turn api app c buf a = Inl x"
  shows "x \<in> peer_faults \<union> faults"
proof (cases "Receive api c buf 2048")
  case (Inl y)
  with assms(6) Receive_fault [OF assms(1-4) Inl] show ?thesis by (simp add: turn_def MSG_BUF_LEN_def)
next
  case (Inr r)
  then obtain ret c1 buf1 len1 where r: "Receive api c buf 2048 = Inr (ret, c1, buf1, len1)" by (cases r) auto
  note k = Receive_continues [OF assms(1-4) r]
  have d: "dispatch api app ret c1 buf1 len1 a = Inl x"
    using assms(6) r by (auto simp: turn_def MSG_BUF_LEN_def bind_r_eq_Inl)
  have c1: "bufs_ok c1" "fd_ok c1" using k assms(3) by (simp_all add: same_conn_def fd_ok_def)
  consider "ret \<in> {READ_SUCCEED, READ_SUCCEED_DATA_AVAILABLE}" "0 \<in> set buf1" | "ret < 0"
    using k d delivered_terminated [of buf1 len1] by (auto simp: dispatch_def split: if_splits)
  then show ?thesis
  proof cases
    case 1
    then have "handle a (cl_id c1) (cstr buf1) = Inl x"
      using d by (auto simp: dispatch_def on_message bind_r_eq_Inl)
    with handle_fault [OF assms(5)] show ?thesis by blast
  next
    case 2
    show ?thesis
    proof (cases "Disconnect api c1")
      case (Inl y)
      with 2 d Disconnect_fault [OF c1 Inl] show ?thesis by (simp add: dispatch_def return_codes peer_faults_def)
    next
      case (Inr c2)
      with 2 d have "release a (cl_id c2) = Inl x"
        by (auto simp: dispatch_def return_codes on_disconnect bind_r_eq_Inl)
      with release_fault [OF assms(5)] show ?thesis by blast
    qed
  qed
qed

lemma recv_loop_fault:
  assumes api: "ssl_read_ok api" "ssl_stream_ok api pending"
    and "client_ok c" and "fd_ok c" and "length buf = 2048" and "inv a"
    and "recv_loop api app c buf a = Some (Inl x)"
  shows "x \<in> peer_faults \<union> faults"
  using assms(3-7)
proof (induction "length (stream pending c)" arbitrary: c buf a rule: less_induct)
  case less
  note loop = less.prems(5) [unfolded recv_loop_turn [of api app c buf a]]
  show ?case
  proof (cases "turn api app c buf a")
    case (Inl y)
    with turn_fault [OF api(1) less.prems(1-4) Inl] loop show ?thesis by simp
  next
    case (Inr r)
    obtain ret c1 buf1 a1 where r: "r = (ret, c1, buf1, a1)" by (cases r)
    note o = turn_outcome [OF api(1) less.prems(1-4) Inr [unfolded r]]
    have go: "goes_on ret" "recv_loop api app c1 buf1 a1 = Some (Inl x)"
      using loop Inr r by (simp_all split: if_splits)
    then have ret: "0 \<le> ret" by (auto simp: goes_on_def return_codes)
    with o obtain len1 where rc: "Receive api c buf 2048 = Inr (ret, c1, buf1, len1)" by auto
    have ok: "client_ok c1" "fd_ok c1" "length buf1 = 2048" "inv a1" using o ret by simp_all
    have "length (stream pending c1) < length (stream pending c)"
      using go(1) Receive_progress [OF api less.prems(1-3) rc] by (simp add: goes_on_def)
    from less.hyps [OF this ok go(2)] show ?thesis .
  qed
qed

lemma serve_client_fault:
  assumes api: "ssl_read_ok api" "ssl_stream_ok api pending" and e: "entry_ok e"
    and "length buf = 2048" and "inv a" and s: "serve_client api app ready (snd e) buf a = Inl x"
  shows "x \<in> peer_faults \<union> faults"
proof -
  have c: "client_ok (snd e)" "fd_ok (snd e)" using e by (simp_all add: entry_ok_def)
  then have "fd_set_ok (socket (snd e)) = Inr ()" by (simp add: fd_ok_def fd_set_ok_range)
  with s obtain r where "recv_loop api app (snd e) buf a = r" "r = None \<and> x = NoReturn \<or> r = Some (Inl x)"
    by (auto simp: serve_client_def split: option.splits if_splits)
  with recv_loop_fault [OF api c assms(4,5)] show ?thesis by (auto simp: peer_faults_def)
qed

lemma serve_clients_fault:
  assumes api: "ssl_read_ok api" "ssl_stream_ok api pending"
  shows "serve_clients api app ready es buf a = Inl x \<Longrightarrow> clients_ok es \<Longrightarrow> length buf = 2048 \<Longrightarrow> inv a \<Longrightarrow>
    x \<in> peer_faults \<union> faults"
proof (induction es arbitrary: buf a)
  case (Cons e es)
  have e: "entry_ok e" "clients_ok es" using Cons.prems(2) by (simp_all add: clients_ok_Cons)
  show ?case
  proof (cases "serve_client api app ready (snd e) buf a")
    case (Inl y)
    with Cons.prems(1) serve_client_fault [OF api e(1) Cons.prems(3,4) Inl] show ?thesis by simp
  next
    case (Inr r)
    obtain ret c1 buf1 a1 where r: "r = (ret, c1, buf1, a1)" by (cases r)
    have "serve_clients api app ready es buf1 a1 = Inl x"
      using Cons.prems(1) Inr by (auto simp: r bind_r_eq_Inl)
    with Cons.IH [OF _ e(2)] serve_client_outcome [OF api e(1) Cons.prems(3,4) Inr [unfolded r]]
    show ?thesis by blast
  qed
qed simp

end

text \<open>Handlers without faults are a special case.\<close>

sublocale ws_total \<subseteq> total: ws_faulty app handle release owned inv "{}"
  by unfold_locales (metis Inl_Inr_False handle_returns release_returns)+

section \<open>The handlers of the log server\<close>

definition stream_faults :: "fault set" where
  "stream_faults = {NullDeref, UseAfterFree}"

lemma Cleanup_fault: "Cleanup api d w = Inl x \<Longrightarrow> x \<in> stream_faults"
  by (auto simp: Cleanup_def fclose_def bind_r_eq_Inl stream_faults_def Let_def case_prod_unfold
      split: log_file.splits if_splits)

lemma stop_loop_fault: "stop_loop api i n ds w = Inl x \<Longrightarrow> x \<in> stream_faults"
  by (induction ds arbitrary: w) (auto simp: bind_r_eq_Inl dest: Cleanup_fault split: if_splits)

lemma delete_loop_fault: "delete_loop api i ds w = Inl x \<Longrightarrow> x \<in> stream_faults"
  by (induction ds arbitrary: w) (auto simp: bind_r_eq_Inl dest: Cleanup_fault split: if_splits)

interpretation lf: ws_faulty "log_handlers api fresh" "do_request api"
  "\<lambda>a i. DeleteRequestsFromClient api i a" owned "\<lambda>_. True" stream_faults for api fresh
proof
  show "x \<in> stream_faults" if "do_request api a i m = Inl x" for a i m x
    using that by (auto simp: do_request_def stop_request_def bind_r_eq_Inl dest: stop_loop_fault split: wish.splits)
  show "x \<in> stream_faults" if "DeleteRequestsFromClient api i a = Inl x" for a i x
    using that by (auto simp: DeleteRequestsFromClient_def bind_r_eq_Inl dest: delete_loop_fault)
qed

section \<open>Reading the logs\<close>

lemma fgets_fault:
  assumes "fgets_ok api" and "length buf = 2048" and "fgets api f buf 2048 w = Inl x"
  shows "x \<in> stream_faults"
proof (cases f)
  case (OpenFile fd)
  from fgets_open [OF assms(1,2) OpenFile, of w] assms(3) show ?thesis by auto
qed (use assms(3) in \<open>simp_all add: fgets_def stream_faults_def\<close>)

lemma GetNextLine_fault:
  assumes "fgets_ok api" and "length buf = 2048" and "GetNextLine api d buf 2048 w = Inl x"
  shows "x \<in> stream_faults"
proof (cases "log_stream d")
  case (OpenFile fd)
  then have "open_log d" by (simp add: open_log_def)
  from GetNextLine_outcome [OF assms(1,2) this, of w] assms(3) show ?thesis by (auto simp: stream_faults_def)
qed (use assms(3) in \<open>simp_all add: GetNextLine_def fgets_def stream_faults_def Let_def\<close>)

definition log_faults :: "fault set" where
  "log_faults = {OutOfBounds, NullDeref, UseAfterFree, NoReturn}"

lemma stream_log_faults: "x \<in> stream_faults \<Longrightarrow> x \<in> log_faults"
  by (auto simp: stream_faults_def log_faults_def)

lemma read_log_fault:
  assumes os: "fgets_ok api" and es: "clients_ok es" and buf: "length buf = 2048"
    and r: "read_log api tls d buf es w = Inl x"
  shows "x \<in> log_faults"
proof (cases "map_find es (log_client_id d)")
  case None
  with r show ?thesis by (auto simp: read_log_def bind_r_eq_Inl dest: Cleanup_fault stream_log_faults)
next
  case (Some c)
  show ?thesis
  proof (cases "GetNextLine api d buf 2048 w")
    case (Inl y)
    with r Some GetNextLine_fault [OF os buf Inl] show ?thesis
      by (simp add: read_log_def MSG_BUF_LEN_def stream_log_faults)
  next
    case (Inr g)
    then obtain ret d1 buf1 w1 where g: "GetNextLine api d buf 2048 w = Inr (ret, d1, buf1, w1)" by (cases g) auto
    with r Some have s: "Send tls c (cstr buf1) = Inl x"
      by (auto simp: read_log_def MSG_BUF_LEN_def bind_r_eq_Inl split: if_splits)
    have "(log_client_id d, c) \<in> set es" using Some by (simp add: map_find_def map_of_SomeD)
    with es have "bufs_ok c" "fd_ok c" by (auto simp: clients_ok_def entry_ok_def client_ok_def)
    moreover have "length (cstr buf1) < 2 ^ 31" using length_cstr [of buf1] GetNextLine_request [OF g] buf by simp
    ultimately show ?thesis using Send_fault [OF _ _ _ s] by (simp add: log_faults_def)
  qed
qed

lemma log_step_fault:
  assumes "fgets_ok api" and "clients_ok es" and "length buf = 2048"
    and s: "log_step api tls rd ex d buf es w = Inl x"
  shows "x \<in> log_faults"
proof -
  have fd: "fd_set_ok i = Inl y \<Longrightarrow> y \<in> log_faults" for i y by (auto simp: fd_set_ok_def log_faults_def split: if_splits)
  have "check_except api ex d1 w1 = Inl x \<Longrightarrow> x \<in> log_faults" for d1 w1
    by (auto simp: check_except_def bind_r_eq_Inl dest: fd Cleanup_fault stream_log_faults split: if_splits)
  then show ?thesis
    using s by (auto simp: log_step_def bind_r_eq_Inl dest: fd read_log_fault [OF assms(1-3)] split: option.splits if_splits)
qed

lemma log_loop_fault:
  "fgets_ok api \<Longrightarrow> log_loop api tls rd ex ds buf es w = Inl x \<Longrightarrow> clients_ok es \<Longrightarrow> length buf = 2048 \<Longrightarrow>
   x \<in> log_faults"
proof (induction ds arbitrary: buf es w)
  case (Cons d ds)
  show ?case
  proof (cases "log_step api tls rd ex d buf es w")
    case (Inl y)
    with Cons.prems(2) log_step_fault [OF Cons.prems(1,3,4) Inl] show ?thesis by simp
  next
    case (Inr r)
    obtain kept buf1 es1 w1 where r: "r = (kept, buf1, es1, w1)" by (cases r)
    have "log_loop api tls rd ex ds buf1 es1 w1 = Inl x"
      using Cons.prems(2) Inr by (auto simp: r bind_r_eq_Inl)
    with Cons.IH [OF Cons.prems(1)] log_step_keeps [OF Cons.prems(3,4) Inr [unfolded r]] show ?thesis by blast
  qed
qed simp

section \<open>Accepting\<close>

lemma accept_step_fault:
  assumes "accept_step api ar srv = Inl x"
  shows "x = SignedOverflow" and "\<forall>k. id_counter srv \<le> k \<and> k \<le> INT_MAX \<longrightarrow> get_client srv k \<noteq> None"
proof -
  have "id_loop (clients srv) (id_counter srv) 0 = Inl x"
    using assms by (auto simp: accept_step_def GenerateID_def bind_r_eq_Inl Let_def
        split: prod.splits if_splits option.splits)
  from id_loop_fault [OF this] show "x = SignedOverflow"
    "\<forall>k. id_counter srv \<le> k \<and> k \<le> INT_MAX \<longrightarrow> get_client srv k \<noteq> None"
    by (simp_all add: get_client_def)
qed

end
