(* ===== verification/System_Props.thy ===== *)
theory System_Props
  imports Session Faults
begin

text \<open>
  The properties of the whole program: every run refines the abstract machine of theory Protocol,
  and what follows for the requests and for the listener.
\<close>

section \<open>Refinement\<close>


text \<open>
  Every run of the program is a run of the abstract machine. In whatever order the critical
  sections of the threads come, whatever the peers send and the operating system answers, each
  section is a sequence of the events its thread may cause: the accept thread lets a client
  join under a free id or ends the service, the message thread lets clients leave with their
  requests and add or remove their own, the log thread at most loses requests; and the whole
  history from the start explains the clients and the requests there are.
\<close>

theorem system_refines:
  assumes "ssl_read_ok tls" and "ssl_stream_ok tls pending" and "\<forall>ar \<in> arrivals. arrival_ok ar"
    and "starts st0" and "sys_run tls api arrivals st0 st" and "sys_step tls api arrivals st t st'"
  shows "\<exists>history es. happens history ({}, []) = Some (keys (clients (web st)), requests (logsrv st)) \<and>
    (\<forall>e \<in> set es. may t e) \<and>
    happens es (keys (clients (web st)), requests (logsrv st)) =
      Some (keys (clients (web st')), requests (logsrv st'))"
proof -
  from sys_run_history [OF assms(1-3,5,4)] obtain history where
    h: "store_ok st" "happens history ({}, []) = Some (board_of st)" by blast
  with sys_step_outcome [OF assms(1-3,6)] show ?thesis unfolding board_of_def by blast
qed

theorem system_refines_witness:
  "\<exists>st1 st history es. sys_run queue_tls sample_os sample_arrivals sample_start st1 \<and>
     sys_step queue_tls sample_os sample_arrivals st1 Listener st \<and>
     happens history ({}, []) = Some ({0}, []) \<and> (\<forall>e \<in> set es. may Listener e) \<and>
     happens es ({0}, []) = Some ({0}, [(0, bytes_of ''/var/log/a'')])"
proof -
  obtain st1 st c where s: "sys_run queue_tls sample_os sample_arrivals sample_start st1"
    "clients (web st1) = [(0, called)]" "logs (logsrv st1) = []"
    "sys_step queue_tls sample_os sample_arrivals st1 Listener st" "clients (web st) = [(0, c)]"
    "logsrv st = session_logs" by (rule sample_serves)
  have k: "keys (clients (web st1)) = {0}" "requests (logsrv st1) = []" "keys (clients (web st)) = {0}"
    "requests (logsrv st) = [(0, bytes_of ''/var/log/a'')]"
    using s(2,3,5,6) by (simp_all add: keys_def requests_def request_def session_logs_def session_log_def)
  from system_refines [OF queue_tls_ok(1,2) sample_arrivals_ok(1) sample_starts s(1,4)] s(1,4) show ?thesis
    unfolding k by blast
qed

section \<open>What holds in every state\<close>

text \<open>
  In every state the program can reach, all ids and buffers of the clients are in order, every
  socket of the map fits the set of \<^verbatim>\<open>select\<close>, so that filling it never writes outside, and
  until the shutdown each request on the list, whose name has no two dots in a row, belongs to
  a client that is in the map under its id.
\<close>

theorem system_invariant:
  assumes "ssl_read_ok tls" and "ssl_stream_ok tls pending" and "\<forall>ar \<in> arrivals. arrival_ok ar"
    and "starts st0" and "sys_run tls api arrivals st0 st"
  shows "store_ok st \<and> (\<exists>nfds. fill_set (clients (web st)) (-1) = Inr nfds) \<and>
    (\<forall>(i, n) \<in> set (requests (logsrv st)). \<not> sublist (bytes_of ''..'') n \<and>
       (ended st \<or> (\<exists>c. get_client (web st) i = Some c \<and> cl_id c = i \<and> client_ok c)))"
proof (intro conjI ballI)
  from sys_run_history [OF assms(1-3,5,4)] show ok: "store_ok st" by blast
  then have c: "clients_ok (clients (web st))" by (simp add: store_ok_def)
  then show "\<exists>nfds. fill_set (clients (web st)) (-1) = Inr nfds"
    using fill_set_covers [of "clients (web st)" "-1"] by (auto simp: clients_ok_def entry_ok_def)
  fix r assume "r \<in> set (requests (logsrv st))"
  moreover obtain i n where r: "r = (i, n)" by fastforce
  ultimately have "(i, n) \<in> set (requests (logsrv st))" by simp
  note q = sys_run_requests [OF assms(1-3,5,4) this]
  have "\<exists>c. get_client (web st) i = Some c \<and> cl_id c = i \<and> client_ok c" if "\<not> ended st"
    using clients_find [OF c q(2) [OF that]] by (auto simp: get_client_def entry_ok_def)
  with q(1) show "case r of (i, n) \<Rightarrow> \<not> sublist (bytes_of ''..'') n \<and>
      (ended st \<or> (\<exists>c. get_client (web st) i = Some c \<and> cl_id c = i \<and> client_ok c))"
    unfolding r message_literals by blast
qed

theorem system_invariant_witness:
  "\<exists>st c. sys_run queue_tls sample_os sample_arrivals sample_start st \<and> clients_ok (clients (web st)) \<and>
     requests (logsrv st) = [(0, bytes_of ''/var/log/a'')] \<and> get_client (web st) 0 = Some c \<and> client_ok c"
proof -
  obtain st1 st c where s1: "sys_run queue_tls sample_os sample_arrivals sample_start st1"
    "sys_step queue_tls sample_os sample_arrivals st1 Listener st"
    and s: "clients (web st) = [(0, c)]" "logsrv st = session_logs" by (rule sample_serves)
  have "requests (logsrv st) = [(0, bytes_of ''/var/log/a'')]" "get_client (web st) 0 = Some c"
    by (simp_all add: s get_client_def map_find_def requests_def request_def session_logs_def session_log_def)
  moreover from sys_run.go [OF s1] have r: "sys_run queue_tls sample_os sample_arrivals sample_start st" .
  moreover from system_invariant [OF queue_tls_ok(1,2) sample_arrivals_ok(1) sample_starts r]
  have "clients_ok (clients (web st))" by (simp add: store_ok_def)
  ultimately show ?thesis using s(1) by (auto simp: clients_ok_def entry_ok_def simp del: bytes_of_simps)
qed

section \<open>What can stop the program\<close>

text \<open>
  In every state the program can reach, the next section of each thread goes through or ends in
  one of a few faults, whatever the peers send and the operating system answers. Accepting
  can only overflow the counter of ids, when all ids from it on are in use; filling the set
  never faults; serving the clients can stop at the faults of the two parsers or wait for a
  peer for ever, and at a closed or missing stream only when the list has such a log; the
  log thread can stop at a stream, at a descriptor outside the sets, or wait for a peer for ever.
\<close>

theorem system_faults:
  assumes "ssl_read_ok tls" and "ssl_stream_ok tls pending" and "fgets_ok api"
    and "\<forall>ar \<in> arrivals. arrival_ok ar" and "starts st0" and "sys_run tls api arrivals st0 st"
  shows "(case accept_step tls ar (web st) of
        Inl x \<Rightarrow> x = SignedOverflow \<and>
          (\<forall>k. id_counter (web st) \<le> k \<and> k \<le> INT_MAX \<longrightarrow> get_client (web st) k \<noteq> None)
      | Inr r \<Rightarrow> True) \<and>
    (\<exists>nfds. fill_set (clients (web st)) (-1) = Inr nfds) \<and>
    (case serve_clients tls (log_handlers api fresh) ready (clients (web st)) (data_buf st) (logsrv st) of
        Inl x \<Rightarrow> x \<in> {AssertFail, OutOfBounds, HeapOverflow, NoReturn} \<or>
          x \<in> {NullDeref, UseAfterFree} \<and> \<not> logs_open (logsrv st)
      | Inr r \<Rightarrow> True) \<and>
    (case log_loop api tls rd ex (logs (logsrv st)) (line_buf st) (clients (web st)) (os (logsrv st)) of
        Inl x \<Rightarrow> x \<in> {OutOfBounds, NullDeref, UseAfterFree, NoReturn}
      | Inr r \<Rightarrow> True)"
proof (intro conjI)
  from sys_run_history [OF assms(1,2,4,6,5)] have ok: "store_ok st" by blast
  then have c: "clients_ok (clients (web st))" "length (data_buf st) = 2048" "length (line_buf st) = 2048"
    by (simp_all add: store_ok_def)
  show "case accept_step tls ar (web st) of
        Inl x \<Rightarrow> x = SignedOverflow \<and>
          (\<forall>k. id_counter (web st) \<le> k \<and> k \<le> INT_MAX \<longrightarrow> get_client (web st) k \<noteq> None)
      | Inr r \<Rightarrow> True"
    using accept_step_fault [of tls ar "web st"] by (auto split: sum.split)
  show "\<exists>nfds. fill_set (clients (web st)) (-1) = Inr nfds"
    using fill_set_covers [of "clients (web st)" "-1"] c by (auto simp: clients_ok_def entry_ok_def)
  have "x \<in> peer_faults \<union> stream_faults \<and> (logs_open (logsrv st) \<longrightarrow> x \<in> peer_faults)"
    if "serve_clients tls (log_handlers api fresh) ready (clients (web st)) (data_buf st) (logsrv st) = Inl x" for x
    using lf.serve_clients_fault [OF assms(1,2) that c(1,2)] lt.total.serve_clients_fault [OF assms(1,2) that c(1,2)]
    by blast
  then show "case serve_clients tls (log_handlers api fresh) ready (clients (web st)) (data_buf st) (logsrv st) of
        Inl x \<Rightarrow> x \<in> {AssertFail, OutOfBounds, HeapOverflow, NoReturn} \<or>
          x \<in> {NullDeref, UseAfterFree} \<and> \<not> logs_open (logsrv st)
      | Inr r \<Rightarrow> True"
    unfolding peer_faults_def stream_faults_def by (auto split: sum.split)
  show "case log_loop api tls rd ex (logs (logsrv st)) (line_buf st) (clients (web st)) (os (logsrv st)) of
        Inl x \<Rightarrow> x \<in> {OutOfBounds, NullDeref, UseAfterFree, NoReturn}
      | Inr r \<Rightarrow> True"
    using log_loop_fault [OF assms(3) _ c(1,3)] unfolding log_faults_def by (auto split: sum.split)
qed

theorem system_faults_witness:
  "\<exists>st. sys_run queue_tls sample_os sample_arrivals sample_start st \<and> requests (logsrv st) \<noteq> [] \<and>
     (\<exists>nfds. fill_set (clients (web st)) (-1) = Inr nfds) \<and>
     (case log_loop sample_os queue_tls (\<lambda>fd. True) (\<lambda>fd. False) (logs (logsrv st)) (line_buf st)
         (clients (web st)) (os (logsrv st)) of
        Inl x \<Rightarrow> x \<in> {OutOfBounds, NullDeref, UseAfterFree, NoReturn}
      | Inr r \<Rightarrow> True)"
proof -
  obtain st1 st c where s1: "sys_run queue_tls sample_os sample_arrivals sample_start st1"
    "sys_step queue_tls sample_os sample_arrivals st1 Listener st"
    and s: "clients (web st) = [(0, c)]" "logsrv st = session_logs" by (rule sample_serves)
  have "requests (logsrv st) \<noteq> []" by (simp add: s(2) requests_def session_logs_def)
  moreover from sys_run.go [OF s1] have r: "sys_run queue_tls sample_os sample_arrivals sample_start st" .
  moreover note system_faults [OF queue_tls_ok(1,2) sample_os_ok(1) sample_arrivals_ok(1) sample_starts r,
      where rd = "\<lambda>fd. True" and ex = "\<lambda>fd. False"]
  ultimately show ?thesis by blast
qed

section \<open>What is sent\<close>

text \<open>
  All bytes a client has ever been sent, in every state the program can reach, are those of
  the protocol: none before it has opened its web socket, and then the answer to its request
  followed by text frames, each with one line of a log that this client asked for by a name
  with no two dots in a row. This holds for any peers and any order of the threads, if nothing
  has been sent on a connection when it is accepted.
\<close>

theorem sent_bytes:
  assumes "ssl_read_ok tls" and "ssl_stream_ok tls pending" and "ssl_write_ok tls sent"
    and "\<forall>ar \<in> arrivals. arrival_ok ar" and "fresh_wires sent arrivals"
    and "starts st0" and "sys_run tls api arrivals st0 st" and "get_client (web st) i = Some c"
  shows "if handshaked c
    then \<exists>key ls. sent (tls_connection c) =
        answer_text (b64_spec (fips_sha1 (key @ secret))) @ line_frames ls \<and>
      (\<forall>l \<in> set ls. \<exists>d. log_client_id d = i \<and> \<not> sublist (bytes_of ''..'') (log_name d) \<and> line_of api d l)
    else sent (tls_connection c) = []"
proof -
  have "(i, c) \<in> set (clients (web st))"
    using assms(8) by (simp add: get_client_def map_find_def map_of_SomeD)
  with run_wires [OF assms(1-5,7,6)] have "wire_ok api sent i c" by (auto simp: wires_ok_def)
  then show ?thesis
    unfolding wire_ok_def lines_for_def rfc_accept_def message_literals by (auto split: if_splits)
qed

theorem sent_bytes_witness:
  "\<exists>st c key ls. sys_run queue_tls sample_os sample_arrivals sample_start st \<and> get_client (web st) 0 = Some c \<and>
     wire (tls_connection c) = session_answer @ rfc_server_frame (frame_code WS_TEXT_FRAME) [104, 105, 10] \<and>
     wire (tls_connection c) = answer_text (b64_spec (fips_sha1 (key @ secret))) @ line_frames ls \<and>
     (\<forall>l \<in> set ls. \<exists>d. log_client_id d = 0 \<and> \<not> sublist (bytes_of ''..'') (log_name d) \<and> line_of sample_os d l)"
proof -
  obtain st c where s: "sys_run queue_tls sample_os sample_arrivals sample_start st" "get_client (web st) 0 = Some c"
    "handshaked c" "wire (tls_connection c) = session_answer @ rfc_server_frame (frame_code WS_TEXT_FRAME) [104, 105, 10]"
    by (rule sample_session)
  from sent_bytes [OF queue_tls_ok(1,2,3) sample_arrivals_ok sample_starts s(1,2)] s(3) obtain key ls where
    "wire (tls_connection c) = answer_text (b64_spec (fips_sha1 (key @ secret))) @ line_frames ls"
    "\<forall>l \<in> set ls. \<exists>d. log_client_id d = 0 \<and> \<not> sublist (bytes_of ''..'') (log_name d) \<and> line_of sample_os d l"
    by (auto simp del: bytes_of_simps)
  with s(1,2,4) show ?thesis by blast
qed

text \<open>
  A client is sent the lines of the logs it has asked for and nothing else by the log thread.
  In every state that keeps the invariant, a turn appends to what each client has been sent
  whole text frames only, one for each line, and the lines come from its own requests on the
  list, at most one from each, in the order of the list.
\<close>

theorem only_requested_lines:
  assumes "ssl_write_ok tls sent" and "store_ok st" and "sys_step tls api arrivals st Reader st'"
    and "get_client (web st) i = Some c"
  shows "\<exists>c' ls. get_client (web st') i = Some c' \<and>
    sent (tls_connection c') = sent (tls_connection c) @ line_frames ls \<and>
    lines_of_logs api (filter (\<lambda>d. log_client_id d = i) (logs (logsrv st))) ls"
proof -
  from assms(3) have "log_section tls api st st'" by cases
  then show ?thesis
  proof cases
    case (read fds sel ds buf es w)
    have "length (line_buf st) = 2048" "clients_ok (clients (web st))" using assms(2) by (simp_all add: store_ok_def)
    from log_loop_lines [OF assms(1) read(4) this, of i c] assms(4) read(1) show ?thesis
      by (auto simp: get_client_def)
  qed (use assms(4) in \<open>auto simp: lines_of_logs_Nil intro!: exI [of _ c] exI [of _ "[]"]\<close>)
qed

definition sample_reading :: "(peer, sample_world) system" where
  "sample_reading = sample_start\<lparr>web := sample_server [sample_entry 0, sample_entry 1] 1,
     logsrv := \<lparr>logs = [sample_log 0 ''/a'' 7 (-1)], wakeups = 1, os = sample_world [] two_lines\<rparr>,
     watched := Some {7}\<rparr>"

lemma sample_reading_ok: "store_ok sample_reading"
  using sample_entries_ok
  by (simp add: store_ok_def sample_reading_def sample_start_def INT_MAX_def del: replicate.simps)

lemma sample_reads: "\<exists>st'. log_section queue_tls sample_os sample_reading st'"
proof -
  let ?d = "sample_log 0 ''/a'' 7 (-1)" and ?es = "[sample_entry 0, sample_entry 1]" and ?buf = "line_buf sample_reading"
  have buf: "length ?buf = 2048" using sample_reading_ok by (simp add: store_ok_def)
  obtain d1 buf1 w1 where g: "GetNextLine sample_os ?d ?buf 2048 (sample_world [] two_lines) = Inr (0, d1, buf1, w1)"
    and d1: "d1 = ?d\<lparr>next_send_time := (8, 5000000)\<rparr>"
    using sample_first_line [OF buf] by blast
  have "length (cstr buf1) < 2 ^ 31"
    using length_cstr [of buf1] GetNextLine_request [OF g] buf by simp
  moreover have "bufs_ok (snd (sample_entry 0))" "fd_ok (snd (sample_entry 0))"
    using sample_entry_ok [of 0] by (simp_all add: entry_ok_def client_ok_def)
  ultimately obtain rs c1 where s: "Send queue_tls (snd (sample_entry 0)) (cstr buf1) = Inr (rs, c1)"
    using Send_returns [OF queue_tls_ok(4)] by blast
  have i: "map_find ?es (log_client_id ?d) = Some (snd (sample_entry 0))" "log_fd ?d = 7" "log_fd d1 = 7"
    by (simp_all add: map_find_def sample_log_def sample_entry_def d1)
  have "log_step sample_os queue_tls (\<lambda>fd. True) (\<lambda>fd. False) ?d ?buf ?es (sample_world [] two_lines) =
      Inr (Some d1, buf1, map_put ?es (log_client_id ?d) c1, w1)"
    using g s i by (simp add: log_step_def read_log_def check_except_def MSG_BUF_LEN_def fd_set_ok_def FD_SETSIZE_def)
  then have "log_loop sample_os queue_tls (\<lambda>fd. True) (\<lambda>fd. False) (logs (logsrv sample_reading)) ?buf
      (clients (web sample_reading)) (os (logsrv sample_reading)) =
      Inr ([d1], buf1, map_put ?es (log_client_id ?d) c1, w1)"
    by (simp add: sample_reading_def)
  with read [of sample_reading "{7}" "\<lparr>sel_ret = 1, sel_errno = 0, sel_read = \<lambda>fd. True, sel_except = \<lambda>fd. False\<rparr>"
      sample_os queue_tls]
  show ?thesis by (auto simp: sample_reading_def)
qed

theorem only_requested_lines_witness:
  "\<exists>st' c' ls. log_section queue_tls sample_os sample_reading st' \<and> get_client (web st') 0 = Some c' \<and>
     wire (tls_connection c') = line_frames ls \<and> lines_of_logs sample_os [sample_log 0 ''/a'' 7 (-1)] ls"
proof -
  obtain st' where s: "log_section queue_tls sample_os sample_reading st'" using sample_reads by blast
  have c: "get_client (web sample_reading) 0 = Some (snd (sample_entry 0))"
    "filter (\<lambda>d. log_client_id d = 0) (logs (logsrv sample_reading)) = [sample_log 0 ''/a'' 7 (-1)]"
    "wire (tls_connection (snd (sample_entry 0))) = []"
    by (simp_all add: sample_reading_def map_find_def sample_entry_def sample_log_def sample_client_def)
  from only_requested_lines [OF queue_tls_ok(3) sample_reading_ok reads [OF s] c(1)] s show ?thesis
    unfolding c(2,3) by auto
qed

end
