(* ===== verification/Interleaving.thy ===== *)
theory Interleaving
  imports System_Wire
begin

text \<open>
  The three threads call by call. Theory System runs a critical section as one step; but the log
  thread works on the map of clients without its mutex, so its calls may come between those of
  the message thread or of the shutdown. Here every call of a method that changes the shared
  data is a step of its own, and the program points between the calls are part of the state.
\<close>

section \<open>Program points\<close>

text \<open>
  Where the message thread is with the client at the head of the rest of its pass: at the test of
  \<^verbatim>\<open>FD_ISSET\<close>, before \<open>Receive\<close>, after it with the return code and the length, after
  \<open>Disconnect\<close>, and after \<open>OnDisconnect\<close>.
\<close>

datatype serve_point = At_client | To_receive | Received int int | Disconnected | Released

text \<open>
  Who owns \<^verbatim>\<open>clients_mutex\<close>: nobody; the message thread, with the set \<^verbatim>\<open>select\<close> has left and the
  clients still to be served; or the accept thread at the shutdown, with those to be disconnected.
\<close>

datatype hold = Nobody | Serves "int \<Rightarrow> bool" "int list" serve_point | Closes "int list"

text \<open>
  The log thread at one log of the list: before the test of its first set; with the iterator
  \<^verbatim>\<open>client_it\<close> to the client; with a line in the buffer; before the test of the second set. It owns
  \<^verbatim>\<open>logs_mutex\<close> while it goes through the list, of which the index is kept with the two sets.
\<close>

datatype read_point = Look | Found int | Line int | Check

type_synonym reading = "((int \<Rightarrow> bool) \<times> (int \<Rightarrow> bool) \<times> nat \<times> read_point) option"

type_synonym ('s, 'w) fine = "('s, 'w) system \<times> hold \<times> reading"

definition with_clients :: "'s client id_map \<Rightarrow> ('s, 'w) system \<Rightarrow> ('s, 'w) system" where
  "with_clients es st = st\<lparr>web := (web st)\<lparr>clients := es\<rparr>\<rparr>"

definition with_logs :: "log_description list \<Rightarrow> 'w \<Rightarrow> ('s, 'w) system \<Rightarrow> ('s, 'w) system" where
  "with_logs ds w st = st\<lparr>logsrv := (logsrv st)\<lparr>logs := ds, os := w\<rparr>\<rparr>"

definition without :: "nat \<Rightarrow> 'a list \<Rightarrow> 'a list" where
  "without k xs = take k xs @ drop (Suc k) xs"

lemma with_clients_fields [simp]:
  "clients (web (with_clients es st)) = es" "id_counter (web (with_clients es st)) = id_counter (web st)"
  "stop (web (with_clients es st)) = stop (web st)" "logsrv (with_clients es st) = logsrv st"
  "data_buf (with_clients es st) = data_buf st" "line_buf (with_clients es st) = line_buf st"
  "selecting (with_clients es st) = selecting st" "watched (with_clients es st) = watched st"
  "ended (with_clients es st) = ended st"
  by (simp_all add: with_clients_def)

lemma with_logs_fields [simp]:
  "web (with_logs ds w st) = web st" "logs (logsrv (with_logs ds w st)) = ds" "os (logsrv (with_logs ds w st)) = w"
  "data_buf (with_logs ds w st) = data_buf st" "line_buf (with_logs ds w st) = line_buf st"
  "selecting (with_logs ds w st) = selecting st" "watched (with_logs ds w st) = watched st"
  "ended (with_logs ds w st) = ended st"
  by (simp_all add: with_logs_def)

section \<open>Steps\<close>

text \<open>
  The accept thread: an arrival enters the map under the mutex; at the shutdown the clients are
  disconnected one after the other, and the map is cleared.
\<close>

inductive accept_call ::
  "'s tls_api \<Rightarrow> 's arrival set \<Rightarrow> ('s, 'w) fine \<Rightarrow> ('s, 'w) fine \<Rightarrow> bool" for tls arrivals where
  admit: "\<not> ended st \<Longrightarrow> ar \<in> arrivals \<Longrightarrow> accept_step tls ar (web st) = Inr (signalled, dropped, srv) \<Longrightarrow>
    accept_call tls arrivals (st, Nobody, r) (st\<lparr>web := srv\<rparr>, Nobody, r)"
| shut: "\<not> ended st \<Longrightarrow> stop (web st) \<Longrightarrow>
    accept_call tls arrivals (st, Nobody, r) (st, Closes (map fst (clients (web st))), r)"
| shut_one: "map_find (clients (web st)) i = Some c \<Longrightarrow> Disconnect tls c = Inr c1 \<Longrightarrow>
    accept_call tls arrivals (st, Closes (i # is), r)
      (with_clients (map_put (clients (web st)) i c1) st, Closes is, r)"
| clear: "accept_call tls arrivals (st, Closes [], r) ((with_clients [] st)\<lparr>ended := True\<rparr>, Nobody, r)"

text \<open>
  The message thread. The handlers need \<^verbatim>\<open>logs_mutex\<close> when they change the list. After a return
  code that continues the inner loop it receives from the same client again.
\<close>

definition serve_on :: "(int \<Rightarrow> bool) \<Rightarrow> int \<Rightarrow> int \<Rightarrow> int list \<Rightarrow> hold" where
  "serve_on ready ret i is =
     (if ret = READ_SUCCEED_DATA_AVAILABLE \<or> ret = HANDSHAKE_SUCCEED
      then Serves ready (i # is) To_receive else Serves ready is At_client)"

inductive message_call ::
  "'s tls_api \<Rightarrow> 'w os_api \<Rightarrow> ('s, 'w) fine \<Rightarrow> ('s, 'w) fine \<Rightarrow> bool" for tls api where
  fill_all: "\<not> selecting st \<Longrightarrow> fill_set (clients (web st)) (-1) = Inr nfds \<Longrightarrow>
    message_call tls api (st, Nobody, r) (st\<lparr>selecting := True\<rparr>, Nobody, r)"
| begin_pass: "selecting st \<Longrightarrow>
    message_call tls api (st, Nobody, r) (st, Serves ready (map fst (clients (web st))) At_client, r)"
| not_ready: "map_find (clients (web st)) i = Some c \<Longrightarrow> fd_set_ok (socket c) = Inr u \<Longrightarrow> \<not> ready (socket c) \<Longrightarrow>
    message_call tls api (st, Serves ready (i # is) At_client, r) (st, Serves ready is At_client, r)"
| is_ready: "map_find (clients (web st)) i = Some c \<Longrightarrow> fd_set_ok (socket c) = Inr u \<Longrightarrow> ready (socket c) \<Longrightarrow>
    message_call tls api (st, Serves ready (i # is) At_client, r) (st, Serves ready (i # is) To_receive, r)"
| receive: "map_find (clients (web st)) i = Some c \<Longrightarrow>
    Receive tls c (data_buf st) MSG_BUF_LEN = Inr (ret, c1, buf, len) \<Longrightarrow>
    message_call tls api (st, Serves ready (i # is) To_receive, r)
      ((with_clients (map_put (clients (web st)) i c1) st)\<lparr>data_buf := buf\<rparr>, Serves ready (i # is) (Received ret len), r)"
| handle: "ret = READ_SUCCEED \<or> ret = READ_SUCCEED_DATA_AVAILABLE \<Longrightarrow>
    map_find (clients (web st)) i = Some c \<Longrightarrow>
    OnMessage api fresh (logsrv st) c (data_buf st) len = Inr (a, c1) \<Longrightarrow>
    r = None \<or> logs a = logs (logsrv st) \<Longrightarrow>
    message_call tls api (st, Serves ready (i # is) (Received ret len), r)
      ((with_clients (map_put (clients (web st)) i c1) st)\<lparr>logsrv := a\<rparr>, serve_on ready ret i is, r)"
| wait_more: "0 \<le> ret \<Longrightarrow> ret \<noteq> READ_SUCCEED \<Longrightarrow> ret \<noteq> READ_SUCCEED_DATA_AVAILABLE \<Longrightarrow>
    message_call tls api (st, Serves ready (i # is) (Received ret len), r) (st, serve_on ready ret i is, r)"
| hang_up: "ret < 0 \<Longrightarrow> map_find (clients (web st)) i = Some c \<Longrightarrow> Disconnect tls c = Inr c1 \<Longrightarrow>
    message_call tls api (st, Serves ready (i # is) (Received ret len), r)
      (with_clients (map_put (clients (web st)) i c1) st, Serves ready (i # is) Disconnected, r)"
| release: "map_find (clients (web st)) i = Some c \<Longrightarrow> OnDisconnect api (logsrv st) c = Inr (a, c1) \<Longrightarrow>
    message_call tls api (st, Serves ready (i # is) Disconnected, None)
      ((with_clients (map_put (clients (web st)) i c1) st)\<lparr>logsrv := a\<rparr>, Serves ready (i # is) Released, None)"
| erase: "message_call tls api (st, Serves ready (i # is) Released, r)
      (with_clients (map_erase (clients (web st)) i) st, Serves ready is At_client, r)"
| end_pass: "message_call tls api (st, Serves ready [] At_client, r) (st\<lparr>selecting := False\<rparr>, Nobody, r)"

text \<open>The log thread, which never asks for \<^verbatim>\<open>clients_mutex\<close>.\<close>

inductive log_call ::
  "'s tls_api \<Rightarrow> 'w os_api \<Rightarrow> ('s, 'w) fine \<Rightarrow> ('s, 'w) fine \<Rightarrow> bool" for tls api where
  watch_all: "watched st = None \<Longrightarrow> fill_logs (logs (logsrv st)) (-1) = Inr nfds \<Longrightarrow>
    log_call tls api (st, q, None) (st\<lparr>watched := Some (log_fd ` set (logs (logsrv st)))\<rparr>, q, None)"
| no_event: "watched st = Some fds \<Longrightarrow>
    sel_ret (sel :: select_result) < 0 \<and> sel_errno sel = EINTR \<or> sel_ret sel = 0 \<Longrightarrow>
    log_call tls api (st, q, None) (st\<lparr>watched := None\<rparr>, q, None)"
| begin_logs: "watched st = Some fds \<Longrightarrow>
    \<not> (sel_ret (sel :: select_result) < 0 \<and> sel_errno sel = EINTR \<or> sel_ret sel = 0) \<Longrightarrow>
    log_call tls api (st, q, None)
      (st, q, Some (if sel_ret sel < 0 then (\<lambda>fd. fd \<in> fds) else sel_read sel,
                    if sel_ret sel < 0 then (\<lambda>fd. fd \<in> fds) else sel_except sel, 0, Look))"
| no_line: "k < length (logs (logsrv st)) \<Longrightarrow> d = logs (logsrv st) ! k \<Longrightarrow> fd_set_ok (log_fd d) = Inr u \<Longrightarrow>
    \<not> rd (log_fd d) \<Longrightarrow>
    log_call tls api (st, q, Some (rd, ex, k, Look)) (st, q, Some (rd, ex, k, Check))"
| orphan: "k < length (logs (logsrv st)) \<Longrightarrow> d = logs (logsrv st) ! k \<Longrightarrow> fd_set_ok (log_fd d) = Inr u \<Longrightarrow>
    rd (log_fd d) \<Longrightarrow> map_find (clients (web st)) (log_client_id d) = None \<Longrightarrow>
    Cleanup api d (os (logsrv st)) = Inr (d1, w) \<Longrightarrow>
    log_call tls api (st, q, Some (rd, ex, k, Look))
      (with_logs (without k (logs (logsrv st))) w st, q, Some (rd, ex, k, Look))"
| find_client: "k < length (logs (logsrv st)) \<Longrightarrow> d = logs (logsrv st) ! k \<Longrightarrow> fd_set_ok (log_fd d) = Inr u \<Longrightarrow>
    rd (log_fd d) \<Longrightarrow> map_find (clients (web st)) (log_client_id d) = Some c \<Longrightarrow>
    log_call tls api (st, q, Some (rd, ex, k, Look)) (st, q, Some (rd, ex, k, Found (log_client_id d)))"
| get_line: "k < length (logs (logsrv st)) \<Longrightarrow> d = logs (logsrv st) ! k \<Longrightarrow>
    GetNextLine api d (line_buf st) MSG_BUF_LEN (os (logsrv st)) = Inr (ret, d1, buf, w) \<Longrightarrow>
    log_call tls api (st, q, Some (rd, ex, k, Found i))
      ((with_logs ((logs (logsrv st))[k := d1]) w st)\<lparr>line_buf := buf\<rparr>, q,
       Some (rd, ex, k, if ret = 0 then Line i else Check))"
| send_line: "map_find (clients (web st)) i = Some c \<Longrightarrow> Send tls c (cstr (line_buf st)) = Inr (ret, c1) \<Longrightarrow>
    log_call tls api (st, q, Some (rd, ex, k, Line i))
      (with_clients (map_put (clients (web st)) i c1) st, q, Some (rd, ex, k, Check))"
| keep_log: "k < length (logs (logsrv st)) \<Longrightarrow> d = logs (logsrv st) ! k \<Longrightarrow>
    check_except api ex d (os (logsrv st)) = Inr (Some d1, w) \<Longrightarrow>
    log_call tls api (st, q, Some (rd, ex, k, Check))
      (with_logs ((logs (logsrv st))[k := d1]) w st, q, Some (rd, ex, Suc k, Look))"
| drop_log: "k < length (logs (logsrv st)) \<Longrightarrow> d = logs (logsrv st) ! k \<Longrightarrow>
    check_except api ex d (os (logsrv st)) = Inr (None, w) \<Longrightarrow>
    log_call tls api (st, q, Some (rd, ex, k, Check))
      (with_logs (without k (logs (logsrv st))) w st, q, Some (rd, ex, k, Look))"
| end_logs: "log_call tls api (st, q, Some (rd, ex, length (logs (logsrv st)), Look)) (st\<lparr>watched := None\<rparr>, q, None)"

inductive call_step ::
  "'s tls_api \<Rightarrow> 'w os_api \<Rightarrow> 's arrival set \<Rightarrow> ('s, 'w) fine \<Rightarrow> actor \<Rightarrow> ('s, 'w) fine \<Rightarrow> bool"
  for tls api arrivals where
  accepting: "accept_call tls arrivals s s' \<Longrightarrow> call_step tls api arrivals s Accepter s'"
| listening: "message_call tls api s s' \<Longrightarrow> call_step tls api arrivals s Listener s'"
| logging: "log_call tls api s s' \<Longrightarrow> call_step tls api arrivals s Reader s'"
| stopping: "call_step tls api arrivals (st, q, r) Caller (st\<lparr>web := snd (Stop (web st))\<rparr>, q, r)"
| moving: "call_step tls api arrivals (st, q, r) OpSys (st\<lparr>logsrv := (logsrv st)\<lparr>os := w\<rparr>\<rparr>, q, r)"

inductive call_run ::
  "'s tls_api \<Rightarrow> 'w os_api \<Rightarrow> 's arrival set \<Rightarrow> ('s, 'w) fine \<Rightarrow> ('s, 'w) fine \<Rightarrow> bool"
  for tls api arrivals where
  none: "call_run tls api arrivals s s"
| more: "call_run tls api arrivals s s1 \<Longrightarrow> call_step tls api arrivals s1 t s' \<Longrightarrow> call_run tls api arrivals s s'"

lemma call_run_trans:
  "call_run tls api arrivals s1 s2 \<Longrightarrow> call_run tls api arrivals s s1 \<Longrightarrow> call_run tls api arrivals s s2"
  by (induction rule: call_run.induct) (auto intro: call_run.intros)

lemma call_run_step:
  "call_step tls api arrivals s t s1 \<Longrightarrow> call_run tls api arrivals s1 s2 \<Longrightarrow> call_run tls api arrivals s s2"
  using call_run_trans call_run.intros by metis

section \<open>Sections are runs of calls\<close>

text \<open>The entry in the middle of the map.\<close>

lemma map_mid:
  assumes "map_ok (es1 @ (k, c) # es2)"
  shows "map_find (es1 @ (k, c) # es2) k = Some c" and "map_put (es1 @ (k, c) # es2) k c' = es1 @ (k, c') # es2"
    and "map_erase (es1 @ (k, c) # es2) k = es1 @ es2" and "map_ok (es1 @ (k, c') # es2)" and "map_ok (es1 @ es2)"
proof -
  have o: "\<forall>e \<in> set es1. fst e < k" "\<forall>e \<in> set es2. k < fst e"
    using assms by (auto simp: map_ok_def sorted_wrt_append)
  then have "map_of es1 k = None" by (force simp: map_of_eq_None_iff)
  then show "map_find (es1 @ (k, c) # es2) k = Some c" by (simp add: map_find_def map_add_def)
  show "map_put (es1 @ (k, c) # es2) k c' = es1 @ (k, c') # es2" using o(1) by (induction es1) auto
  have "filter (\<lambda>e. fst e \<noteq> k) es1 = es1" "filter (\<lambda>e. fst e \<noteq> k) es2 = es2"
    using o by (auto intro: filter_True)
  then show "map_erase (es1 @ (k, c) # es2) k = es1 @ es2" by (simp add: map_erase_def)
  show "map_ok (es1 @ (k, c') # es2)" "map_ok (es1 @ es2)"
    using assms by (auto simp: map_ok_def sorted_wrt_append)
qed

lemma with_clients_twice [simp]: "with_clients es (with_clients es' st) = with_clients es st"
  by (simp add: with_clients_def)

lemma with_clients_same: "clients (web st) = es \<Longrightarrow> with_clients es st = st"
  by (auto simp: with_clients_def)

lemma disconnect_all_calls:
  assumes "disconnect_all tls es2 = Inr es2'" and "clients (web st) = es1 @ es2" and "map_ok (es1 @ es2)"
  shows "call_run tls api arrivals (st, Closes (map fst es2), r) (with_clients (es1 @ es2') st, Closes [], r)"
  using assms
proof (induction es2 arbitrary: es1 es2' st)
  case Nil
  then show ?case by (simp add: with_clients_same call_run.none)
next
  case (Cons e es2)
  obtain k c where e: "e = (k, c)" by fastforce
  obtain c1 es3 where d: "Disconnect tls c = Inr c1" "disconnect_all tls es2 = Inr es3" "es2' = (k, c1) # es3"
    using Cons.prems(1) e by (auto simp: bind_r_eq_Inr)
  note m = map_mid [OF Cons.prems(3) [unfolded e]]
  let ?st = "with_clients (es1 @ (k, c1) # es2) st"
  have "call_run tls api arrivals (?st, Closes (map fst es2), r) (with_clients (es1 @ es2') ?st, Closes [], r)"
    using Cons.IH [OF d(2), of ?st "es1 @ [(k, c1)]"] m(4) by (simp add: d(3))
  with call_run_step [OF accepting [OF shut_one [of st k c tls c1 arrivals "map fst es2" r]]] m(1,2) d(1)
    Cons.prems(2) e show ?case by simp
qed

text \<open>The inner loop over one client, and the pass over the rest of the clients.\<close>

lemma turn_calls:
  assumes rc: "Receive tls c (data_buf st) MSG_BUF_LEN = Inr (ret, c1, buf, len)"
    and d: "dispatch tls (log_handlers api fresh) ret c1 buf len (logsrv st) = Inr (a, c2)"
    and es: "clients (web st) = es1 @ (k, c) # es2" and m: "map_ok (clients (web st))"
  shows "call_run tls api arrivals (st, Serves ready (k # is) To_receive, None)
    ((with_clients (es1 @ (if 0 \<le> ret then [(k, c2)] else []) @ es2) st)\<lparr>data_buf := buf, logsrv := a\<rparr>,
     if 0 \<le> ret then serve_on ready ret k is else Serves ready is At_client, None)"
proof -
  note mid = map_mid [OF m [unfolded es]]
  define st1 where "st1 = (with_clients (es1 @ (k, c1) # es2) st)\<lparr>data_buf := buf\<rparr>"
  have st1: "clients (web st1) = es1 @ (k, c1) # es2" "logsrv st1 = logsrv st" "data_buf st1 = buf"
    "with_clients es st1 = (with_clients es st)\<lparr>data_buf := buf\<rparr>" for es
    by (simp_all add: st1_def with_clients_def)
  note mid1 = map_mid [OF mid(4) [of c1]]
  from receive [OF _ rc, of k api ready "is" None] es mid
  have r: "message_call tls api (st, Serves ready (k # is) To_receive, None)
      (st1, Serves ready (k # is) (Received ret len), None)"
    by (simp add: st1_def)
  consider "ret = READ_SUCCEED \<or> ret = READ_SUCCEED_DATA_AVAILABLE" | "ret < 0"
    | "0 \<le> ret" "ret \<noteq> READ_SUCCEED" "ret \<noteq> READ_SUCCEED_DATA_AVAILABLE" by linarith
  then show ?thesis
  proof cases
    case 1
    with d have "OnMessage api fresh (logsrv st1) c1 (data_buf st1) len = Inr (a, c2)"
      by (auto simp: dispatch_def log_handlers_def st1)
    from handle [OF 1 _ this, of k None tls ready "is"] mid1
    have "message_call tls api (st1, Serves ready (k # is) (Received ret len), None)
        ((with_clients (es1 @ (k, c2) # es2) st1)\<lparr>logsrv := a\<rparr>, serve_on ready ret k is, None)"
      by (simp add: st1(1))
    with 1 show ?thesis
      using call_run_step [OF listening [OF r] call_run_step [OF listening call_run.none]]
      by (auto simp: st1(4) return_codes)
  next
    case 2
    then obtain c3 where c3: "Disconnect tls c1 = Inr c3" "OnDisconnect api (logsrv st) c3 = Inr (a, c2)"
      using d by (auto simp: dispatch_def log_handlers_def bind_r_eq_Inr return_codes)
    define st2 where "st2 = with_clients (es1 @ (k, c3) # es2) st1"
    define st3 where "st3 = (with_clients (es1 @ (k, c2) # es2) st2)\<lparr>logsrv := a\<rparr>"
    have s2: "message_call tls api (st1, Serves ready (k # is) (Received ret len), None)
        (st2, Serves ready (k # is) Disconnected, None)"
      using hang_up [OF 2 _ c3(1), of st1 k api ready "is" len None] mid1 by (simp add: st1(1) st2_def)
    have s3: "message_call tls api (st2, Serves ready (k # is) Disconnected, None) (st3, Serves ready (k # is) Released, None)"
      using release [of st2 k c3 api a c2 tls ready "is"] map_mid [OF mid(4) [of c3]] c3(2)
      by (simp add: st2_def st3_def st1(2))
    have "map_erase (clients (web st3)) k = es1 @ es2"
      using map_mid(3) [OF mid(4) [of c2]] by (simp add: st3_def)
    with erase [of tls api st3 ready k "is" None]
    have s4: "message_call tls api (st3, Serves ready (k # is) Released, None)
        (with_clients (es1 @ es2) st3, Serves ready is At_client, None)" by simp
    have "with_clients (es1 @ es2) st3 = (with_clients (es1 @ es2) st)\<lparr>data_buf := buf, logsrv := a\<rparr>"
      by (simp add: st3_def st2_def st1_def with_clients_def)
    with 2 show ?thesis
      using call_run_step [OF listening [OF r] call_run_step [OF listening [OF s2]
        call_run_step [OF listening [OF s3] call_run_step [OF listening [OF s4] call_run.none]]]] by simp
  next
    case 3
    with d have "a = logsrv st" "c2 = c1" by (auto simp: dispatch_def)
    with 3 show ?thesis
      using call_run_step [OF listening [OF r] call_run_step [OF listening [OF wait_more [OF 3]] call_run.none]]
      by (simp add: st1_def with_clients_def)
  qed
qed

lemma recv_loop_calls:
  fixes st :: "('s, 'w) system"
  assumes "recv_loop tls (log_handlers api fresh) c buf a = Some (Inr (ret, c', buf', a'))"
    and "clients (web st) = es1 @ (k, c) # es2" and "map_ok (clients (web st))"
    and "data_buf st = buf" and "logsrv st = a"
  shows "call_run tls api arrivals (st, Serves ready (k # is) To_receive, None)
    ((with_clients (es1 @ (if 0 \<le> ret then [(k, c')] else []) @ es2) st)\<lparr>data_buf := buf', logsrv := a'\<rparr>,
     Serves ready is At_client, None)"
  using assms
proof (induction tls "log_handlers api fresh :: ('w log_server, 's) ws_handlers" c buf a "Inr (ret, c', buf', a') :: (int \<times> 's client \<times> byte list \<times> 'w log_server) result"
    arbitrary: st rule: recv_loop.raw_induct)
  case (1 self tls c buf a)
  obtain r c1 buf1 len1 where rc: "Receive tls c (data_buf st) MSG_BUF_LEN = Inr (r, c1, buf1, len1)"
    using "1.hyps"(2) "1.prems"(4) by (auto split: sum.splits)
  obtain a1 c2 where d: "dispatch tls (log_handlers api fresh) r c1 buf1 len1 (logsrv st) = Inr (a1, c2)"
    using "1.hyps"(2) "1.prems"(4,5) rc by (auto split: sum.splits)
  note t = turn_calls [OF rc d "1.prems"(2,3), of arrivals ready "is"]
  show ?case
  proof (cases "r = READ_SUCCEED_DATA_AVAILABLE \<or> r = HANDSHAKE_SUCCEED")
    case False
    with "1.hyps"(2) "1.prems"(4,5) rc d t show ?thesis by (auto simp: serve_on_def)
  next
    case True
    let ?st = "(with_clients (es1 @ (k, c2) # es2) st)\<lparr>data_buf := buf1, logsrv := a1\<rparr>"
    have "self tls (log_handlers api fresh) c2 buf1 a1 = Some (Inr (ret, c', buf', a'))"
      using "1.hyps"(2) "1.prems"(4,5) rc d True by auto
    moreover have "recv_loop tls (log_handlers api fresh) c2 buf1 a1 = Some (Inr (ret, c', buf', a'))"
      using "1.prems"(1,4,5) rc d True recv_loop.simps [of tls "log_handlers api fresh" c buf a] by auto
    moreover note "1.hyps"(1) [of tls c2 buf1 a1 ?st]
    ultimately
    have "call_run tls api arrivals (?st, Serves ready (k # is) To_receive, None)
      ((with_clients (es1 @ (if 0 \<le> ret then [(k, c')] else []) @ es2) st)\<lparr>data_buf := buf', logsrv := a'\<rparr>,
       Serves ready is At_client, None)"
      using map_mid(4) [OF "1.prems"(3) [unfolded "1.prems"(2)]] by (simp add: with_clients_def)
    moreover have "0 \<le> r" using True by (auto simp: return_codes)
    ultimately show ?thesis using t True call_run_trans by (auto simp: serve_on_def)
  qed
qed (use assms(1) in simp)

lemma serve_clients_calls:
  assumes "serve_clients tls (log_handlers api fresh) ready es2 (data_buf st) (logsrv st) = Inr (es', buf, a)"
    and "clients (web st) = es1 @ es2" and "map_ok (clients (web st))"
  shows "call_run tls api arrivals (st, Serves ready (map fst es2) At_client, None)
    ((with_clients (es1 @ es') st)\<lparr>data_buf := buf, logsrv := a\<rparr>, Serves ready [] At_client, None)"
  using assms
proof (induction es2 arbitrary: es1 es' st)
  case Nil
  then have "es' = []" "buf = data_buf st" "a = logsrv st" by auto
  with Nil show ?case by (simp add: with_clients_same call_run.none)
next
  case (Cons e es2)
  obtain k c where e: "e = (k, c)" by fastforce
  obtain ret c1 buf1 a1 es3 where
    s: "serve_client tls (log_handlers api fresh) ready c (data_buf st) (logsrv st) = Inr (ret, c1, buf1, a1)"
    and rest: "serve_clients tls (log_handlers api fresh) ready es2 buf1 a1 = Inr (es3, buf, a)"
    and es': "es' = (if ret \<ge> 0 then [(k, c1)] else []) @ es3"
    using Cons.prems(1) e by (auto simp: bind_r_eq_Inr)
  define es1' where "es1' = es1 @ (if 0 \<le> ret then [(k, c1)] else [])"
  let ?st = "(with_clients (es1' @ es2) st)\<lparr>data_buf := buf1, logsrv := a1\<rparr>"
  note m = map_mid [OF Cons.prems(3) [unfolded Cons.prems(2) e]]
  have f: "map_find (clients (web st)) k = Some c" using m(1) by (simp add: Cons.prems(2) e)
  have "call_run tls api arrivals (st, Serves ready (k # map fst es2) At_client, None)
      (?st, Serves ready (map fst es2) At_client, None)"
  proof (cases "ready (socket c)")
    case False
    with s have "bind_r (fd_set_ok (socket c)) (\<lambda>_. Inr (0, c, data_buf st, logsrv st)) = Inr (ret, c1, buf1, a1)"
      by (simp add: serve_client_def)
    then obtain u where n: "fd_set_ok (socket c) = Inr u" "ret = 0" "c1 = c" "buf1 = data_buf st" "a1 = logsrv st"
      unfolding bind_r_eq_Inr by blast
    have "with_clients (es1' @ es2) st = st" by (rule with_clients_same) (simp add: es1'_def n Cons.prems(2) e)
    then have "?st = st" using n(4,5) by simp
    with n call_run_step [OF listening [OF not_ready [where ready = ready, OF f n(1) False]] call_run.none] show ?thesis by simp
  next
    case True
    then obtain u where u: "fd_set_ok (socket c) = Inr u"
      and l: "recv_loop tls (log_handlers api fresh) c (data_buf st) (logsrv st) = Some (Inr (ret, c1, buf1, a1))"
      using s by (auto simp: serve_client_def bind_r_eq_Inr split: option.splits)
    from recv_loop_calls [OF l _ Cons.prems(3), of es1 k es2 arrivals ready "map fst es2"] Cons.prems(2) e
    show ?thesis using call_run_step [OF listening [OF is_ready [where ready = ready, OF f u True]]] by (auto simp: es1'_def)
  qed
  moreover have "call_run tls api arrivals (?st, Serves ready (map fst es2) At_client, None)
      ((with_clients (es1 @ es') st)\<lparr>data_buf := buf, logsrv := a\<rparr>, Serves ready [] At_client, None)"
    using Cons.IH [of ?st es3 es1'] rest m(4,5) by (simp add: es1'_def es' with_clients_def)
  ultimately show ?case using call_run_trans by (auto simp: e)
qed

text \<open>The pass over the logs.\<close>

lemma without_length [simp]: "without (length xs) (xs @ y # ys) = xs @ ys"
  by (simp add: without_def)

lemma with_logs_twice [simp]: "with_logs ds w (with_logs ds' w' st) = with_logs ds w st"
  by (simp add: with_logs_def)

lemma with_logs_same [simp]: "with_logs (logs (logsrv st)) (os (logsrv st)) st = st"
  by (cases st; cases "logsrv st") (simp add: with_logs_def)

lemma line_buf_same: "line_buf st = b \<Longrightarrow> st\<lparr>line_buf := b\<rparr> = st"
  by auto

lemma check_call:
  assumes "check_except api ex d (os (logsrv st)) = Inr (kept, w)" and "logs (logsrv st) = ds1 @ d # ds2"
  shows "log_call tls api (st, q, Some (rd, ex, length ds1, Check))
    (with_logs (ds1 @ (case kept of None \<Rightarrow> [] | Some d1 \<Rightarrow> [d1]) @ ds2) w st, q,
     Some (rd, ex, case kept of None \<Rightarrow> length ds1 | Some d1 \<Rightarrow> Suc (length ds1), Look))"
proof -
  have k: "length ds1 < length (logs (logsrv st))" "d = logs (logsrv st) ! length ds1" using assms(2) by simp_all
  show ?thesis
  proof (cases kept)
    case None
    from drop_log [OF k assms(1) [unfolded None]] show ?thesis by (simp add: None assms(2))
  next
    case (Some d1)
    from keep_log [OF k assms(1) [unfolded Some]] show ?thesis by (simp add: Some assms(2))
  qed
qed

lemma log_step_calls:
  fixes st :: "('s, 'w) system"
  assumes s: "log_step api tls rd ex d (line_buf st) (clients (web st)) (os (logsrv st)) = Inr (kept, buf, es, w)"
    and ds: "logs (logsrv st) = ds1 @ d # ds2"
  shows "call_run tls api arrivals (st, q, Some (rd, ex, length ds1, Look))
    ((with_clients es (with_logs (ds1 @ (case kept of None \<Rightarrow> [] | Some d1 \<Rightarrow> [d1]) @ ds2) w st))\<lparr>line_buf := buf\<rparr>, q,
     Some (rd, ex, case kept of None \<Rightarrow> length ds1 | Some d1 \<Rightarrow> Suc (length ds1), Look))"
proof -
  have k: "length ds1 < length (logs (logsrv st))" "d = logs (logsrv st) ! length ds1" using ds by simp_all
  obtain u where u: "fd_set_ok (log_fd d) = Inr u" using s by (auto simp: log_step_def bind_r_eq_Inr)
  show ?thesis
  proof (cases "rd (log_fd d)")
    case False
    with s u have c: "check_except api ex d (os (logsrv st)) = Inr (kept, w)" "buf = line_buf st" "es = clients (web st)"
      by (auto simp: log_step_def bind_r_eq_Inr)
    from call_run_step [OF logging [OF no_line [where rd = rd, OF k u False]] call_run_step [OF logging [OF check_call [OF c(1) ds]] call_run.none]] c(2,3)
    show ?thesis by (simp add: with_clients_same line_buf_same)
  next
    case True
    show ?thesis
    proof (cases "map_find (clients (web st)) (log_client_id d)")
      case None
      with s u True obtain d1 where c: "Cleanup api d (os (logsrv st)) = Inr (d1, w)" "kept = None"
        "buf = line_buf st" "es = clients (web st)"
        by (auto simp: log_step_def read_log_def bind_r_eq_Inr)
      from call_run_step [OF logging [OF orphan [where rd = rd, OF k u True None c(1)]] call_run.none] c(2-4) ds
      show ?thesis by (simp add: with_clients_same line_buf_same)
    next
      case (Some c)
      obtain ret d1 w1 where g: "GetNextLine api d (line_buf st) MSG_BUF_LEN (os (logsrv st)) = Inr (ret, d1, buf, w1)"
        and c: "check_except api ex d1 w1 = Inr (kept, w)"
        and es: "if ret = 0 then \<exists>n c1. Send tls c (cstr buf) = Inr (n, c1) \<and> es = map_put (clients (web st)) (log_client_id d) c1
          else es = clients (web st)"
        using s u True Some by (auto simp: log_step_def read_log_def bind_r_eq_Inr split: if_splits)
      let ?st1 = "(with_logs (ds1 @ d1 # ds2) w1 st)\<lparr>line_buf := buf\<rparr>"
      define st2 where "st2 = with_clients es ?st1"
      have "log_call tls api (st, q, Some (rd, ex, length ds1, Found (log_client_id d)))
          (?st1, q, Some (rd, ex, length ds1, if ret = 0 then Line (log_client_id d) else Check))"
        using get_line [OF k g, of tls q rd ex "log_client_id d"] ds by simp
      from call_run_step [OF logging [OF find_client [where rd = rd, OF k u True Some]] call_run_step [OF logging [OF this] call_run.none]]
      have r1: "call_run tls api arrivals (st, q, Some (rd, ex, length ds1, Look))
          (?st1, q, Some (rd, ex, length ds1, if ret = 0 then Line (log_client_id d) else Check))" .
      have r2: "call_run tls api arrivals
          (?st1, q, Some (rd, ex, length ds1, if ret = 0 then Line (log_client_id d) else Check))
          (st2, q, Some (rd, ex, length ds1, Check))"
      proof (cases "ret = 0")
        case False
        with es have "st2 = ?st1" unfolding st2_def by (intro with_clients_same) simp
        with False show ?thesis by (simp add: call_run.none)
      next
        case True
        with es obtain n c1 where "Send tls c (cstr (line_buf ?st1)) = Inr (n, c1)"
          and e: "es = map_put (clients (web st)) (log_client_id d) c1" by auto
        from call_run_step [OF logging [OF send_line [OF _ this(1)]] call_run.none,
          of "log_client_id d" api arrivals q rd ex "length ds1"] Some True e
        show ?thesis by (simp add: st2_def)
      qed
      have "check_except api ex d1 (os (logsrv st2)) = Inr (kept, w)" "logs (logsrv st2) = ds1 @ d1 # ds2"
        using c by (simp_all add: st2_def)
      from call_run_step [OF logging [OF check_call [OF this]] call_run.none]
      have r3: "call_run tls api arrivals (st2, q, Some (rd, ex, length ds1, Check))
         (with_logs (ds1 @ (case kept of None \<Rightarrow> [] | Some d1 \<Rightarrow> [d1]) @ ds2) w st2, q,
          Some (rd, ex, case kept of None \<Rightarrow> length ds1 | Some d1 \<Rightarrow> Suc (length ds1), Look))" .
      have "with_logs ds w (with_clients es (st3\<lparr>line_buf := buf\<rparr>)) =
          (with_clients es (with_logs ds w st3))\<lparr>line_buf := buf\<rparr>" for ds and st3 :: "('s, 'w) system"
        by (simp add: with_logs_def with_clients_def)
      with call_run_trans [OF r3 call_run_trans [OF r2 r1]] show ?thesis by (simp add: st2_def)
    qed
  qed
qed

lemma log_loop_calls:
  assumes "log_loop api tls rd ex ds2 (line_buf st) (clients (web st)) (os (logsrv st)) = Inr (ds', buf, es, w)"
    and "logs (logsrv st) = ds1 @ ds2"
  shows "call_run tls api arrivals (st, q, Some (rd, ex, length ds1, Look))
    ((with_clients es (with_logs (ds1 @ ds') w st))\<lparr>line_buf := buf\<rparr>, q, Some (rd, ex, length (ds1 @ ds'), Look))"
  using assms
proof (induction ds2 arbitrary: ds1 ds' st)
  case Nil
  then have c: "ds' = []" "buf = line_buf st" "es = clients (web st)" "w = os (logsrv st)" "ds1 = logs (logsrv st)" by auto
  show ?case unfolding c(1-4) by (simp add: c(5) with_clients_same call_run.none)
next
  case (Cons d ds2)
  obtain kept buf1 es1 w1 ds3 where
    s: "log_step api tls rd ex d (line_buf st) (clients (web st)) (os (logsrv st)) = Inr (kept, buf1, es1, w1)"
    and rest: "log_loop api tls rd ex ds2 buf1 es1 w1 = Inr (ds3, buf, es, w)"
    and ds': "ds' = (case kept of None \<Rightarrow> ds3 | Some d1 \<Rightarrow> d1 # ds3)"
    using Cons.prems(1) by (auto simp: bind_r_eq_Inr)
  define k where "k = (case kept of None \<Rightarrow> [] | Some d1 \<Rightarrow> [d1])"
  have k': "(case kept of None \<Rightarrow> length ds1 | Some d1 \<Rightarrow> Suc (length ds1)) = length (ds1 @ k)" "ds' = k @ ds3"
    by (simp_all add: k_def ds' split: option.split)
  define st1 where "st1 = (with_clients es1 (with_logs (ds1 @ k @ ds2) w1 st))\<lparr>line_buf := buf1\<rparr>"
  have st1: "line_buf st1 = buf1" "clients (web st1) = es1" "os (logsrv st1) = w1" "logs (logsrv st1) = (ds1 @ k) @ ds2"
    "(with_clients es (with_logs ds w st1))\<lparr>line_buf := buf\<rparr> = (with_clients es (with_logs ds w st))\<lparr>line_buf := buf\<rparr>" for ds
    by (simp_all add: st1_def with_clients_def with_logs_def)
  note r = log_step_calls [OF s Cons.prems(2), of arrivals q, folded k_def, unfolded k'(1), folded st1_def]
  have "call_run tls api arrivals (st1, q, Some (rd, ex, length (ds1 @ k), Look))
      ((with_clients es (with_logs (ds1 @ ds') w st))\<lparr>line_buf := buf\<rparr>, q, Some (rd, ex, length (ds1 @ ds'), Look))"
    using Cons.IH [of st1 ds3 "ds1 @ k"] rest by (simp add: st1 k'(2))
  with r show ?case using call_run_trans by blast
qed

text \<open>
  Every run of sections is a run of calls: each section runs through without another thread in
  between. What holds in all runs of calls holds in all runs of sections.
\<close>

lemma section_calls:
  fixes st :: "('s, 'w) system"
  assumes "sys_step tls api arrivals st t st'" and m: "map_ok (clients (web st))"
  shows "call_run tls api arrivals (st, Nobody, None) (st', Nobody, None)"
  using assms(1)
proof cases
  case accepts
  from accepts(2) show ?thesis
  proof cases
    case (enter ar signalled dropped srv)
    from call_run_step [OF accepting [OF admit [OF enter(2-4)]] call_run.none] enter(1) show ?thesis by simp
  next
    case (finish es)
    have "call_run tls api arrivals (st, Closes (map fst (clients (web st))), None) (with_clients es st, Closes [], None)"
      using disconnect_all_calls [OF finish(4), of st "[]"] m by simp
    from call_run_step [OF accepting [OF shut [OF finish(2,3)]] call_run.more [OF this accepting [OF clear]]] finish(1)
    show ?thesis by (simp add: with_clients_def)
  qed
next
  case listens
  from listens(2) show ?thesis
  proof cases
    case (fill nfds)
    from call_run_step [OF listening [OF fill_all [OF fill(2,3)]] call_run.none] fill(1) show ?thesis by simp
  next
    case (serve fresh ready es buf a)
    have "call_run tls api arrivals (st, Serves ready (map fst (clients (web st))) At_client, None)
        ((with_clients es st)\<lparr>data_buf := buf, logsrv := a\<rparr>, Serves ready [] At_client, None)"
      using serve_clients_calls [OF serve(3), of "[]" arrivals] m by simp
    from call_run_step [OF listening [OF begin_pass [OF serve(2)]] call_run.more [OF this listening [OF end_pass]]]
    have "call_run tls api arrivals (st, Nobody, None)
        (((with_clients es st)\<lparr>data_buf := buf, logsrv := a\<rparr>)\<lparr>selecting := False\<rparr>, Nobody, None)" .
    moreover have "((with_clients es st)\<lparr>data_buf := buf, logsrv := a\<rparr>)\<lparr>selecting := False\<rparr> = st'"
      by (simp add: serve(1) with_clients_def)
    ultimately show ?thesis by simp
  qed
next
  case reads
  from reads(2) show ?thesis
  proof cases
    case (watch nfds)
    from call_run_step [OF logging [OF watch_all [OF watch(2,3)]] call_run.none] watch(1) show ?thesis by simp
  next
    case (skip fds sel)
    from call_run_step [OF logging [OF no_event [OF skip(2,3)]] call_run.none] skip(1) show ?thesis by simp
  next
    case (read fds sel ds buf es w)
    define rd where "rd = (if sel_ret sel < 0 then (\<lambda>fd. fd \<in> fds) else sel_read sel)"
    define ex where "ex = (if sel_ret sel < 0 then (\<lambda>fd. fd \<in> fds) else sel_except sel)"
    let ?st = "(with_clients es (with_logs ds w st))\<lparr>line_buf := buf\<rparr>"
    have r: "call_run tls api arrivals (st, Nobody, Some (rd, ex, 0, Look)) (?st, Nobody, Some (rd, ex, length (logs (logsrv ?st)), Look))"
      using log_loop_calls [OF read(4) [folded rd_def ex_def], of "[]" arrivals Nobody] by simp
    have "log_call tls api (st, Nobody, None) (st, Nobody, Some (rd, ex, 0, Look))"
      using begin_logs [OF read(2,3)] by (simp add: rd_def ex_def)
    from call_run_step [OF logging [OF this] call_run.more [OF r logging [OF end_logs]]]
    have "call_run tls api arrivals (st, Nobody, None) (?st\<lparr>watched := None\<rparr>, Nobody, None)" .
    moreover have "?st\<lparr>watched := None\<rparr> = st'" by (simp add: read(1) with_clients_def with_logs_def)
    ultimately show ?thesis by simp
  qed
next
  case stops
  with call_run_step [OF stopping call_run.none] show ?thesis by simp
next
  case (moves w)
  with call_run_step [OF moving call_run.none] show ?thesis by simp
qed

lemma sections_calls:
  assumes "ssl_read_ok tls" and "ssl_stream_ok tls pending" and "\<forall>ar \<in> arrivals. arrival_ok ar"
    and "sys_run tls api arrivals st0 st" and "starts st0"
  shows "call_run tls api arrivals (st0, Nobody, None) (st, Nobody, None)"
  using assms(4,5)
proof (induction rule: sys_run.induct)
  case (go st0 st1 t st)
  have "store_ok st1" using sys_run_history [OF assms(1-3) go(1,4)] by blast
  then have "map_ok (clients (web st1))" by (simp add: store_ok_def clients_ok_def)
  from call_run_trans [OF section_calls [OF go(2) this] go(3) [OF go(4)]] show ?case .
qed (rule call_run.none)

end
