(* ===== verification/Interleaving_Laws.thy ===== *)
theory Interleaving_Laws
  imports Interleaving
begin

text \<open>
  The invariant of the calls in any order, the events of theory Protocol that each call is, and
  what every client has been sent.
\<close>

section \<open>The invariant\<close>

text \<open>
  A client that is being dropped, from the failing \<open>Receive\<close> on, keeps its buffers only; its socket
  is gone once it is disconnected.
\<close>

fun leaving :: "hold \<Rightarrow> int \<Rightarrow> bool" where
  "leaving (Serves ready (k # is) (Received ret len)) i = (i = k \<and> ret < 0)"
| "leaving (Serves ready (k # is) Disconnected) i = (i = k)"
| "leaving (Serves ready (k # is) Released) i = (i = k)"
| "leaving (Closes is) i = (i \<notin> set is)"
| "leaving _ i = False"

fun closed :: "hold \<Rightarrow> int \<Rightarrow> bool" where
  "closed (Serves ready (k # is) Disconnected) i = (i = k)"
| "closed (Serves ready (k # is) Released) i = (i = k)"
| "closed (Closes is) i = (i \<notin> set is)"
| "closed _ i = False"

definition member_ok :: "hold \<Rightarrow> int \<Rightarrow> 's client \<Rightarrow> bool" where
  "member_ok q i c \<longleftrightarrow> cl_id c = i \<and> 0 \<le> i \<and> bufs_ok c \<and> (\<not> leaving q i \<longrightarrow> client_ok c) \<and> (\<not> closed q i \<longrightarrow> fd_ok c)"

definition members_ok :: "hold \<Rightarrow> 's client id_map \<Rightarrow> bool" where
  "members_ok q es \<longleftrightarrow> map_ok es \<and> (\<forall>i c. map_find es i = Some c \<longrightarrow> member_ok q i c)"

text \<open>The clients still to be served are in the map; a released client owns no log any more.\<close>

definition serve_point_ok :: "byte list \<Rightarrow> int set \<Rightarrow> int list \<Rightarrow> serve_point \<Rightarrow> bool" where
  "serve_point_ok buf own is pt \<longleftrightarrow> (is = [] \<longrightarrow> pt = At_client) \<and>
     (\<forall>ret len. pt = Received ret len \<longrightarrow> ret \<in> {READ_SUCCEED, READ_SUCCEED_DATA_AVAILABLE} \<longrightarrow> delivered buf len) \<and>
     (pt = Released \<longrightarrow> hd is \<notin> own)"

definition hold_ok :: "byte list \<Rightarrow> int set \<Rightarrow> int set \<Rightarrow> bool \<Rightarrow> hold \<Rightarrow> bool" where
  "hold_ok buf own I end q \<longleftrightarrow> (case q of
       Nobody \<Rightarrow> True
     | Serves ready is pt \<Rightarrow> distinct is \<and> set is \<subseteq> I \<and> serve_point_ok buf own is pt
     | Closes is \<Rightarrow> distinct is \<and> set is \<subseteq> I \<and> \<not> end)"

text \<open>The iterator of the log thread points to the client that owns the log, until the shutdown.\<close>

definition reading_ok :: "log_description list \<Rightarrow> int set \<Rightarrow> bool \<Rightarrow> reading \<Rightarrow> bool" where
  "reading_ok ds I end r \<longleftrightarrow> (\<forall>rd ex k pt. r = Some (rd, ex, k, pt) \<longrightarrow>
     k \<le> length ds \<and> (pt \<noteq> Look \<longrightarrow> k < length ds) \<and>
     (\<forall>i. pt = Found i \<or> pt = Line i \<longrightarrow> log_client_id (ds ! k) = i \<and> (\<not> end \<longrightarrow> i \<in> I)))"

definition fine_ok :: "('s, 'w) fine \<Rightarrow> bool" where
  "fine_ok s \<longleftrightarrow> (case s of (st, q, r) \<Rightarrow>
     members_ok q (clients (web st)) \<and> 0 \<le> id_counter (web st) \<and> id_counter (web st) \<le> INT_MAX \<and>
     length (data_buf st) = 2048 \<and> length (line_buf st) = 2048 \<and>
     (ended st \<longrightarrow> keys (clients (web st)) = {}) \<and>
     hold_ok (data_buf st) (owned (logsrv st)) (keys (clients (web st))) (ended st) q \<and>
     reading_ok (logs (logsrv st)) (keys (clients (web st))) (ended st) r)"

lemma in_keys_iff: "i \<in> keys es \<longleftrightarrow> map_find es i \<noteq> None"
  by (simp add: keys_def map_find_def dom_map_of_conv_image_fst [symmetric] domIff)

lemma keys_erase [simp]: "keys (map_erase es i) = keys es - {i}"
  by (auto simp: keys_def map_erase_def)

lemma keys_put_same [simp]: "i \<in> keys es \<Longrightarrow> keys (map_put es i c) = keys es"
  by (simp add: keys_put_new insert_absorb)

lemma reading_ok_mono: "reading_ok ds I end r \<Longrightarrow> I \<subseteq> I' \<Longrightarrow> reading_ok ds I' end r"
  by (auto simp: reading_ok_def)

lemma members_put:
  assumes "members_ok q es" and "member_ok q' k c"
    and "\<And>i. i \<noteq> k \<Longrightarrow> leaving q i \<Longrightarrow> leaving q' i" and "\<And>i. i \<noteq> k \<Longrightarrow> closed q i \<Longrightarrow> closed q' i"
  shows "members_ok q' (map_put es k c)"
proof -
  have "member_ok q' i c'" if "i \<noteq> k" "member_ok q i c'" for i c' using that assms(3,4) by (auto simp: member_ok_def)
  moreover have "map_ok es" using assms(1) by (simp add: members_ok_def)
  ultimately show ?thesis
    using assms(1,2) map_find_put [of es k c] map_ok_put [of es k c] by (simp add: members_ok_def) blast
qed

lemma members_erase:
  assumes "members_ok q es"
    and "\<And>i. i \<noteq> k \<Longrightarrow> leaving q i \<Longrightarrow> leaving q' i" and "\<And>i. i \<noteq> k \<Longrightarrow> closed q i \<Longrightarrow> closed q' i"
  shows "members_ok q' (map_erase es k)"
proof -
  have "member_ok q' i c'" if "i \<noteq> k" "member_ok q i c'" for i c' using that assms(2,3) by (auto simp: member_ok_def)
  moreover have "map_ok es" using assms(1) by (simp add: members_ok_def)
  ultimately show ?thesis
    using assms(1) cm.find_erase [of es k] cm.ok_erase [of es k] by (simp add: members_ok_def) blast
qed

lemma members_mono:
  assumes "members_ok q es" and "\<And>i. i \<in> keys es \<Longrightarrow> leaving q i \<Longrightarrow> leaving q' i"
    and "\<And>i. i \<in> keys es \<Longrightarrow> closed q i \<Longrightarrow> closed q' i"
  shows "members_ok q' es"
  using assms unfolding members_ok_def member_ok_def in_keys_iff by (metis option.distinct(1))

lemma members_clients_ok: "members_ok Nobody es \<longleftrightarrow> clients_ok es"
proof -
  have "map_find es i = Some c \<longleftrightarrow> (i, c) \<in> set es" if "map_ok es" for i c
    using that by (simp add: map_find_def map_ok_def strict_sorted_iff)
  then show ?thesis
    unfolding members_ok_def clients_ok_def member_ok_def entry_ok_def client_ok_def by fastforce
qed

text \<open>Sending and disconnecting keep the buffers, whatever the socket is.\<close>

lemma SendFrame_Inr:
  assumes "SendFrame tls c b = Inr (r, c')"
  shows "\<exists>s. c' = c\<lparr>tls_connection := s\<rparr>" and "fd_ok c"
proof -
  show fd: "fd_ok c" using assms by (auto simp: SendFrame_def bind_r_eq_Inr fd_set_ok_range fd_ok_def)
  from SendFrame_cases [OF fd, of tls b] assms show "\<exists>s. c' = c\<lparr>tls_connection := s\<rparr>" by auto
qed

lemma Send_keeps:
  assumes "bufs_ok c" and "length m < 2 ^ 31" and "Send tls c m = Inr (r, c')"
  shows "bufs_ok c'" and "cl_id c' = cl_id c" and "socket c' = socket c" and "client_ok c' = client_ok c"
proof -
  have "\<exists>sb s. length sb = 16001 \<and> c' = c\<lparr>send_buf := sb, tls_connection := s\<rparr>"
  proof (cases "15996 < length m")
    case True
    with Send_steps [OF assms(1,2), of tls] assms(3) obtain sb where
      "length sb = 16001" "c' = c\<lparr>send_buf := sb\<rparr>" by auto
    then show ?thesis by (intro exI [of _ sb] exI [of _ "tls_connection c"]) simp
  next
    case False
    with Send_steps [OF assms(1,2), of tls] assms(3) obtain sb where "length sb = 16001"
      "SendFrame tls (c\<lparr>send_buf := sb\<rparr>) (rfc_server_frame (frame_code WS_TEXT_FRAME) m) = Inr (r, c')" by auto
    with SendFrame_Inr(1) [OF this(2)] show ?thesis by auto
  qed
  then show "bufs_ok c'" "cl_id c' = cl_id c" "socket c' = socket c" "client_ok c' = client_ok c"
    using assms(1) by (auto simp: bufs_ok_def client_ok_def)
qed

lemma Disconnect_bufs:
  assumes "bufs_ok c" and "Disconnect tls c = Inr c'"
  shows "bufs_ok c'"
proof -
  let ?c = "c\<lparr>send_buf := 0x88 # 0 # drop 2 (send_buf c)\<rparr>"
  have d: "Disconnect tls c = bind_r (SendFrame tls ?c closing_frame) (\<lambda>(ret, c2). Inr (CloseSocket tls c2))"
    using assms(1) wsMakeFrame_closing [of "send_buf c"]
    by (simp add: Disconnect_def bufs_ok_def SEND_BUF_LEN_def mem_ok closing_frame_bytes bind_r_assoc case_prod_unfold)
  have b: "bufs_ok ?c" using assms(1) by (simp add: bufs_ok_def)
  have "bufs_ok (CloseSocket tls d) = bufs_ok d" for d
    by (simp add: CloseSocket_def bufs_ok_def Let_def split: prod.split)
  moreover obtain r c2 where s: "SendFrame tls ?c closing_frame = Inr (r, c2)" "c' = CloseSocket tls c2"
    using assms(2) unfolding d bind_r_eq_Inr by auto
  moreover have "bufs_ok c2" using SendFrame_Inr(1) [OF s(1)] b by (auto simp: bufs_ok_def)
  ultimately show ?thesis by simp
qed

section \<open>The events of a call\<close>

text \<open>A client counts as there until its requests are released.\<close>

fun present :: "hold \<Rightarrow> 's client id_map \<Rightarrow> int set" where
  "present (Serves ready (k # is) Released) es = keys es - {k}"
| "present _ es = keys es"

definition fine_board :: "('s, 'w) fine \<Rightarrow> board" where
  "fine_board s = (case s of (st, q, r) \<Rightarrow> (present q (clients (web st)), requests (logsrv st)))"

definition explained :: "actor \<Rightarrow> ('s, 'w) fine \<Rightarrow> ('s, 'w) fine \<Rightarrow> bool" where
  "explained t s s' \<longleftrightarrow> (\<exists>es. (\<forall>e \<in> set es. may t e \<and> (e = Finish \<longrightarrow> ended (fst s'))) \<and>
     happens es (fine_board s) = Some (fine_board s'))"

lemma explained_same: "fine_board s' = fine_board s \<Longrightarrow> explained t s s'"
  unfolding explained_def by (intro exI [of _ "[]"]) simp

lemma explained_event:
  "may t e \<Longrightarrow> e = Finish \<longrightarrow> ended (fst s') \<Longrightarrow> happen e (fine_board s) = Some (fine_board s') \<Longrightarrow> explained t s s'"
  unfolding explained_def by (intro exI [of _ "[e]"]) simp

lemma keys_distinct: "map_ok es \<Longrightarrow> distinct (map fst es) \<and> set (map fst es) = keys es"
  by (simp add: map_ok_def keys_def strict_sorted_iff)

lemma admit_outcome:
  assumes ok: "fine_ok (st, Nobody, r)" and "\<not> ended st" and "arrival_ok ar"
    and "accept_step tls ar (web st) = Inr (signalled, dropped, srv)"
  shows "fine_ok (st\<lparr>web := srv\<rparr>, Nobody, r) \<and> explained Accepter (st, Nobody, r) (st\<lparr>web := srv\<rparr>, Nobody, r)"
proof -
  have c: "clients_ok (clients (web st))" "0 \<le> id_counter (web st)" "id_counter (web st) \<le> INT_MAX"
    using ok by (simp_all add: fine_ok_def members_clients_ok)
  from accept_step_enters [OF c assms(3,4)] show ?thesis
  proof (elim disjE exE conjE)
    assume "srv = web st"
    with ok show ?thesis by (simp add: explained_same)
  next
    fix k c
    assume k: "get_client (web st) k = None" "id_counter (web st) \<le> k" "k \<le> INT_MAX" "entry_ok (k, c)"
      and srv: "srv = (web st)\<lparr>id_counter := k, clients := map_put (clients (web st)) k c\<rparr>"
    have "k \<notin> keys (clients (web st))" using k(1) by (simp add: get_client_def in_keys_iff)
    moreover have "reading_ok (logs (logsrv st)) (keys (clients srv)) (ended st) r"
      by (rule reading_ok_mono [of _ "keys (clients (web st))"]) (use ok in \<open>auto simp: fine_ok_def srv keys_put_new\<close>)
    ultimately show ?thesis
      using k ok srv clients_ok_put [OF c(1) k(4)] assms(2)
      by (intro conjI explained_event [where e = "Join k"])
        (simp_all add: fine_ok_def members_clients_ok hold_ok_def fine_board_def keys_put_new)
  qed
qed

lemma accept_call_outcome:
  assumes "accept_call tls arrivals s s'" and ok: "fine_ok s" and arr: "\<forall>ar \<in> arrivals. arrival_ok ar"
  shows "fine_ok s' \<and> explained Accepter s s'"
  using assms(1)
proof cases
  case (admit st ar signalled dropped srv r)
  with admit_outcome [OF _ admit(3) _ admit(5), of r] ok arr show ?thesis by simp
next
  case (shut st r)
  from ok have m: "members_ok Nobody (clients (web st))" "map_ok (clients (web st))"
    by (simp_all add: fine_ok_def members_ok_def shut(1))
  have "members_ok (Closes (map fst (clients (web st)))) (clients (web st))"
    by (rule members_mono [OF m(1)]) simp_all
  with ok shut(3) keys_distinct [OF m(2)] show ?thesis
    by (auto simp: shut(1,2) fine_ok_def hold_ok_def fine_board_def intro!: explained_same)
next
  case (shut_one st i c c1 "is" r)
  have st: "members_ok (Closes (i # is)) (clients (web st))" "i \<in> keys (clients (web st))" "\<not> ended st"
    using ok by (simp_all add: fine_ok_def hold_ok_def shut_one(1))
  then have "member_ok (Closes (i # is)) i c" using shut_one(3) by (simp add: members_ok_def)
  then have "member_ok (Closes is) i c1"
    using Disconnect_bufs [OF _ shut_one(4)] Disconnect_keeps_id [OF shut_one(4)] ok
    by (auto simp: member_ok_def fine_ok_def hold_ok_def shut_one(1))
  then have "members_ok (Closes is) (map_put (clients (web st)) i c1)"
    by (rule members_put [OF st(1)]) simp_all
  with ok st(2,3) show ?thesis
    by (simp add: shut_one(1,2) fine_ok_def hold_ok_def fine_board_def explained_same)
next
  case (clear st r)
  have "reading_ok (logs (logsrv st)) {} True r"
    using ok by (auto simp: clear(1) fine_ok_def reading_ok_def)
  moreover have "members_ok Nobody ([] :: (int \<times> 'a client) list)"
    by (simp add: members_ok_def map_ok_def map_find_def)
  ultimately show ?thesis using ok
    by (intro conjI explained_event [where e = Finish])
      (simp_all add: clear(1,2) fine_ok_def hold_ok_def fine_board_def keys_def)
qed

text \<open>The calls of the message thread.\<close>

lemma receive_outcome:
  assumes "ssl_read_ok tls" and ok: "fine_ok (st, Serves ready (i # is) To_receive, r)"
    and c: "map_find (clients (web st)) i = Some c"
    and rc: "Receive tls c (data_buf st) MSG_BUF_LEN = Inr (ret, c1, buf, len)"
  shows "fine_ok ((with_clients (map_put (clients (web st)) i c1) st)\<lparr>data_buf := buf\<rparr>, Serves ready (i # is) (Received ret len), r)"
proof -
  have m: "members_ok (Serves ready (i # is) To_receive) (clients (web st))" "i \<in> keys (clients (web st))"
    "length (data_buf st) = 2048"
    using ok by (simp_all add: fine_ok_def hold_ok_def)
  with c have mc: "cl_id c = i" "0 \<le> i" "client_ok c" "fd_ok c" by (auto simp: members_ok_def member_ok_def)
  note k = Receive_continues [OF assms(1) mc(3,4) m(3) rc [unfolded MSG_BUF_LEN_def]]
  then have "member_ok (Serves ready (i # is) (Received ret len)) i c1"
    using mc by (auto simp: member_ok_def same_conn_def fd_ok_def)
  then have "members_ok (Serves ready (i # is) (Received ret len)) (map_put (clients (web st)) i c1)"
    by (rule members_put [OF m(1)]) simp_all
  with ok m(2) k show ?thesis by (auto simp: fine_ok_def hold_ok_def serve_point_ok_def)
qed

lemma serve_on_ok:
  assumes "hold_ok buf own I e (Serves ready (i # is) pt)"
  shows "hold_ok buf own' I e (serve_on ready ret i is)"
  using assms by (auto simp: hold_ok_def serve_on_def serve_point_ok_def)

lemma serve_on_fields [simp]:
  "leaving (serve_on ready ret i is) j = False" "closed (serve_on ready ret i is) j = False"
  "present (serve_on ready ret i is) es = keys es"
  by (simp_all add: serve_on_def)

lemma members_serve_on:
  "members_ok (Serves ready (i # is) (Received ret len)) es \<Longrightarrow> 0 \<le> ret \<Longrightarrow> members_ok (serve_on ready ret i is) es"
  by (erule members_mono) auto

lemma handle_outcome:
  assumes ok: "fine_ok (st, Serves ready (i # is) (Received ret len), r)"
    and ret: "ret = READ_SUCCEED \<or> ret = READ_SUCCEED_DATA_AVAILABLE"
    and c: "map_find (clients (web st)) i = Some c"
    and h: "OnMessage api fresh (logsrv st) c (data_buf st) len = Inr (a, c1)"
    and r: "r = None \<or> logs a = logs (logsrv st)"
    and s': "s' = ((with_clients (map_put (clients (web st)) i c1) st)\<lparr>logsrv := a\<rparr>, serve_on ready ret i is, r)"
  shows "fine_ok s' \<and> explained Listener (st, Serves ready (i # is) (Received ret len), r) s'"
proof -
  have m: "members_ok (Serves ready (i # is) (Received ret len)) (clients (web st))" "i \<in> keys (clients (web st))"
    "hold_ok (data_buf st) (owned (logsrv st)) (keys (clients (web st))) (ended st) (Serves ready (i # is) (Received ret len))"
    "reading_ok (logs (logsrv st)) (keys (clients (web st))) (ended st) r"
    using ok by (simp_all add: fine_ok_def hold_ok_def)
  have ret0: "0 \<le> ret" using ret by (auto simp: return_codes)
  have c1: "c1 = c" and d: "do_request api (logsrv st) (cl_id c) (cstr (data_buf st)) = Inr a"
    using h by (auto simp: OnMessage_request bind_r_eq_Inr)
  from members_serve_on [OF m(1) ret0] have q: "members_ok (serve_on ready ret i is) (clients (web st))" .
  then have cid: "cl_id c = i" "member_ok (serve_on ready ret i is) i c" using c by (auto simp: members_ok_def member_ok_def)
  have "members_ok (serve_on ready ret i is) (map_put (clients (web st)) i c)"
    by (rule members_put [OF q cid(2)]) simp_all
  moreover have "reading_ok (logs a) (keys (clients (web st))) (ended st) r"
    using r m(4) by (auto simp: reading_ok_def)
  moreover note serve_on_ok [OF m(3), of "owned a" ret]
  moreover have "\<not> ended st" using ok m(2) by (auto simp: fine_ok_def)
  ultimately have "fine_ok s'" using ok m(2) by (simp add: fine_ok_def s' c1)
  moreover obtain es where "\<forall>e \<in> set es. may Listener e"
    "happens es (keys (clients (web st)), requests (logsrv st)) = Some (keys (clients (web st)), requests a)"
    using do_request_happens [OF d] m(2) cid(1) by blast
  then have "explained Listener (st, Serves ready (i # is) (Received ret len), r) s'"
    unfolding explained_def using m(2) by (intro exI [of _ es]) (auto simp: fine_board_def s' c1)
  ultimately show ?thesis by blast
qed

lemma hang_up_outcome:
  assumes ok: "fine_ok (st, Serves ready (i # is) (Received ret len), r)"
    and c: "map_find (clients (web st)) i = Some c" "Disconnect tls c = Inr c1"
  shows "fine_ok (with_clients (map_put (clients (web st)) i c1) st, Serves ready (i # is) Disconnected, r)"
proof -
  have m: "members_ok (Serves ready (i # is) (Received ret len)) (clients (web st))" "i \<in> keys (clients (web st))"
    using ok by (simp_all add: fine_ok_def hold_ok_def)
  with c(1) have "cl_id c = i" "0 \<le> i" "bufs_ok c" by (auto simp: members_ok_def member_ok_def)
  then have "member_ok (Serves ready (i # is) Disconnected) i c1"
    using Disconnect_bufs [OF _ c(2)] Disconnect_keeps_id [OF c(2)] by (simp add: member_ok_def)
  then have "members_ok (Serves ready (i # is) Disconnected) (map_put (clients (web st)) i c1)"
    by (rule members_put [OF m(1)]) simp_all
  moreover have "\<not> ended st" using ok m(2) by (auto simp: fine_ok_def)
  ultimately show ?thesis using ok m(2) by (simp add: fine_ok_def hold_ok_def serve_point_ok_def)
qed

lemma release_outcome:
  assumes ok: "fine_ok (st, Serves ready (i # is) Disconnected, None)"
    and c: "map_find (clients (web st)) i = Some c" "OnDisconnect api (logsrv st) c = Inr (a, c1)"
    and s': "s' = ((with_clients (map_put (clients (web st)) i c1) st)\<lparr>logsrv := a\<rparr>, Serves ready (i # is) Released, None)"
  shows "fine_ok s' \<and> explained Listener (st, Serves ready (i # is) Disconnected, None) s'"
proof -
  have m: "members_ok (Serves ready (i # is) Disconnected) (clients (web st))" "i \<in> keys (clients (web st))"
    using ok by (simp_all add: fine_ok_def hold_ok_def)
  with c(1) have mc: "member_ok (Serves ready (i # is) Disconnected) i c" by (auto simp: members_ok_def)
  then have d: "c1 = c" "DeleteRequestsFromClient api i (logsrv st) = Inr a"
    using c(2) by (auto simp: OnDisconnect_def bind_r_eq_Inr get_id_def member_ok_def)
  note l = release_requests [OF d(2)]
  have "members_ok (Serves ready (i # is) Released) (map_put (clients (web st)) i c)"
    by (rule members_put [OF m(1)]) (use mc in \<open>simp_all add: member_ok_def\<close>)
  moreover have "\<not> ended st" using ok m(2) by (auto simp: fine_ok_def)
  moreover have "i \<notin> owned a" by (auto simp: owned_def l)
  ultimately have "fine_ok s'"
    using ok m(2) by (simp add: fine_ok_def hold_ok_def serve_point_ok_def reading_ok_def s' d(1))
  moreover have "requests a = filter (\<lambda>q. fst q \<noteq> i) (requests (logsrv st))"
    using l by (simp add: requests_def request_def filter_map comp_def)
  then have "explained Listener (st, Serves ready (i # is) Disconnected, None) s'"
    using m(2) by (intro explained_event [where e = "Leave i"]) (simp_all add: fine_board_def s' d(1))
  ultimately show ?thesis by blast
qed

lemma erase_outcome:
  assumes ok: "fine_ok (st, Serves ready (i # is) Released, r)"
  shows "fine_ok (with_clients (map_erase (clients (web st)) i) st, Serves ready is At_client, r)"
proof -
  have m: "members_ok (Serves ready (i # is) Released) (clients (web st))" "i \<in> keys (clients (web st))"
    "distinct (i # is)" "set (i # is) \<subseteq> keys (clients (web st))" "i \<notin> owned (logsrv st)"
    "reading_ok (logs (logsrv st)) (keys (clients (web st))) (ended st) r"
    using ok by (simp_all add: fine_ok_def hold_ok_def serve_point_ok_def)
  have "members_ok (Serves ready is At_client) (map_erase (clients (web st)) i)"
    by (rule members_erase [OF m(1)]) simp_all
  moreover have "reading_ok (logs (logsrv st)) (keys (clients (web st)) - {i}) (ended st) r"
    using m(5,6) by (auto simp: reading_ok_def owned_def)
  moreover have "set is \<subseteq> keys (clients (web st)) - {i}" using m(3,4) by auto
  ultimately show ?thesis using ok m(2,3) by (simp add: fine_ok_def hold_ok_def serve_point_ok_def)
qed

lemma message_call_outcome:
  assumes "message_call tls api s s'" and ok: "fine_ok s" and api: "ssl_read_ok tls"
  shows "fine_ok s' \<and> explained Listener s s'"
  using assms(1)
proof cases
  case (fill_all st nfds r)
  with ok show ?thesis by (simp add: fine_ok_def fine_board_def explained_same)
next
  case (begin_pass st r ready)
  with ok have m: "members_ok Nobody (clients (web st))" "map_ok (clients (web st))"
    by (simp_all add: fine_ok_def members_ok_def)
  have "members_ok (Serves ready (map fst (clients (web st))) At_client) (clients (web st))"
    by (rule members_mono [OF m(1)]) simp_all
  with ok keys_distinct [OF m(2)] show ?thesis
    by (auto simp: begin_pass(1,2) fine_ok_def hold_ok_def serve_point_ok_def fine_board_def intro!: explained_same)
next
  case (not_ready st i c u ready "is" r)
  have "members_ok (Serves ready (i # is) At_client) (clients (web st))" using ok by (simp add: not_ready(1) fine_ok_def)
  then have "members_ok (Serves ready is At_client) (clients (web st))" by (rule members_mono) simp_all
  with ok show ?thesis
    by (simp add: not_ready(1,2) fine_ok_def hold_ok_def serve_point_ok_def fine_board_def explained_same)
next
  case (is_ready st i c u ready "is" r)
  have "members_ok (Serves ready (i # is) At_client) (clients (web st))" using ok by (simp add: is_ready(1) fine_ok_def)
  then have "members_ok (Serves ready (i # is) To_receive) (clients (web st))" by (rule members_mono) simp_all
  with ok show ?thesis
    by (simp add: is_ready(1,2) fine_ok_def hold_ok_def serve_point_ok_def fine_board_def explained_same)
next
  case (receive st i c ret c1 buf len ready "is" r)
  from ok have "i \<in> keys (clients (web st))" by (simp add: receive(1) fine_ok_def hold_ok_def)
  with receive_outcome [OF api ok [unfolded receive(1)] receive(3,4)] show ?thesis
    by (simp add: receive(1,2) fine_board_def explained_same)
next
  case (handle ret st i c fresh len a c1 r ready "is")
  from handle_outcome [OF ok [unfolded handle(1)] handle(3-6) handle(2)] show ?thesis by (simp add: handle(1))
next
  case (wait_more ret st ready i "is" len r)
  have "members_ok (Serves ready (i # is) (Received ret len)) (clients (web st))"
    using ok by (simp add: wait_more(1) fine_ok_def)
  from members_serve_on [OF this wait_more(3)] have "members_ok (serve_on ready ret i is) (clients (web st))" .
  with ok serve_on_ok [of "data_buf st" "owned (logsrv st)" "keys (clients (web st))" "ended st" ready i "is"
      "Received ret len" "owned (logsrv st)" ret]
  show ?thesis by (simp add: wait_more(1,2) fine_ok_def fine_board_def explained_same)
next
  case (hang_up ret st i c c1 ready "is" len r)
  from ok have "i \<in> keys (clients (web st))" by (simp add: hang_up(1) fine_ok_def hold_ok_def)
  with hang_up_outcome [OF ok [unfolded hang_up(1)] hang_up(4,5)] show ?thesis
    by (simp add: hang_up(1,2) fine_board_def explained_same)
next
  case (release st i c a c1 ready "is")
  from release_outcome [OF ok [unfolded release(1)] release(3,4) release(2)] show ?thesis by (simp add: release(1))
next
  case (erase st ready i "is" r)
  from erase_outcome [OF ok [unfolded erase(1)]] show ?thesis
    by (simp add: erase(1,2) fine_board_def explained_same)
next
  case (end_pass st ready r)
  have "members_ok (Serves ready [] At_client) (clients (web st))" using ok by (simp add: end_pass(1) fine_ok_def)
  then have "members_ok Nobody (clients (web st))" by (rule members_mono) simp_all
  with ok show ?thesis by (simp add: end_pass(1,2) fine_ok_def hold_ok_def fine_board_def explained_same)
qed

text \<open>The calls of the log thread.\<close>

lemma explained_lose:
  assumes "subseq (requests (logsrv st')) (requests (logsrv st))" and "keys (clients (web st')) = keys (clients (web st))"
  shows "explained Reader (st, q, r) (st', q, r')"
proof -
  have "present q (clients (web st')) = present q (clients (web st))"
    using assms(2) by (cases "(q, clients (web st))" rule: present.cases) auto
  with assms(1) show ?thesis
    by (intro explained_event [where e = "Lose (requests (logsrv st'))"]) (simp_all add: fine_board_def)
qed

text \<open>Nothing but the list, its buffer and the clients' connections is changed, and nobody gets a log.\<close>

lemma hold_ok_owned: "hold_ok buf own I e q \<Longrightarrow> own' \<subseteq> own \<Longrightarrow> hold_ok buf own' I e q"
  by (auto simp: hold_ok_def serve_point_ok_def split: hold.split)

lemma log_kept:
  assumes ok: "fine_ok (st, q, r)"
    and st': "members_ok q (clients (web st'))" "keys (clients (web st')) = keys (clients (web st))"
      "id_counter (web st') = id_counter (web st)" "data_buf st' = data_buf st" "length (line_buf st') = 2048"
      "ended st' = ended st"
    and r': "reading_ok (logs (logsrv st')) (keys (clients (web st))) (ended st) r'"
    and sub: "subseq (requests (logsrv st')) (requests (logsrv st))"
  shows "fine_ok (st', q, r') \<and> explained Reader (st, q, r) (st', q, r')"
proof -
  have "owned (logsrv st') \<subseteq> owned (logsrv st)"
    using set_subseq [OF sub] by (auto simp: owned_requests)
  moreover have "hold_ok (data_buf st) (owned (logsrv st)) (keys (clients (web st))) (ended st) q"
    using ok by (simp add: fine_ok_def)
  ultimately have "hold_ok (data_buf st) (owned (logsrv st')) (keys (clients (web st))) (ended st) q"
    by (rule hold_ok_owned [rotated])
  with ok st' r' explained_lose [OF sub st'(2)] show ?thesis by (simp add: fine_ok_def)
qed

lemma requests_without: "subseq (map request (without k ds)) (map request ds)"
proof -
  have "subseq (take k ds @ drop (Suc k) ds) (take k ds @ drop k ds)"
    by (metis Cons_nth_drop_Suc drop_all list_emb_append_mono nat_le_linear not_less
        subseq_Cons' subseq_order.order_refl drop_eq_Nil list_emb_Nil le_SucI)
  then show ?thesis by (metis append_take_drop_id subseq_map without_def)
qed

lemma log_call_outcome:
  assumes "log_call tls api s s'" and ok: "fine_ok s"
  shows "fine_ok s' \<and> explained Reader s s'"
  using assms(1)
proof cases
  case (watch_all st nfds q)
  with log_kept [OF ok [unfolded watch_all(1)], of "st\<lparr>watched := Some (log_fd ` set (logs (logsrv st)))\<rparr>" None] ok
  show ?thesis by (simp add: fine_ok_def)
next
  case (no_event st fds sel q)
  with log_kept [OF ok [unfolded no_event(1)], of "st\<lparr>watched := None\<rparr>" None] ok show ?thesis by (simp add: fine_ok_def)
next
  case (begin_logs st fds sel q)
  with log_kept [OF ok [unfolded begin_logs(1)], of st] ok show ?thesis by (simp add: fine_ok_def reading_ok_def)
next
  case (no_line k st d u rd q ex)
  with log_kept [OF ok [unfolded no_line(1)], of st] ok show ?thesis by (simp add: fine_ok_def reading_ok_def)
next
  case (orphan k st d u rd d1 w q ex)
  have "reading_ok (without k (logs (logsrv st))) (keys (clients (web st))) (ended st) (Some (rd, ex, k, Look))"
    using orphan(3) by (simp add: reading_ok_def without_def)
  with log_kept [OF ok [unfolded orphan(1)], of "with_logs (without k (logs (logsrv st))) w st"] ok requests_without orphan(1,2)
  show ?thesis by (simp add: fine_ok_def requests_def)
next
  case (find_client k st d u rd c q ex)
  then have "log_client_id d \<in> keys (clients (web st))" by (simp add: in_keys_iff)
  with log_kept [OF ok [unfolded find_client(1)], of st] ok find_client show ?thesis by (simp add: fine_ok_def reading_ok_def)
next
  case (get_line k st d ret d1 buf w q rd ex i)
  then have o: "log_client_id d = i" "\<not> ended st \<longrightarrow> i \<in> keys (clients (web st))" "length (line_buf st) = 2048"
    using ok by (simp_all add: fine_ok_def reading_ok_def)
  from GetNextLine_request [OF get_line(5)] have d1: "request d1 = request d" "length buf = 2048"
    using o(3) by simp_all
  with o get_line(3) have "reading_ok ((logs (logsrv st))[k := d1]) (keys (clients (web st))) (ended st)
      (Some (rd, ex, k, if ret = 0 then Line i else Check))"
    by (simp add: reading_ok_def request_def)
  moreover have "map request ((logs (logsrv st))[k := d1]) = map request (logs (logsrv st))"
    using d1(1) get_line(3,4) list_update_id [of "map request (logs (logsrv st))" k] by (simp add: map_update)
  ultimately show ?thesis
    using log_kept [OF ok [unfolded get_line(1)], of "(with_logs ((logs (logsrv st))[k := d1]) w st)\<lparr>line_buf := buf\<rparr>"
        "Some (rd, ex, k, if ret = 0 then Line i else Check)"] ok get_line(1,2) d1(2)
    by (simp add: fine_ok_def requests_def)
next
  case (send_line st i c ret c1 q rd ex k)
  have m: "members_ok q (clients (web st))" "i \<in> keys (clients (web st))" "length (line_buf st) = 2048"
    using ok send_line(3) by (simp_all add: send_line(1) fine_ok_def in_keys_iff)
  then have mc: "member_ok q i c" using send_line(3) by (simp add: members_ok_def)
  have "length (cstr (line_buf st)) < 2 ^ 31" using length_cstr [of "line_buf st"] m(3) by simp
  from Send_keeps [OF _ this send_line(4)] mc have "member_ok q i c1" by (auto simp: member_ok_def fd_ok_def)
  then have "members_ok q (map_put (clients (web st)) i c1)" by (rule members_put [OF m(1)]) simp_all
  moreover have "\<not> ended st" using ok m(2) by (auto simp: send_line(1) fine_ok_def)
  ultimately show ?thesis
    using log_kept [OF ok [unfolded send_line(1)], of "with_clients (map_put (clients (web st)) i c1) st" "Some (rd, ex, k, Check)"]
      ok m(2) send_line(1,2)
    by (simp add: fine_ok_def reading_ok_def)
next
  case (keep_log k st d ex d1 w q rd)
  then have "d1 = d" by (auto simp: check_except_def bind_r_eq_Inr split: if_splits)
  with keep_log have "(logs (logsrv st))[k := d1] = logs (logsrv st)" by simp
  with log_kept [OF ok [unfolded keep_log(1)], of "with_logs ((logs (logsrv st))[k := d1]) w st" "Some (rd, ex, Suc k, Look)"]
    ok keep_log(1-3)
  show ?thesis by (simp add: fine_ok_def reading_ok_def requests_def)
next
  case (drop_log k st d ex w q rd)
  have "reading_ok (without k (logs (logsrv st))) (keys (clients (web st))) (ended st) (Some (rd, ex, k, Look))"
    using drop_log(3) by (simp add: reading_ok_def without_def)
  with log_kept [OF ok [unfolded drop_log(1)], of "with_logs (without k (logs (logsrv st))) w st"] ok requests_without drop_log(1,2)
  show ?thesis by (simp add: fine_ok_def requests_def)
next
  case (end_logs st q rd ex)
  with log_kept [OF ok [unfolded end_logs(1)], of "st\<lparr>watched := None\<rparr>" None] ok
  show ?thesis by (simp add: fine_ok_def reading_ok_def)
qed

section \<open>Runs\<close>

lemma call_step_outcome:
  assumes "call_step tls api arrivals s t s'" and ok: "fine_ok s"
    and "ssl_read_ok tls" and "\<forall>ar \<in> arrivals. arrival_ok ar"
  shows "fine_ok s' \<and> explained t s s'"
  using assms(1)
proof cases
  case accepting
  with accept_call_outcome ok assms(4) show ?thesis by blast
next
  case listening
  with message_call_outcome ok assms(3) show ?thesis by blast
next
  case logging
  with log_call_outcome ok show ?thesis by blast
next
  case (stopping st q r)
  with ok show ?thesis by (simp add: fine_ok_def Stop_def fine_board_def explained_same)
next
  case (moving st q r w)
  with ok show ?thesis by (simp add: fine_ok_def owned_def requests_def fine_board_def explained_same)
qed

lemma call_step_ended: "call_step tls api arrivals s t s' \<Longrightarrow> ended (fst s) \<Longrightarrow> ended (fst s')"
  by (erule call_step.cases) (auto elim!: accept_call.cases message_call.cases log_call.cases)

text \<open>What the program starts with, before any call.\<close>

definition starts_fine :: "('s, 'w) fine \<Rightarrow> bool" where
  "starts_fine s \<longleftrightarrow> (case s of (st, q, r) \<Rightarrow> starts st \<and> q = Nobody \<and> r = None)"

lemma starts_fine_ok:
  assumes "starts_fine s"
  shows "fine_ok s" and "fine_board s = ({}, [])" and "\<not> ended (fst s)"
proof -
  obtain st where s: "s = (st, Nobody, None)" "starts st" using assms by (auto simp: starts_fine_def)
  note st = starts_ok [OF s(2)]
  from st(1,2) show "fine_ok s"
    by (simp add: s(1) fine_ok_def store_ok_def members_clients_ok hold_ok_def reading_ok_def keys_def)
  show "fine_board s = ({}, [])" using st(2,3) by (simp add: s(1) fine_board_def keys_def requests_def)
  show "\<not> ended (fst s)" using st(4) by (simp add: s(1))
qed

lemma call_run_history:
  assumes "call_run tls api arrivals s0 s" and "starts_fine s0"
    and "ssl_read_ok tls" and "\<forall>ar \<in> arrivals. arrival_ok ar"
  shows "fine_ok s \<and> (\<exists>es. happens es ({}, []) = Some (fine_board s) \<and> (\<not> ended (fst s) \<longrightarrow> Finish \<notin> set es))"
  using assms(1,2)
proof (induction rule: call_run.induct)
  case (none s)
  with starts_fine_ok [OF none] show ?case by (intro conjI exI [of _ "[]"]) simp_all
next
  case (more s0 s1 t s)
  then obtain es where es: "fine_ok s1" "happens es ({}, []) = Some (fine_board s1)"
    "\<not> ended (fst s1) \<longrightarrow> Finish \<notin> set es" by blast
  from call_step_outcome [OF more.hyps(2) es(1) assms(3,4)] obtain fs where
    fs: "fine_ok s" "\<forall>e \<in> set fs. e = Finish \<longrightarrow> ended (fst s)" "happens fs (fine_board s1) = Some (fine_board s)"
    by (auto simp: explained_def)
  have "happens (es @ fs) ({}, []) = Some (fine_board s)" by (rule happens_appendI [OF es(2) fs(3)])
  with es(3) fs call_step_ended [OF more.hyps(2)] show ?case by (intro conjI exI [of _ "es @ fs"]) auto
qed

lemma present_keys: "present q es \<subseteq> keys es"
  by (cases "(q, es)" rule: present.cases) auto

text \<open>Every request has its owner in the map until the shutdown, and a name that was checked.\<close>

lemma call_run_requests:
  assumes "call_run tls api arrivals s0 (st, q, r)" and "starts_fine s0"
    and "ssl_read_ok tls" and "\<forall>ar \<in> arrivals. arrival_ok ar" and "(i, n) \<in> set (requests (logsrv st))"
  shows "\<not> sublist [46, 46] n" and "\<not> ended st \<Longrightarrow> i \<in> present q (clients (web st))"
proof -
  from call_run_history [OF assms(1-4)] obtain es where
    es: "happens es ({}, []) = Some (present q (clients (web st)), requests (logsrv st))"
    "\<not> ended st \<longrightarrow> Finish \<notin> set es" by (auto simp: fine_board_def)
  from happens_request [OF es(1) assms(5)] show "\<not> sublist [46, 46] n" by blast
  show "i \<in> present q (clients (web st))" if "\<not> ended st"
    using happens_owners [OF es(1)] es(2) that assms(5) by force
qed

end
