(* ===== verification/Interleaving_Wire.thy ===== *)
theory Interleaving_Wire
  imports Interleaving_Laws
begin

text \<open>
  Everything a client has ever been sent, in every state between two calls: the invariant of
  theory System_Wire once more, for all clients that are not being dropped.
\<close>

section \<open>The bytes sent to a client\<close>

definition fine_wires :: "'w os_api \<Rightarrow> ('s \<Rightarrow> byte list) \<Rightarrow> ('s, 'w) fine \<Rightarrow> bool" where
  "fine_wires api sent s \<longleftrightarrow> (case s of (st, q, r) \<Rightarrow>
     (\<forall>i c. map_find (clients (web st)) i = Some c \<longrightarrow> \<not> leaving q i \<longrightarrow>
        wire_ok api sent i c \<and> (i \<in> owned (logsrv st) \<longrightarrow> handshaked c)) \<and>
     (\<forall>ready i is ret len c. q = Serves ready (i # is) (Received ret len) \<longrightarrow>
        ret \<in> {READ_SUCCEED, READ_SUCCEED_DATA_AVAILABLE} \<longrightarrow>
        map_find (clients (web st)) i = Some c \<longrightarrow> handshaked c) \<and>
     (\<forall>rd ex k i. r = Some (rd, ex, k, Line i) \<longrightarrow> lines_for api i [cstr (line_buf st)]))"

text \<open>What holds of the requests in every reachable state.\<close>

definition requests_ok :: "('s, 'w) system \<Rightarrow> bool" where
  "requests_ok st \<longleftrightarrow> (\<forall>d \<in> set (logs (logsrv st)). \<not> sublist [46, 46] (log_name d)) \<and>
     (\<not> ended st \<longrightarrow> owned (logsrv st) \<subseteq> keys (clients (web st)))"

lemma fine_wires_same:
  assumes "fine_wires api sent (st, q, r)" and "clients (web st') = clients (web st)" and "owned (logsrv st') \<subseteq> owned (logsrv st)"
    and "\<And>i. i \<in> keys (clients (web st)) \<Longrightarrow> leaving q i \<Longrightarrow> leaving q' i"
    and "\<And>ready i is ret len. q' = Serves ready (i # is) (Received ret len) \<Longrightarrow> q' = q"
    and "\<And>rd ex k i. r' = Some (rd, ex, k, Line i) \<Longrightarrow> lines_for api i [cstr (line_buf st')]"
  shows "fine_wires api sent (st', q', r')"
  using assms unfolding fine_wires_def in_keys_iff by (simp only: prod.case) blast

lemma fine_wires_line:
  "fine_wires api sent (st, q, Some (rd, ex, k, Line i)) \<Longrightarrow> lines_for api i [cstr (line_buf st)]"
  by (simp add: fine_wires_def)

lemma fine_wires_client:
  assumes "fine_wires api sent (st, q, r)" and "map_find (clients (web st)) i = Some c" and "\<not> leaving q i"
  shows "wire_ok api sent i c" and "i \<in> owned (logsrv st) \<Longrightarrow> handshaked c"
  using assms unfolding fine_wires_def by simp_all

text \<open>One client changes, and the program points of the two threads.\<close>

lemma fine_wires_put:
  assumes w: "fine_wires api sent (st, q, r)" and m: "map_ok (clients (web st))"
    and es: "clients (web st') = map_put (clients (web st)) i c1"
    and own: "owned (logsrv st') \<subseteq> insert i (owned (logsrv st))"
    and q': "\<And>j. j \<noteq> i \<Longrightarrow> j \<in> keys (clients (web st)) \<Longrightarrow> leaving q j \<Longrightarrow> leaving q' j"
    and new: "\<not> leaving q' i \<Longrightarrow> wire_ok api sent i c1 \<and> (i \<in> owned (logsrv st') \<longrightarrow> handshaked c1)"
    and rc: "\<And>ready j is ret len. q' = Serves ready (j # is) (Received ret len) \<Longrightarrow>
      ret \<in> {READ_SUCCEED, READ_SUCCEED_DATA_AVAILABLE} \<Longrightarrow>
      if j = i then handshaked c1 else q' = q"
    and r': "\<And>rd ex k j. r' = Some (rd, ex, k, Line j) \<Longrightarrow> lines_for api j [cstr (line_buf st')]"
  shows "fine_wires api sent (st', q', r')"
proof -
  have f: "map_find (clients (web st')) = (map_find (clients (web st)))(i \<mapsto> c1)"
    using es map_find_put [OF m] by simp
  have "wire_ok api sent j c \<and> (j \<in> owned (logsrv st') \<longrightarrow> handshaked c)"
    if "map_find (clients (web st')) j = Some c" "\<not> leaving q' j" for j c
  proof (cases "j = i")
    case True
    with that f new show ?thesis by simp
  next
    case False
    then have "map_find (clients (web st)) j = Some c" using that(1) f by simp
    moreover from this have "\<not> leaving q j" using q' [OF False] that(2) by (auto simp: in_keys_iff)
    ultimately show ?thesis using fine_wires_client [OF w] own False by blast
  qed
  moreover have "handshaked c"
    if "q' = Serves ready (j # is) (Received ret len)" "ret \<in> {READ_SUCCEED, READ_SUCCEED_DATA_AVAILABLE}"
      "map_find (clients (web st')) j = Some c" for ready j "is" ret len c
  proof (cases "j = i")
    case True
    with rc [OF that(1,2)] that(3) f show ?thesis by simp
  next
    case False
    with rc [OF that(1,2)] that f w show ?thesis by (auto simp: fine_wires_def)
  qed
  ultimately show ?thesis using r' unfolding fine_wires_def by (simp only: prod.case) blast
qed

section \<open>The calls\<close>

lemma accept_call_wires:
  assumes "accept_call tls arrivals s s'" and w: "fine_wires api sent s" and ok: "fine_ok s" "requests_ok (fst s)"
    and arr: "\<forall>ar \<in> arrivals. arrival_ok ar" "fresh_wires sent arrivals"
  shows "fine_wires api sent s'"
  using assms(1)
proof cases
  case (admit st ar signalled dropped srv r)
  have c: "clients_ok (clients (web st))" "0 \<le> id_counter (web st)" "id_counter (web st) \<le> INT_MAX"
    using ok by (simp_all add: fine_ok_def admit(1) members_clients_ok)
  have ar: "arrival_ok ar" using arr(1) admit(4) by blast
  have lines: "lines_for api i [cstr (line_buf st)]" if "r = Some (rd, ex, k, Line i)" for rd ex k i
    using w that by (simp add: admit(1) fine_wires_def)
  from accept_step_enters [OF c ar admit(5)] show ?thesis
  proof (elim disjE exE conjE)
    assume "srv = web st"
    with w show ?thesis by (simp add: admit(1,2))
  next
    fix k c c0
    assume k: "get_client (web st) k = None" "\<not> handshaked c" "accepted ar = (0, c0)"
      "tls_connection c = tls_connection c0"
      and srv: "srv = (web st)\<lparr>id_counter := k, clients := map_put (clients (web st)) k c\<rparr>"
    have "wire_ok api sent k c"
      using k(2-4) arr(2) admit(4) unfolding wire_ok_def fresh_wires_def by auto
    moreover have "k \<notin> owned (logsrv st)"
      using k(1) ok(2) admit(1,3) by (auto simp: requests_ok_def get_client_def in_keys_iff)
    moreover have "map_ok (clients (web st))" using c(1) by (simp add: clients_ok_def)
    ultimately show ?thesis unfolding admit(2)
      by (intro fine_wires_put [OF w [unfolded admit(1)], of _ k c]) (simp_all add: srv lines subset_insertI)
  qed
next
  case (shut st r)
  have "fine_wires api sent (st, Closes (map fst (clients (web st))), r)"
    by (rule fine_wires_same [OF w [unfolded shut(1)]])
      (use fine_wires_line w in \<open>auto simp: shut(1) keys_def\<close>)
  then show ?thesis by (simp add: shut(2))
next
  case (shut_one st i c c1 "is" r)
  have m: "map_ok (clients (web st))" "i \<notin> set is"
    using ok by (simp_all add: fine_ok_def hold_ok_def shut_one(1) members_ok_def)
  show ?thesis unfolding shut_one(2)
    by (rule fine_wires_put [OF w [unfolded shut_one(1)] m(1), of _ i c1])
      (use m(2) fine_wires_line w in \<open>auto simp: shut_one(1)\<close>)
next
  case (clear st r)
  with w show ?thesis by (auto simp: fine_wires_def map_find_def)
qed

lemma receive_wires:
  assumes api: "ssl_read_ok tls" "ssl_write_ok tls sent"
    and w: "fine_wires api sent (st, Serves ready (i # is) To_receive, r)" and ok: "fine_ok (st, Serves ready (i # is) To_receive, r)"
    and c: "map_find (clients (web st)) i = Some c" and rc: "Receive tls c (data_buf st) MSG_BUF_LEN = Inr (ret, c1, buf, len)"
  shows "fine_wires api sent
    ((with_clients (map_put (clients (web st)) i c1) st)\<lparr>data_buf := buf\<rparr>, Serves ready (i # is) (Received ret len), r)"
proof -
  have m: "members_ok (Serves ready (i # is) To_receive) (clients (web st))" using ok by (simp add: fine_ok_def)
  then have mc: "client_ok c" "fd_ok c" "map_ok (clients (web st))" using c by (auto simp: members_ok_def member_ok_def)
  note cw = fine_wires_client [OF w c]
  have t: "talks sent c c1" if "0 \<le> ret"
    using Receive_talks(1) [OF api mc(1,2) rc [unfolded MSG_BUF_LEN_def] that] .
  have hs: "handshaked c1" if "ret \<in> {READ_SUCCEED, READ_SUCCEED_DATA_AVAILABLE}"
    using Receive_talks(2) [OF api mc(1,2) rc [unfolded MSG_BUF_LEN_def]] that by (auto simp: return_codes)
  have new: "wire_ok api sent i c1 \<and> (i \<in> owned (logsrv st) \<longrightarrow> handshaked c1)" if "0 \<le> ret"
    using cw wire_ok_talks [OF _ t [OF that]] talks_handshaked [OF t [OF that]] by simp
  show ?thesis
    by (rule fine_wires_put [OF w mc(3), of _ i c1])
      (use new hs fine_wires_line w in \<open>auto simp: fine_wires_def not_less split: if_splits\<close>)
qed

lemma handle_wires:
  assumes w: "fine_wires api' sent (st, Serves ready (i # is) (Received ret len), r)"
    and ok: "fine_ok (st, Serves ready (i # is) (Received ret len), r)"
    and ret: "ret = READ_SUCCEED \<or> ret = READ_SUCCEED_DATA_AVAILABLE"
    and c: "map_find (clients (web st)) i = Some c"
    and h: "OnMessage api fresh (logsrv st) c (data_buf st) len = Inr (a, c1)"
  shows "fine_wires api' sent
    ((with_clients (map_put (clients (web st)) i c1) st)\<lparr>logsrv := a\<rparr>, serve_on ready ret i is, r)"
proof -
  have m: "members_ok (Serves ready (i # is) (Received ret len)) (clients (web st))" using ok by (simp add: fine_ok_def)
  then have mc: "cl_id c = i" "map_ok (clients (web st))" using c by (auto simp: members_ok_def member_ok_def)
  have c1: "c1 = c" and d: "do_request api (logsrv st) (cl_id c) (cstr (data_buf st)) = Inr a"
    using h by (auto simp: OnMessage_request bind_r_eq_Inr)
  have "handshaked c" using w ret c by (auto simp: fine_wires_def)
  moreover have "wire_ok api' sent i c" using fine_wires_client(1) [OF w c] ret by (auto simp: return_codes)
  moreover have "owned a \<subseteq> insert i (owned (logsrv st))" using do_request_owned(1) [OF d] mc(1) by simp
  ultimately show ?thesis
    by (intro fine_wires_put [OF w mc(2), of _ i c1])
      (use fine_wires_line w in \<open>auto simp: c1 serve_on_def split: if_splits\<close>)
qed

lemma message_call_wires:
  assumes api: "ssl_read_ok tls" "ssl_write_ok tls sent"
    and "message_call tls api s s'" and w: "fine_wires api sent s" and ok: "fine_ok s"
  shows "fine_wires api sent s'"
  using assms(3)
proof cases
  case (fill_all st nfds r)
  with w show ?thesis by (simp add: fine_wires_def)
next
  case (begin_pass st r ready)
  with w show ?thesis by (simp add: fine_wires_def)
next
  case (not_ready st i c u ready "is" r)
  with w show ?thesis by (simp add: fine_wires_def)
next
  case (is_ready st i c u ready "is" r)
  with w show ?thesis by (simp add: fine_wires_def)
next
  case (receive st i c ret c1 buf len ready "is" r)
  from receive_wires [OF api w [unfolded receive(1)] ok [unfolded receive(1)] receive(3,4)] show ?thesis by (simp add: receive(2))
next
  case (handle ret st i c fresh len a c1 r ready "is")
  from handle_wires [OF w [unfolded handle(1)] ok [unfolded handle(1)] handle(3-5)] show ?thesis by (simp add: handle(2))
next
  case (wait_more ret st ready i "is" len r)
  show ?thesis unfolding wait_more(2)
    by (rule fine_wires_same [OF w [unfolded wait_more(1)]])
      (use w wait_more(3) fine_wires_line in \<open>auto simp: wait_more(1) serve_on_def split: if_splits\<close>)
next
  case (hang_up ret st i c c1 ready "is" len r)
  have m: "map_ok (clients (web st))" using ok by (simp add: fine_ok_def members_ok_def hang_up(1))
  show ?thesis unfolding hang_up(2)
    by (rule fine_wires_put [OF w [unfolded hang_up(1)] m, of _ i c1]) (use fine_wires_line w in \<open>auto simp: hang_up(1)\<close>)
next
  case (release st i c a c1 ready "is")
  have m: "members_ok (Serves ready (i # is) Disconnected) (clients (web st))" using ok by (simp add: fine_ok_def release(1))
  have "owned a \<subseteq> owned (logsrv st)"
    using release(4) release_requests [of api "cl_id c" "logsrv st" a]
    by (auto simp: OnDisconnect_def bind_r_eq_Inr get_id_def owned_def)
  then have own: "owned a \<subseteq> insert i (owned (logsrv st))" by blast
  have mo: "map_ok (clients (web st))" using m by (simp add: members_ok_def)
  show ?thesis unfolding release(2)
    by (rule fine_wires_put [OF w [unfolded release(1)] mo, of _ i c1]) (use own in simp_all)
next
  case (erase st ready i "is" r)
  have "members_ok (Serves ready (i # is) Released) (clients (web st))" using ok by (simp add: fine_ok_def erase(1))
  then have "map_ok (clients (web st))" by (simp add: members_ok_def)
  then have "map_find (map_erase (clients (web st)) i) = (map_find (clients (web st)))(i := None)" by (rule cm.find_erase)
  with w show ?thesis by (simp add: erase(1,2) fine_wires_def)
next
  case (end_pass st ready r)
  with w show ?thesis by (simp add: fine_wires_def)
qed

lemma owned_without: "owned (logsrv (with_logs (without k (logs (logsrv st))) w st)) \<subseteq> owned (logsrv st)"
  by (auto simp: owned_def without_def dest: in_set_takeD in_set_dropD)

lemma send_line_wires:
  assumes api: "ssl_write_ok tls sent" and w: "fine_wires api sent (st, q, Some (rd, ex, k, Line i))"
    and ok: "fine_ok (st, q, Some (rd, ex, k, Line i))"
    and c: "map_find (clients (web st)) i = Some c" and sd: "Send tls c (cstr (line_buf st)) = Inr (ret, c1)"
  shows "fine_wires api sent (with_clients (map_put (clients (web st)) i c1) st, q, Some (rd, ex, k, Check))"
proof -
  have m: "members_ok q (clients (web st))" "length (line_buf st) = 2048"
    "k < length (logs (logsrv st))" "log_client_id (logs (logsrv st) ! k) = i"
    using ok by (simp_all add: fine_ok_def reading_ok_def)
  then have mc: "bufs_ok c" "map_ok (clients (web st))" using c by (auto simp: members_ok_def member_ok_def)
  have i: "i \<in> owned (logsrv st)" using m(3,4) nth_mem [OF m(3)] by (auto simp: owned_def)
  have len: "length (cstr (line_buf st)) < 2 ^ 31" using length_cstr [of "line_buf st"] m(2) by simp
  have l: "lines_for api i [cstr (line_buf st)]" by (rule fine_wires_line [OF w])
  obtain ls where ls: "sent (tls_connection c1) = sent (tls_connection c) @ line_frames ls" "lines_for api i ls"
  proof (cases "sent (tls_connection c1) = sent (tls_connection c)")
    case True
    then show thesis using that [of "[]"] by (simp add: lines_for_def)
  next
    case False
    with Send_outcome [OF api mc(1) len sd] show thesis
      using that [of "[cstr (line_buf st)]"] l by (auto split: if_splits)
  qed
  have new: "wire_ok api sent i c1 \<and> handshaked c1" if "\<not> leaving q i"
  proof -
    have "wire_ok api sent i c" "handshaked c" using fine_wires_client [OF w c that] i by simp_all
    with wire_ok_lines [OF _ _ Send_handshaked [OF sd] ls] Send_handshaked [OF sd] show ?thesis by simp
  qed
  have rc: "if j = i then handshaked c1 else q = q"
    if "q = Serves ready (j # is) (Received n len)" "n \<in> {READ_SUCCEED, READ_SUCCEED_DATA_AVAILABLE}" for ready j "is" n len
    using w that c Send_handshaked [OF sd] by (auto simp: fine_wires_def)
  show ?thesis
    by (rule fine_wires_put [OF w mc(2), of _ i c1]) (use new rc in auto)
qed

lemma log_call_wires:
  assumes api: "ssl_write_ok tls sent" and "log_call tls api s s'" and w: "fine_wires api sent s"
    and ok: "fine_ok s" "requests_ok (fst s)"
  shows "fine_wires api sent s'"
  using assms(2)
proof cases
  case (watch_all st nfds q)
  with w show ?thesis by (simp add: fine_wires_def)
next
  case (no_event st fds sel q)
  with w show ?thesis by (simp add: fine_wires_def)
next
  case (begin_logs st fds sel q)
  with w show ?thesis by (simp add: fine_wires_def)
next
  case (no_line k st d u rd q ex)
  with w show ?thesis by (simp add: fine_wires_def)
next
  case (orphan k st d u rd d1 w' q ex)
  show ?thesis unfolding orphan(2) by (rule fine_wires_same [OF w [unfolded orphan(1)] _ owned_without]) simp_all
next
  case (find_client k st d u rd c q ex)
  with w show ?thesis by (simp add: fine_wires_def)
next
  case (get_line k st d ret d1 buf w' q rd ex i)
  have k: "log_client_id d = i" "length (line_buf st) = 2048" "d \<in> set (logs (logsrv st))"
    using ok(1) get_line(3,4) by (simp_all add: get_line(1) fine_ok_def reading_ok_def)
  have "line_of api d (cstr buf)" if "ret = 0"
    using get_line(5) that k(2) unfolding line_of_def MSG_BUF_LEN_def by blast
  moreover have "\<not> sublist [46, 46] (log_name d)" using ok(2) k(3) by (simp add: get_line(1) requests_ok_def)
  ultimately have l: "ret = 0 \<Longrightarrow> lines_for api i [cstr buf]" using k(1) by (auto simp: lines_for_def)
  have "log_client_id d1 = log_client_id d" using GetNextLine_request [OF get_line(5)] by (simp add: request_def)
  then have own: "owned (logsrv (with_logs ((logs (logsrv st))[k := d1]) w' st)) \<subseteq> owned (logsrv st)"
    using k(3) set_update_subset_insert [of "logs (logsrv st)" k d1] by (auto simp: owned_def)
  show ?thesis unfolding get_line(2)
    by (rule fine_wires_same [OF w [unfolded get_line(1)]]) (use l own in \<open>auto split: if_splits\<close>)
next
  case (send_line st i c ret c1 q rd ex k)
  from send_line_wires [OF api w [unfolded send_line(1)] ok(1) [unfolded send_line(1)] send_line(3,4)]
  show ?thesis by (simp add: send_line(2))
next
  case (keep_log k st d ex d1 w' q rd)
  then have "d1 = d" by (auto simp: check_except_def bind_r_eq_Inr split: if_splits)
  with keep_log(3,4) have "(logs (logsrv st))[k := d1] = logs (logsrv st)" by simp
  with w show ?thesis by (simp add: keep_log(1,2) fine_wires_def owned_def)
next
  case (drop_log k st d ex w' q rd)
  show ?thesis unfolding drop_log(2) by (rule fine_wires_same [OF w [unfolded drop_log(1)] _ owned_without]) simp_all
next
  case (end_logs st q rd ex)
  with w show ?thesis by (simp add: fine_wires_def)
qed

section \<open>Runs\<close>

lemma call_step_wires:
  assumes api: "ssl_read_ok tls" "ssl_write_ok tls sent"
    and arr: "\<forall>ar \<in> arrivals. arrival_ok ar" "fresh_wires sent arrivals"
    and step: "call_step tls api arrivals s t s'" and w: "fine_wires api sent s" and ok: "fine_ok s" "requests_ok (fst s)"
  shows "fine_wires api sent s'"
  using step
proof cases
  case accepting
  from accept_call_wires [OF accepting(2) w ok arr] show ?thesis .
next
  case listening
  from message_call_wires [OF api listening(2) w ok(1)] show ?thesis .
next
  case logging
  from log_call_wires [OF api(2) logging(2) w ok] show ?thesis .
next
  case (stopping st q r)
  with w show ?thesis by (simp add: fine_wires_def Stop_def)
next
  case (moving st q r w')
  with w show ?thesis by (simp add: fine_wires_def owned_def)
qed

lemma call_run_requests_ok:
  assumes "call_run tls api arrivals s0 s" and "starts_fine s0" and "ssl_read_ok tls" and "\<forall>ar \<in> arrivals. arrival_ok ar"
  shows "requests_ok (fst s)"
proof -
  obtain st q r where s: "s = (st, q, r)" by (cases s)
  note c = call_run_requests [OF assms(1) [unfolded s] assms(2-4)]
  have "\<not> sublist [46, 46] (log_name d)" if "d \<in> set (logs (logsrv st))" for d
    using c(1) [of "log_client_id d" "log_name d"] that by (force simp: requests_def request_def)
  moreover have "i \<in> keys (clients (web st))" if "\<not> ended st" "i \<in> owned (logsrv st)" for i
    using c(2) [OF _ that(1)] that(2) present_keys by (fastforce simp: owned_requests)
  ultimately show ?thesis by (auto simp: s requests_ok_def)
qed

lemma call_run_wires:
  assumes api: "ssl_read_ok tls" "ssl_write_ok tls sent"
    and arr: "\<forall>ar \<in> arrivals. arrival_ok ar" "fresh_wires sent arrivals"
    and "call_run tls api arrivals s0 s" and "starts_fine s0"
  shows "fine_wires api sent s"
  using assms(5,6)
proof (induction rule: call_run.induct)
  case (none s)
  then obtain st where "s = (st, Nobody, None)" "starts st" by (auto simp: starts_fine_def)
  moreover from starts_ok(2) [OF this(2)] have "clients (web st) = []" .
  ultimately show ?case by (simp add: fine_wires_def map_find_def)
next
  case (more s0 s1 t s)
  have "fine_ok s1" using call_run_history [OF more(1,4) api(1) arr(1)] by blast
  with call_step_wires [OF api arr more(2) more(3) [OF more(4)]] call_run_requests_ok [OF more(1,4) api(1) arr(1)]
  show ?case by blast
qed

end
