(* ===== verification/Interleaving_Sockets.thy ===== *)
theory Interleaving_Sockets
  imports Interleaving_Wire Faults
begin

text \<open>
  The sockets of the clients between the calls: a client has none exactly from its \<open>Disconnect\<close>
  until it is out of the map. What follows for the log thread, which sends to clients without
  the mutex of the map.
\<close>

section \<open>The invariant\<close>

definition sockets_ok :: "('s, 'w) fine \<Rightarrow> bool" where
  "sockets_ok s \<longleftrightarrow> (case s of (st, q, r) \<Rightarrow>
     \<forall>i c. map_find (clients (web st)) i = Some c \<longrightarrow> (if closed q i then socket c = -1 else 0 < socket c))"

lemma Disconnect_socket:
  assumes "Disconnect tls c = Inr c'" and "0 < socket c"
  shows "socket c' = -1"
proof -
  have close: "0 < socket d \<Longrightarrow> socket (CloseSocket tls d) = -1" for d
    by (simp add: CloseSocket_def Let_def split: prod.split)
  have send: "SendFrame tls d b = Inr (r, d') \<Longrightarrow> socket d' = socket d" for d b r d'
    by (auto simp: SendFrame_def bind_r_eq_Inr split: option.splits)
  from assms show ?thesis
    by (auto simp: Disconnect_def Let_def bind_r_eq_Inr close dest!: send split: if_splits)
qed

lemma sockets_same:
  assumes "sockets_ok (st, q, r)" and "clients (web st') = clients (web st)"
    and "\<And>i. i \<in> keys (clients (web st)) \<Longrightarrow> closed q' i = closed q i"
  shows "sockets_ok (st', q', r')"
  using assms by (auto simp: sockets_ok_def in_keys_iff)

lemma sockets_put:
  assumes "sockets_ok (st, q, r)" and "map_ok (clients (web st))" and "clients (web st') = map_put (clients (web st)) i c1"
    and "if closed q' i then socket c1 = -1 else 0 < socket c1"
    and "\<And>j. j \<noteq> i \<Longrightarrow> j \<in> keys (clients (web st)) \<Longrightarrow> closed q' j = closed q j"
  shows "sockets_ok (st', q', r')"
proof -
  have "map_find (clients (web st')) = (map_find (clients (web st)))(i \<mapsto> c1)"
    using assms(3) map_find_put [OF assms(2)] by simp
  with assms(1,4,5) show ?thesis by (auto simp: sockets_ok_def in_keys_iff)
qed

lemma sockets_client:
  "sockets_ok (st, q, r) \<Longrightarrow> map_find (clients (web st)) i = Some c \<Longrightarrow>
   (closed q i \<longrightarrow> socket c = -1) \<and> (\<not> closed q i \<longrightarrow> 0 < socket c)"
  by (auto simp: sockets_ok_def)

lemma accept_call_sockets:
  assumes "accept_call tls arrivals s s'" and w: "sockets_ok s" and ok: "fine_ok s" and arr: "\<forall>ar \<in> arrivals. arrival_ok ar"
  shows "sockets_ok s'"
  using assms(1)
proof cases
  case (admit st ar signalled dropped srv r)
  have c: "clients_ok (clients (web st))" "0 \<le> id_counter (web st)" "id_counter (web st) \<le> INT_MAX"
    using ok by (simp_all add: fine_ok_def admit(1) members_clients_ok)
  have ar: "arrival_ok ar" using arr admit(4) by blast
  from accept_step_enters [OF c ar admit(5)] show ?thesis
  proof (elim disjE exE conjE)
    assume "srv = web st"
    with w show ?thesis by (simp add: admit(1,2))
  next
    fix k c
    assume k: "0 < socket c" and srv: "srv = (web st)\<lparr>id_counter := k, clients := map_put (clients (web st)) k c\<rparr>"
    show ?thesis unfolding admit(2)
      by (rule sockets_put [OF w [unfolded admit(1)], of _ k c]) (use c(1) k in \<open>simp_all add: srv clients_ok_def\<close>)
  qed
next
  case (shut st r)
  show ?thesis unfolding shut(2) by (rule sockets_same [OF w [unfolded shut(1)]]) (simp_all add: keys_def)
next
  case (shut_one st i c c1 "is" r)
  have m: "map_ok (clients (web st))" "i \<notin> set is"
    using ok by (simp_all add: fine_ok_def hold_ok_def shut_one(1) members_ok_def)
  have "0 < socket c" using sockets_client [OF w [unfolded shut_one(1)] shut_one(3)] by simp
  then show ?thesis unfolding shut_one(2)
    by (intro sockets_put [OF w [unfolded shut_one(1)] m(1), of _ i c1])
      (use m(2) Disconnect_socket [OF shut_one(4)] in auto)
next
  case (clear st r)
  then show ?thesis by (simp add: sockets_ok_def map_find_def)
qed

lemma message_call_sockets:
  assumes api: "ssl_read_ok tls" and "message_call tls api s s'" and w: "sockets_ok s" and ok: "fine_ok s"
  shows "sockets_ok s'"
  using assms(2)
proof cases
  case (fill_all st nfds r)
  with w show ?thesis by (simp add: sockets_ok_def)
next
  case (begin_pass st r ready)
  with w show ?thesis by (simp add: sockets_ok_def)
next
  case (not_ready st i c u ready "is" r)
  with w show ?thesis by (simp add: sockets_ok_def)
next
  case (is_ready st i c u ready "is" r)
  with w show ?thesis by (simp add: sockets_ok_def)
next
  case (receive st i c ret c1 buf len ready "is" r)
  have m: "members_ok (Serves ready (i # is) To_receive) (clients (web st))" "length (data_buf st) = 2048"
    using ok by (simp_all add: fine_ok_def receive(1))
  then have mc: "client_ok c" "fd_ok c" "map_ok (clients (web st))" using receive(3) by (auto simp: members_ok_def member_ok_def)
  have "socket c1 = socket c" using Receive_continues [OF api mc(1,2) m(2) receive(4) [unfolded MSG_BUF_LEN_def]]
    by (simp add: same_conn_def)
  moreover have "0 < socket c" using sockets_client [OF w [unfolded receive(1)] receive(3)] by simp
  ultimately show ?thesis unfolding receive(2)
    by (intro sockets_put [OF w [unfolded receive(1)] mc(3), of _ i c1]) simp_all
next
  case (handle ret st i c fresh len a c1 r ready "is")
  have m: "map_ok (clients (web st))" using ok by (simp add: fine_ok_def members_ok_def handle(1))
  have "c1 = c" using handle(5) by (auto simp: OnMessage_request bind_r_eq_Inr)
  then show ?thesis unfolding handle(2)
    by (intro sockets_put [OF w [unfolded handle(1)] m, of _ i c1])
      (use sockets_client [OF w [unfolded handle(1)] handle(4)] in simp_all)
next
  case (wait_more ret st ready i "is" len r)
  with w show ?thesis by (simp add: sockets_ok_def)
next
  case (hang_up ret st i c c1 ready "is" len r)
  have m: "map_ok (clients (web st))" using ok by (simp add: fine_ok_def members_ok_def hang_up(1))
  have "0 < socket c" using sockets_client [OF w [unfolded hang_up(1)] hang_up(4)] by simp
  with Disconnect_socket [OF hang_up(5)] show ?thesis unfolding hang_up(2)
    by (intro sockets_put [OF w [unfolded hang_up(1)] m, of _ i c1]) simp_all
next
  case (release st i c a c1 ready "is")
  have m: "map_ok (clients (web st))" using ok by (simp add: fine_ok_def members_ok_def release(1))
  have "c1 = c" using release(4) by (auto simp: OnDisconnect_def bind_r_eq_Inr)
  then show ?thesis unfolding release(2)
    by (intro sockets_put [OF w [unfolded release(1)] m, of _ i c1])
      (use sockets_client [OF w [unfolded release(1)] release(3)] in simp_all)
next
  case (erase st ready i "is" r)
  have "map_ok (clients (web st))" using ok by (simp add: fine_ok_def members_ok_def erase(1))
  then have "map_find (map_erase (clients (web st)) i) = (map_find (clients (web st)))(i := None)" by (rule cm.find_erase)
  with w show ?thesis by (simp add: erase(1,2) sockets_ok_def)
next
  case (end_pass st ready r)
  with w show ?thesis by (simp add: sockets_ok_def)
qed

lemma log_call_sockets:
  assumes "log_call tls api s s'" and w: "sockets_ok s" and ok: "fine_ok s"
  shows "sockets_ok s'"
  using assms(1)
proof cases
  case (send_line st i c ret c1 q rd ex k)
  have m: "members_ok q (clients (web st))" "length (line_buf st) = 2048"
    using ok by (simp_all add: fine_ok_def send_line(1))
  then have mc: "bufs_ok c" "map_ok (clients (web st))" using send_line(3) by (auto simp: members_ok_def member_ok_def)
  have "length (cstr (line_buf st)) < 2 ^ 31" using length_cstr [of "line_buf st"] m(2) by simp
  from Send_keeps(3) [OF mc(1) this send_line(4)] sockets_client [OF w [unfolded send_line(1)] send_line(3)]
  show ?thesis unfolding send_line(2)
    by (intro sockets_put [OF w [unfolded send_line(1)] mc(2), of _ i c1]) simp_all
qed (use w in \<open>simp_all add: sockets_ok_def\<close>)

lemma call_run_sockets:
  assumes "call_run tls api arrivals s0 s" and "starts_fine s0" and api: "ssl_read_ok tls" and arr: "\<forall>ar \<in> arrivals. arrival_ok ar"
  shows "sockets_ok s"
  using assms(1,2)
proof (induction rule: call_run.induct)
  case (none s)
  then obtain st where "s = (st, Nobody, None)" "starts st" by (auto simp: starts_fine_def)
  moreover from starts_ok(2) [OF this(2)] have "clients (web st) = []" .
  ultimately show ?case by (simp add: sockets_ok_def map_find_def)
next
  case (more s0 s1 t s)
  have ok: "fine_ok s1" using call_run_history [OF more(1,4) api arr] by blast
  note w = more(3) [OF more(4)]
  from more(2) show ?case
  proof cases
    case accepting
    from accept_call_sockets [OF accepting(2) w ok arr] show ?thesis .
  next
    case listening
    from message_call_sockets [OF api listening(2) w ok] show ?thesis .
  next
    case logging
    from log_call_sockets [OF logging(2) w ok] show ?thesis .
  qed (use w in \<open>simp_all add: sockets_ok_def Stop_def\<close>)
qed

section \<open>Sending a line\<close>

lemma reading_okD:
  assumes "reading_ok ds I e (Some (rd, ex, k, pt))" and "pt = Found i \<or> pt = Line i"
  shows "k < length ds \<and> log_client_id (ds ! k) = i \<and> (\<not> e \<longrightarrow> i \<in> I)"
  using assms(2,1) by (elim disjE) (simp_all add: reading_ok_def)

lemma Send_closed:
  assumes "bufs_ok c" and "length m \<le> 15996" and "socket c = -1"
  shows "Send tls c m = Inl OutOfBounds"
proof -
  obtain sb where "Send tls c m = SendFrame tls (c\<lparr>send_buf := sb\<rparr>) (rfc_server_frame (frame_code WS_TEXT_FRAME) m)"
    using Send_steps [OF assms(1), of m tls] assms(2) by auto
  with assms(3) show ?thesis by (simp add: SendFrame_def fd_set_ok_def)
qed

lemma line_client:
  assumes "fine_ok (st, q, Some (rd, ex, k, pt))" and "pt = Found i \<or> pt = Line i"
    and "map_find (clients (web st)) i = Some c"
  shows "bufs_ok c" and "\<not> closed q i \<Longrightarrow> fd_ok c" and "length (cstr (line_buf st)) \<le> 2048"
  using assms length_cstr [of "line_buf st"] by (auto simp: fine_ok_def members_ok_def member_ok_def)

end
