(* ===== verification/Interleaving_Sample.thy ===== *)
theory Interleaving_Sample
  imports Interleaving_Sockets Session
begin

text \<open>
  Two sample runs, call by call, for the witnesses of theory Interleaving_Props: the shutdown and a
  pass of the message thread, each with the log thread in between.
\<close>

section \<open>A sample run\<close>

text \<open>
  The log thread has the first line for the client of theory Session when the server is stopped,
  and the accept thread disconnects the client and clears the map before the line is sent.
\<close>

lemma reader_line:
  assumes "clients (web st) = [(0, c)]" and "logsrv st = session_logs" and "length (line_buf st) = 2048" and "watched st = None"
  obtains st' rd ex where "call_run queue_tls sample_os arrivals (st, q, None) (st', q, Some (rd, ex, 0, Line 0))"
    "web st' = web st" "data_buf st' = data_buf st" "ended st' = ended st"
proof -
  have l: "logs (logsrv st) = [session_log]" "os (logsrv st) = os session_logs" by (simp_all add: assms(2) session_logs_def)
  define st2 where "st2 = st\<lparr>watched := Some {20 :: int}\<rparr>"
  have st2: "clients (web st2) = [(0, c)]" "logs (logsrv st2) = [session_log]" "os (logsrv st2) = os session_logs"
    "length (line_buf st2) = 2048" "watched st2 = Some {20}"
    using assms l by (simp_all add: st2_def)
  obtain d1 buf1 w1 where g: "GetNextLine sample_os session_log (line_buf st2) 2048 (os session_logs) = Inr (0, d1, buf1, w1)"
    by (rule session_line [OF st2(4)])
  define st3 where "st3 = (with_logs [d1] w1 st2)\<lparr>line_buf := buf1\<rparr>"
  let ?rd = "\<lambda>fd :: int. True" and ?ex = "\<lambda>fd :: int. False"
  have w: "log_call queue_tls sample_os (st, q, None) (st2, q, None)"
    using watch_all [where st = st and nfds = 21] assms(4) l
    by (simp add: session_log_def fd_set_ok_def FD_SETSIZE_def st2_def)
  have b: "log_call queue_tls sample_os (st2, q, None) (st2, q, Some (?rd, ?ex, 0, Look))"
    using begin_logs [OF st2(5), of "\<lparr>sel_ret = 1, sel_errno = 0, sel_read = ?rd, sel_except = ?ex\<rparr>"] by simp
  have f: "log_call queue_tls sample_os (st2, q, Some (?rd, ?ex, 0, Look)) (st2, q, Some (?rd, ?ex, 0, Found 0))"
    using find_client [of 0 st2 session_log "()" ?rd c queue_tls sample_os q ?ex]
    by (simp add: st2 session_log_def fd_set_ok_def FD_SETSIZE_def map_find_def)
  have n: "log_call queue_tls sample_os (st2, q, Some (?rd, ?ex, 0, Found 0)) (st3, q, Some (?rd, ?ex, 0, Line 0))"
    using get_line [of 0 st2 session_log sample_os 0 d1 buf1 w1 queue_tls q ?rd ?ex 0] g
    by (simp add: st2 MSG_BUF_LEN_def st3_def)
  from call_run.more [OF call_run.more [OF call_run.more [OF call_run.more [OF call_run.none
      logging [OF w]] logging [OF b]] logging [OF f]] logging [OF n]]
  show thesis by (rule that) (simp_all add: st3_def st2_def)
qed

lemma sample_line:
  obtains st c rd ex where
    "call_run queue_tls sample_os sample_arrivals (sample_start, Nobody, None) (st, Nobody, Some (rd, ex, 0, Line 0))"
    "clients (web st) = [(0, c)]" "entry_ok (0, c)" "\<not> ended st"
proof -
  obtain st1 st c where s1: "sys_run queue_tls sample_os sample_arrivals sample_start st1"
    "sys_step queue_tls sample_os sample_arrivals st1 Listener st"
    and c: "clients (web st) = [(0, c)]" "entry_ok (0, c)" "logsrv st = session_logs" "length (line_buf st) = 2048" "watched st = None"
    by (rule sample_serves)
  have r: "sys_run queue_tls sample_os sample_arrivals sample_start st" by (rule sys_run.go [OF s1])
  have "store_ok st"
    using sys_run_history [OF queue_tls_ok(1,2) sample_arrivals_ok(1) r sample_starts] by blast
  then have e: "\<not> ended st" using c(1) by (auto simp: store_ok_def)
  note r1 = sections_calls [OF queue_tls_ok(1,2) sample_arrivals_ok(1) r sample_starts]
  obtain st' rd ex where r2: "call_run queue_tls sample_os sample_arrivals (st, Nobody, None) (st', Nobody, Some (rd, ex, 0, Line 0))"
    "web st' = web st" "ended st' = ended st" by (rule reader_line [OF c(1,3-5)])
  from call_run_trans [OF r2(1) r1] show thesis by (rule that [of _ _ _ c]) (simp_all add: r2 c e)
qed

text \<open>The run goes on: the server is stopped, the client disconnected, and the map cleared.\<close>

lemma sample_shutdown:
  obtains st c rd ex st' where
    "call_run queue_tls sample_os sample_arrivals (sample_start, Nobody, None) (st, Closes [], Some (rd, ex, 0, Line 0))"
    "clients (web st) = [(0, c)]"
    "call_run queue_tls sample_os sample_arrivals (sample_start, Nobody, None) (st', Nobody, Some (rd, ex, 0, Line 0))"
    "clients (web st') = []" "ended st'"
proof -
  obtain st c rd ex where r:
    "call_run queue_tls sample_os sample_arrivals (sample_start, Nobody, None) (st, Nobody, Some (rd, ex, 0, Line 0))"
    and c: "clients (web st) = [(0, c)]" "entry_ok (0, c)" "\<not> ended st" by (rule sample_line)
  define st1 where "st1 = st\<lparr>web := snd (Stop (web st))\<rparr>"
  have st1: "clients (web st1) = [(0, c)]" "stop (web st1)" "\<not> ended st1" using c by (simp_all add: st1_def Stop_def)
  have "bufs_ok c" "fd_ok c" using c(2) by (simp_all add: entry_ok_def client_ok_def)
  with Disconnect_returns [OF queue_tls_ok(4)] obtain c1 where d: "Disconnect queue_tls c = Inr c1" by blast
  let ?r = "Some (rd, ex, 0, Line 0)" and ?st2 = "with_clients [(0, c1)] st1"
  have s1: "accept_call queue_tls sample_arrivals (st1, Nobody, ?r) (st1, Closes [0], ?r)"
    using shut [OF st1(3,2), of queue_tls sample_arrivals ?r] by (simp add: st1(1))
  have s2: "accept_call queue_tls sample_arrivals (st1, Closes [0], ?r) (?st2, Closes [], ?r)"
    using shut_one [OF _ d, of st1 0 sample_arrivals "[]" ?r] by (simp add: st1(1) map_find_def)
  have "call_step queue_tls sample_os sample_arrivals (st, Nobody, ?r) Caller (st1, Nobody, ?r)"
    unfolding st1_def by (rule stopping)
  from call_run.more [OF call_run.more [OF call_run.more [OF r this] accepting [OF s1]] accepting [OF s2]]
  have r2: "call_run queue_tls sample_os sample_arrivals (sample_start, Nobody, None) (?st2, Closes [], ?r)" .
  show thesis by (rule that [OF r2 _ call_run.more [OF r2 accepting [OF clear]]]) simp_all
qed

text \<open>
  Another client, whose request and message are followed by bytes that are no frame: the message
  thread disconnects it in the pass in which it has registered its log, and the log thread
  has come in between.
\<close>

definition rude_peer :: peer where
  "rude_peer = \<lparr>chunks = [sample_request @ sample_frame @ [0, 0]], wire = [], busy = 0\<rparr>"

definition rude_arrival :: "peer arrival" where
  "rude_arrival = caller\<lparr>ar_accept := (ar_accept caller)\<lparr>ac_SSL_accept := (1, rude_peer)\<rparr>\<rparr>"

definition rude_client :: "peer client" where
  "rude_client = set_id (snd (accepted rude_arrival)) 0"

lemma rude_client_fields:
  "cl_id rude_client = 0" "socket rude_client = 7" "\<not> handshaked rude_client" "frame_buf_pos rude_client = 0"
  "tls_connection rude_client = rude_peer" "client_ok rude_client" "fd_ok rude_client" "arrival_ok rude_arrival"
  using sample_client_ok(3) [of False "[]"]
  by (simp_all add: rude_client_def set_id_def rude_arrival_def caller_def sample_arrival_def accepted_def Accept_def
      Client_def Let_def client_ok_def fd_ok_def bufs_ok_def BUF_LEN_def arrival_ok_def)

lemma rude_enters:
  obtains srv where "call_run queue_tls sample_os {rude_arrival} (sample_start, Nobody, None) (sample_start\<lparr>web := srv\<rparr>, Nobody, None)"
    "clients srv = [(0, rude_client)]"
proof -
  let ?srv = "web sample_start"
  have c: "clients ?srv = []" "id_counter ?srv = 0"
    using starts_ok(2) [OF sample_starts] by (simp_all add: sample_start_def LogServer_def WebSocketServer_def Run_def)
  have acc: "accepted rude_arrival = (0, snd (accepted rude_arrival))"
    by (simp add: accepted_def Accept_def rude_arrival_def caller_def sample_arrival_def Client_def Let_def)
  have g: "GenerateID ?srv = Inr (0, ?srv)"
    using c by (simp add: GenerateID_def id_loop.simps [of _ _ 0] INT_MAX_def map_find_def)
  have s: "accept_step queue_tls rude_arrival ?srv = Inr (True, None, ?srv\<lparr>clients := [(0, rude_client)]\<rparr>)"
    using accept_step_joins [OF acc _ g, of queue_tls] c
    by (simp add: rude_arrival_def caller_def sample_arrival_def rude_client_def)
  from admit [OF sample_start_fields(3) _ s, of "{rude_arrival}" None]
  have "accept_call queue_tls {rude_arrival} (sample_start, Nobody, None)
      (sample_start\<lparr>web := ?srv\<lparr>clients := [(0, rude_client)]\<rparr>\<rparr>, Nobody, None)" by simp
  from call_run.more [OF call_run.none accepting [OF this]] show thesis by (rule that) simp
qed

lemma Receive_no_frame:
  assumes "ssl_read_ok api" and "quiet_ok api quiet" and "client_ok c" and "handshaked c"
    and "quiet (tls_connection c)" and "held c = [0, 0]"
  obtains c' where "Receive api c buf n = Inr (INVALID_FRAME, c', buf, n)"
proof -
  obtain ret err c1 where rd: "read_more api c = Inr (ret, err, c1)" "0 < ret \<or> ret < 0 \<and> err = SSL_ERROR_WANT_READ"
    and c1: "buf_only c c1" "held c1 = [0, 0]" "0 \<le> frame_buf_pos c1" "frame_buf_pos c1 \<le> 8192"
      "length [0 :: byte, 0] = nat (frame_buf_pos c1)"
    by (rule at_hand_filled [OF assms(1,3) at_hand_quiet [OF assms(2,5), unfolded assms(6)]])
  from c1(3,5) have pos: "frame_buf_pos c1 = 2" by simp
  with c1(2) have h: "take 2 (frame_buf c1) = [0, 0]" by (simp add: held_def)
  then obtain xs where "frame_buf c1 = 0 # 0 # xs"
    by (metis append_Cons append_Nil append_take_drop_id)
  then have b: "read_at (frame_buf c1) 0 = Inr 0" by (simp add: mem_ok)
  have "wsParseInputFrame (frame_buf c1) (word_of_int (frame_buf_pos c1)) = Inr (no_frame WS_ERROR_FRAME (frame_buf c1))"
    by (simp add: wsParseInputFrame_def pos b)
  then have "receive_frame buf n c1 = Inr (INVALID_FRAME, c1\<lparr>frame_buf := frame_buf c1\<rparr>, buf, n)"
    by (simp add: receive_frame_def no_frame_def)
  with rd assms(4) pos show thesis by (intro that) (auto simp: Receive_def)
qed

text \<open>The client is accepted, sends its request and its message, and then two bytes that are no frame.\<close>

lemma one_client: "map_find [(0 :: int, c)] 0 = Some c" "map_put [(0 :: int, c)] 0 c' = [(0, c')]"
  by (simp_all add: map_find_def)

lemma rude_receives:
  obtains c1 c2 c3 c4 buf len where
    "Receive queue_tls rude_client (data_buf sample_start) 2048 = Inr (HANDSHAKE_SUCCEED, c1, data_buf sample_start, 2048)"
    "Receive queue_tls c1 (data_buf sample_start) 2048 = Inr (READ_SUCCEED_DATA_AVAILABLE, c2, buf, len)"
    "OnMessage sample_os session_log (logsrv sample_start) c2 buf len = Inr (session_logs, c2)"
    "Receive queue_tls c2 buf 2048 = Inr (INVALID_FRAME, c3, buf, 2048)" "Disconnect queue_tls c3 = Inr c4"
proof -
  let ?req = "render_request (bytes_of ''/'') (bytes_of ''HTTP/1.1'') sample_lines"
  let ?ck = "sample_request @ sample_frame @ [0, 0]" and ?buf = "data_buf sample_start"
  define m where "m = bytes_of ''add /var/log/a''"
  have ml: "length m \<le> 125" "sample_frame = rfc_client_frame (frame_code WS_TEXT_FRAME) [1, 2, 3, 4] m"
    by (simp_all add: m_def sample_frame_def)
  have ck: "?ck \<noteq> []" "length ?ck \<le> 8192" "0 < int (length ?ck)"
    by (simp_all add: sample_frame_def rfc_client_frame_short sample_request_def sample_lines_def render_request_def
        request_line_def rn_def)
  have rd: "SSL_read queue_tls (tls_connection rude_client) (BUF_LEN - frame_buf_pos rude_client) =
      ((int (length ?ck), ?ck, SSL_ERROR_NONE), \<lparr>chunks = [], wire = [], busy = 0\<rparr>)"
    using ck(1,2) by (simp add: queue_tls_def BUF_LEN_def rude_client_fields rude_peer_def)
  have bs: "held rude_client @ ?ck = ?req @ (sample_frame @ [0, 0])"
    by (simp add: held_def rude_client_fields sample_request_def)
  obtain c1 where c1: "Receive queue_tls rude_client ?buf 2048 = Inr (HANDSHAKE_SUCCEED, c1, ?buf, 2048)" "conn_only rude_client c1"
    "client_ok c1" "handshaked c1" "held c1 = sample_frame @ [0, 0]" "chunks (tls_connection c1) = []"
    by (rule Receive_next_request [OF queue_tls_ok(1,4) queue_tls_quiet rude_client_fields(6,7,3) sample_request_ok
          rd ck(3) bs]) simp
  have h: "at_hand queue_tls (\<lambda>s. chunks s = []) c1 (rfc_client_frame (frame_code WS_TEXT_FRAME) [1, 2, 3, 4] m @ [0, 0])"
    using at_hand_quiet [OF queue_tls_quiet c1(6)] c1(5) by (simp add: ml(2))
  define buf2 where "buf2 = m @ 0 # drop (Suc (length m)) ?buf"
  have buf2: "cstr buf2 = cstr m" "length buf2 = 2048" using sample_start_fields(4) ml(1) by (simp_all add: buf2_def cstr_payload)
  obtain c2 where c2: "Receive queue_tls c1 ?buf 2048 = Inr (READ_SUCCEED_DATA_AVAILABLE, c2, buf2, int (length m))"
    "buf_only c1 c2" "client_ok c2" "held c2 = [0, 0]" "chunks (tls_connection c2) = []"
    using Receive_next_message [OF queue_tls_ok(1) c1(3,4) sample_start_fields(4) _ ml(1) h] by (auto simp: buf2_def)
  have id2: "cl_id c2 = 0" "handshaked c2" "fd_ok c2"
    using c1(2,4) c2(2) rude_client_fields(1,7) by (simp_all add: conn_only_def buf_only_def fd_ok_def)
  have "do_request sample_os (logsrv sample_start) 0 (cstr buf2) = Inr session_logs"
    using asked_handled by (auto simp: asked_def buf2(1) m_def bind_r_eq_Inr)
  then have om: "OnMessage sample_os session_log (logsrv sample_start) c2 buf2 (int (length m)) = Inr (session_logs, c2)"
    by (simp add: OnMessage_request id2(1))
  obtain c3 where c3: "Receive queue_tls c2 buf2 2048 = Inr (INVALID_FRAME, c3, buf2, 2048)"
    by (rule Receive_no_frame [OF queue_tls_ok(1) queue_tls_quiet c2(3) id2(2) c2(5,4)])
  have "bufs_ok c3" "fd_ok c3"
    using Receive_continues [OF queue_tls_ok(1) c2(3) id2(3) buf2(2) c3] id2(3) by (simp_all add: same_conn_def fd_ok_def)
  with Disconnect_returns [OF queue_tls_ok(4)] obtain c4 where c4: "Disconnect queue_tls c3 = Inr c4" by blast
  with c1(1) c2(1) om c3 show thesis by (intro that)
qed

text \<open>The pass of the message thread up to the message, and the line of the log thread in between.\<close>

lemma rude_served:
  assumes c1: "Receive queue_tls rude_client (data_buf sample_start) 2048 = Inr (HANDSHAKE_SUCCEED, c1, data_buf sample_start, 2048)"
    and c2: "Receive queue_tls c1 (data_buf sample_start) 2048 = Inr (READ_SUCCEED_DATA_AVAILABLE, c2, buf, len)"
    and om: "OnMessage sample_os session_log (logsrv sample_start) c2 buf len = Inr (session_logs, c2)"
  obtains st where "call_run queue_tls sample_os {rude_arrival} (sample_start, Nobody, None)
      (st, Serves (\<lambda>fd. True) [0] To_receive, None)" "clients (web st) = [(0, c2)]" "logsrv st = session_logs"
    "data_buf st = buf" "length (line_buf st) = 2048" "watched st = None"
proof -
  obtain srv where r0: "call_run queue_tls sample_os {rude_arrival} (sample_start, Nobody, None) (sample_start\<lparr>web := srv\<rparr>, Nobody, None)"
    and srv: "clients srv = [(0, rude_client)]" by (rule rude_enters)
  let ?ready = "\<lambda>fd :: int. True" and ?buf = "data_buf sample_start"
  define st1 where "st1 = sample_start\<lparr>web := srv, selecting := True\<rparr>"
  have st1: "clients (web st1) = [(0, rude_client)]" "data_buf st1 = ?buf" "logsrv st1 = logsrv sample_start"
    "length (line_buf st1) = 2048" "watched st1 = None"
    using sample_start_fields by (simp_all add: st1_def srv)
  define st2 where "st2 = (with_clients [(0, c1)] st1)\<lparr>data_buf := ?buf\<rparr>"
  define st3 where "st3 = (with_clients [(0, c2)] st2)\<lparr>data_buf := buf\<rparr>"
  define st4 where "st4 = (with_clients [(0, c2)] st3)\<lparr>logsrv := session_logs\<rparr>"
  have on: "serve_on ?ready HANDSHAKE_SUCCEED 0 [] = Serves ?ready [0] To_receive"
    "serve_on ?ready READ_SUCCEED_DATA_AVAILABLE 0 [] = Serves ?ready [0] To_receive" by (simp_all add: serve_on_def)
  have s1: "message_call queue_tls sample_os (sample_start\<lparr>web := srv\<rparr>, Nobody, None) (st1, Nobody, None)"
    using fill_all [of "sample_start\<lparr>web := srv\<rparr>" 8 queue_tls sample_os None] sample_start_fields(1)
    by (simp add: st1_def srv rude_client_fields fd_set_ok_def FD_SETSIZE_def)
  have s2: "message_call queue_tls sample_os (st1, Nobody, None) (st1, Serves ?ready [0] At_client, None)"
    using begin_pass [of st1 queue_tls sample_os None ?ready] by (simp add: st1) (simp add: st1_def)
  have s3: "message_call queue_tls sample_os (st1, Serves ?ready [0] At_client, None) (st1, Serves ?ready [0] To_receive, None)"
    using is_ready [of st1 0 rude_client "()" ?ready queue_tls sample_os "[]" None]
    by (simp add: st1 one_client rude_client_fields fd_set_ok_def FD_SETSIZE_def)
  have s4: "message_call queue_tls sample_os (st1, Serves ?ready [0] To_receive, None)
      (st2, Serves ?ready [0] (Received HANDSHAKE_SUCCEED 2048), None)"
    using receive [of st1 0 rude_client queue_tls HANDSHAKE_SUCCEED c1 ?buf 2048 sample_os ?ready "[]" None] c1
    by (simp add: st1 one_client MSG_BUF_LEN_def st2_def)
  have s5: "message_call queue_tls sample_os (st2, Serves ?ready [0] (Received HANDSHAKE_SUCCEED 2048), None)
      (st2, Serves ?ready [0] To_receive, None)"
    using wait_more [of HANDSHAKE_SUCCEED queue_tls sample_os st2 ?ready 0 "[]" 2048 None]
    unfolding on by (simp add: return_codes)
  have s6: "message_call queue_tls sample_os (st2, Serves ?ready [0] To_receive, None)
      (st3, Serves ?ready [0] (Received READ_SUCCEED_DATA_AVAILABLE len), None)"
    using receive [of st2 0 c1 queue_tls READ_SUCCEED_DATA_AVAILABLE c2 buf len sample_os ?ready "[]" None] c2
    by (simp add: st1 one_client MSG_BUF_LEN_def st2_def st3_def)
  have s7: "message_call queue_tls sample_os (st3, Serves ?ready [0] (Received READ_SUCCEED_DATA_AVAILABLE len), None)
      (st4, Serves ?ready [0] To_receive, None)"
    using handle [of READ_SUCCEED_DATA_AVAILABLE st3 0 c2 sample_os session_log len session_logs c2 None
        queue_tls ?ready "[]"] om
    unfolding on by (simp add: st1 one_client st2_def st3_def st4_def)
  note r4 = call_run.more [OF call_run.more [OF call_run.more [OF call_run.more [OF call_run.more [OF call_run.more [OF
    call_run.more [OF r0 listening [OF s1]] listening [OF s2]] listening [OF s3]] listening [OF s4]] listening [OF s5]]
    listening [OF s6]] listening [OF s7]]
  from r4 show thesis by (rule that) (simp_all add: st1 st2_def st3_def st4_def)
qed

lemma sample_race:
  obtains st c rd ex where
    "call_run queue_tls sample_os {rude_arrival} (sample_start, Nobody, None)
      (st, Serves (\<lambda>fd. True) [0] Disconnected, Some (rd, ex, 0, Line 0))"
    "clients (web st) = [(0, c)]"
proof -
  let ?ready = "\<lambda>fd :: int. True"
  obtain c1 c2 c3 c4 buf len where c:
    "Receive queue_tls rude_client (data_buf sample_start) 2048 = Inr (HANDSHAKE_SUCCEED, c1, data_buf sample_start, 2048)"
    "Receive queue_tls c1 (data_buf sample_start) 2048 = Inr (READ_SUCCEED_DATA_AVAILABLE, c2, buf, len)"
    "OnMessage sample_os session_log (logsrv sample_start) c2 buf len = Inr (session_logs, c2)"
    "Receive queue_tls c2 buf 2048 = Inr (INVALID_FRAME, c3, buf, 2048)" "Disconnect queue_tls c3 = Inr c4"
    by (rule rude_receives)
  obtain st4 where r4: "call_run queue_tls sample_os {rude_arrival} (sample_start, Nobody, None)
      (st4, Serves ?ready [0] To_receive, None)"
    and st4: "clients (web st4) = [(0, c2)]" "logsrv st4 = session_logs"
    "data_buf st4 = buf" "length (line_buf st4) = 2048" "watched st4 = None" by (rule rude_served [OF c(1-3)])
  obtain st6 rd ex where r6: "call_run queue_tls sample_os {rude_arrival} (st4, Serves ?ready [0] To_receive, None)
      (st6, Serves ?ready [0] To_receive, Some (rd, ex, 0, Line 0))" "web st6 = web st4" "data_buf st6 = data_buf st4"
    by (rule reader_line [OF st4(1,2,4,5)])
  define st7 where "st7 = (with_clients [(0, c3)] st6)\<lparr>data_buf := buf\<rparr>"
  let ?r = "Some (rd, ex, 0, Line 0)"
  have s8: "message_call queue_tls sample_os (st6, Serves ?ready [0] To_receive, ?r)
      (st7, Serves ?ready [0] (Received INVALID_FRAME 2048), ?r)"
    using receive [of st6 0 c2 queue_tls INVALID_FRAME c3 buf 2048 sample_os ?ready "[]" ?r] c(4)
    by (simp add: st4 r6(2,3) one_client MSG_BUF_LEN_def st7_def)
  have s9: "message_call queue_tls sample_os (st7, Serves ?ready [0] (Received INVALID_FRAME 2048), ?r)
      (with_clients [(0, c4)] st7, Serves ?ready [0] Disconnected, ?r)"
    using hang_up [of INVALID_FRAME st7 0 c3 queue_tls c4 sample_os ?ready "[]" 2048 ?r] c(5)
    by (simp add: st7_def one_client return_codes)
  show thesis
    by (rule that [OF call_run.more [OF call_run.more [OF call_run_trans [OF r6(1) r4] listening [OF s8]] listening [OF s9]]]) simp
qed

end
