(* ===== verification/Interleaving_Faults.thy ===== *)
theory Interleaving_Faults
  imports Interleaving_Sockets
begin

text \<open>
  The calls that do not go through: for each program point of theory Interleaving the fault its call
  can end in. A thread that is neither waiting for a mutex nor at a fault always has a next call.
\<close>

section \<open>Calls that fault\<close>

inductive accept_fault :: "'s tls_api \<Rightarrow> 's arrival set \<Rightarrow> ('s, 'w) fine \<Rightarrow> fault \<Rightarrow> bool" for tls arrivals where
  admit_fault: "\<not> ended st \<Longrightarrow> ar \<in> arrivals \<Longrightarrow> accept_step tls ar (web st) = Inl x \<Longrightarrow>
    accept_fault tls arrivals (st, Nobody, r) x"
| shut_fault: "map_find (clients (web st)) i = Some c \<Longrightarrow> Disconnect tls c = Inl x \<Longrightarrow>
    accept_fault tls arrivals (st, Closes (i # is), r) x"

inductive message_fault :: "'s tls_api \<Rightarrow> 'w os_api \<Rightarrow> ('s, 'w) fine \<Rightarrow> fault \<Rightarrow> bool" for tls api where
  fill_fault: "\<not> selecting st \<Longrightarrow> fill_set (clients (web st)) (-1) = Inl x \<Longrightarrow>
    message_fault tls api (st, Nobody, r) x"
| test_fault: "map_find (clients (web st)) i = Some c \<Longrightarrow> fd_set_ok (socket c) = Inl x \<Longrightarrow>
    message_fault tls api (st, Serves ready (i # is) At_client, r) x"
| receive_fault: "map_find (clients (web st)) i = Some c \<Longrightarrow> Receive tls c (data_buf st) MSG_BUF_LEN = Inl x \<Longrightarrow>
    message_fault tls api (st, Serves ready (i # is) To_receive, r) x"
| handle_fault: "ret = READ_SUCCEED \<or> ret = READ_SUCCEED_DATA_AVAILABLE \<Longrightarrow> map_find (clients (web st)) i = Some c \<Longrightarrow>
    OnMessage api fresh (logsrv st) c (data_buf st) len = Inl x \<Longrightarrow>
    message_fault tls api (st, Serves ready (i # is) (Received ret len), None) x"
| hang_up_fault: "ret < 0 \<Longrightarrow> map_find (clients (web st)) i = Some c \<Longrightarrow> Disconnect tls c = Inl x \<Longrightarrow>
    message_fault tls api (st, Serves ready (i # is) (Received ret len), r) x"
| release_fault: "map_find (clients (web st)) i = Some c \<Longrightarrow> OnDisconnect api (logsrv st) c = Inl x \<Longrightarrow>
    message_fault tls api (st, Serves ready (i # is) Disconnected, None) x"

text \<open>The iterator of the log thread is used when the line is sent: it may dangle.\<close>

inductive log_fault :: "'s tls_api \<Rightarrow> 'w os_api \<Rightarrow> ('s, 'w) fine \<Rightarrow> fault \<Rightarrow> bool" for tls api where
  watch_fault: "watched st = None \<Longrightarrow> fill_logs (logs (logsrv st)) (-1) = Inl x \<Longrightarrow> log_fault tls api (st, q, None) x"
| look_fault: "k < length (logs (logsrv st)) \<Longrightarrow> d = logs (logsrv st) ! k \<Longrightarrow> fd_set_ok (log_fd d) = Inl x \<Longrightarrow>
    log_fault tls api (st, q, Some (rd, ex, k, Look)) x"
| orphan_fault: "k < length (logs (logsrv st)) \<Longrightarrow> d = logs (logsrv st) ! k \<Longrightarrow> fd_set_ok (log_fd d) = Inr u \<Longrightarrow>
    rd (log_fd d) \<Longrightarrow> map_find (clients (web st)) (log_client_id d) = None \<Longrightarrow>
    Cleanup api d (os (logsrv st)) = Inl x \<Longrightarrow> log_fault tls api (st, q, Some (rd, ex, k, Look)) x"
| line_fault: "k < length (logs (logsrv st)) \<Longrightarrow> d = logs (logsrv st) ! k \<Longrightarrow>
    GetNextLine api d (line_buf st) MSG_BUF_LEN (os (logsrv st)) = Inl x \<Longrightarrow>
    log_fault tls api (st, q, Some (rd, ex, k, Found i)) x"
| dangling: "map_find (clients (web st)) i = None \<Longrightarrow>
    log_fault tls api (st, q, Some (rd, ex, k, Line i)) UseAfterFree"
| send_fault: "map_find (clients (web st)) i = Some c \<Longrightarrow> Send tls c (cstr (line_buf st)) = Inl x \<Longrightarrow>
    log_fault tls api (st, q, Some (rd, ex, k, Line i)) x"
| check_fault: "k < length (logs (logsrv st)) \<Longrightarrow> d = logs (logsrv st) ! k \<Longrightarrow>
    check_except api ex d (os (logsrv st)) = Inl x \<Longrightarrow> log_fault tls api (st, q, Some (rd, ex, k, Check)) x"

inductive call_fault ::
  "'s tls_api \<Rightarrow> 'w os_api \<Rightarrow> 's arrival set \<Rightarrow> ('s, 'w) fine \<Rightarrow> actor \<Rightarrow> fault \<Rightarrow> bool"
  for tls api arrivals where
  "accept_fault tls arrivals s x \<Longrightarrow> call_fault tls api arrivals s Accepter x"
| "message_fault tls api s x \<Longrightarrow> call_fault tls api arrivals s Listener x"
| "log_fault tls api s x \<Longrightarrow> call_fault tls api arrivals s Reader x"

inductive_cases accepter_faults: "call_fault tls api arrivals s Accepter x"
inductive_cases listener_faults: "call_fault tls api arrivals s Listener x"
inductive_cases reader_faults: "call_fault tls api arrivals s Reader x"

section \<open>Which faults\<close>

lemma OnMessage_fault: "OnMessage api fresh a c buf len = Inl x \<Longrightarrow> x \<in> stream_faults"
  using lf.handle_fault by (auto simp: OnMessage_request bind_r_eq_Inl)

lemma OnDisconnect_fault: "OnDisconnect api a c = Inl x \<Longrightarrow> x \<in> stream_faults"
  using lf.release_fault by (auto simp: OnDisconnect_def bind_r_eq_Inl)

text \<open>With an open stream in every description the handlers have no faults.\<close>

lemma handlers_open:
  assumes "logs_open a"
  shows "OnMessage api fresh a c buf len \<noteq> Inl x" and "OnDisconnect api a c \<noteq> Inl x"
  using lt.total.handle_fault [OF assms] lt.total.release_fault [OF assms]
  by (auto simp: OnMessage_request OnDisconnect_def bind_r_eq_Inl)

lemma accept_fault_cases:
  assumes "accept_fault tls arrivals (st, q, r) x" and ok: "fine_ok (st, q, r)"
  shows "x = NoReturn \<or> x = SignedOverflow \<and>
    (\<forall>k. id_counter (web st) \<le> k \<and> k \<le> INT_MAX \<longrightarrow> get_client (web st) k \<noteq> None)"
  using assms(1)
proof cases
  case admit_fault
  with accept_step_fault show ?thesis by blast
next
  case (shut_fault i c "is")
  with ok have "member_ok (Closes (i # is)) i c" by (simp add: fine_ok_def members_ok_def)
  with Disconnect_fault [OF _ _ shut_fault(3)] show ?thesis by (simp add: member_ok_def)
qed

lemma message_fault_cases:
  assumes "message_fault tls api (st, q, r) x" and ok: "fine_ok (st, q, r)" and "ssl_read_ok tls"
  shows "x \<in> peer_faults \<or> x \<in> stream_faults \<and> \<not> logs_open (logsrv st)"
  using assms(1)
proof cases
  case fill_fault
  with ok have "clients_ok (clients (web st))" by (simp add: fine_ok_def members_clients_ok)
  with fill_set_covers [of "clients (web st)" "-1"] fill_fault(3) show ?thesis by (auto simp: clients_ok_def entry_ok_def)
next
  case (test_fault i c ready "is")
  with ok have "member_ok (Serves ready (i # is) At_client) i c" by (simp add: fine_ok_def members_ok_def)
  with test_fault(3) show ?thesis by (simp add: member_ok_def fd_ok_def fd_set_ok_def FD_SETSIZE_def split: if_splits)
next
  case (receive_fault i c ready "is")
  with ok have "member_ok (Serves ready (i # is) To_receive) i c" "length (data_buf st) = 2048"
    by (simp_all add: fine_ok_def members_ok_def)
  with Receive_fault [OF assms(3) _ _ _ receive_fault(3) [unfolded MSG_BUF_LEN_def]] show ?thesis by (simp add: member_ok_def)
next
  case handle_fault
  with OnMessage_fault handlers_open(1) show ?thesis by blast
next
  case (hang_up_fault ret i c ready "is" len)
  with ok have "member_ok (Serves ready (i # is) (Received ret len)) i c" by (simp add: fine_ok_def members_ok_def)
  with Disconnect_fault [OF _ _ hang_up_fault(4)] show ?thesis by (simp add: member_ok_def peer_faults_def)
next
  case release_fault
  with OnDisconnect_fault handlers_open(2) show ?thesis by blast
qed

lemma fill_logs_fault: "fill_logs ds n = Inl x \<Longrightarrow> x = OutOfBounds"
  by (induction ds arbitrary: n) (auto simp: bind_r_eq_Inl fd_set_ok_def split: if_splits)

lemma fd_set_fault: "fd_set_ok fd = Inl x \<Longrightarrow> x \<in> log_faults"
  by (auto simp: fd_set_ok_def log_faults_def split: if_splits)

lemma check_except_fault: "check_except api ex d w = Inl x \<Longrightarrow> x \<in> log_faults"
  by (auto simp: check_except_def bind_r_eq_Inl dest: fd_set_fault Cleanup_fault stream_log_faults split: if_splits)

lemma log_fault_cases:
  assumes "log_fault tls api s x" and ok: "fine_ok s" "sockets_ok s" and "fgets_ok api"
  shows "x \<in> log_faults"
  using assms(1)
proof cases
  case watch_fault
  with fill_logs_fault show ?thesis by (auto simp: log_faults_def)
next
  case look_fault
  show ?thesis by (rule fd_set_fault [OF look_fault(4)])
next
  case orphan_fault
  show ?thesis by (rule stream_log_faults [OF Cleanup_fault [OF orphan_fault(7)]])
next
  case (line_fault k st d q rd ex i)
  with ok(1) have "length (line_buf st) = 2048" by (simp add: fine_ok_def)
  from stream_log_faults [OF GetNextLine_fault [OF assms(4) this line_fault(4) [unfolded MSG_BUF_LEN_def]]] show ?thesis .
next
  case dangling
  then show ?thesis by (simp add: log_faults_def)
next
  case (send_fault st i c q rd ex k)
  note l = line_client [OF ok(1) [unfolded send_fault(1)] _ send_fault(2), simplified]
  show ?thesis
  proof (cases "closed q i")
    case True
    with sockets_client [OF ok(2) [unfolded send_fault(1)] send_fault(2)] Send_closed [OF l(1)] l(3) send_fault(3)
    show ?thesis by (simp add: log_faults_def)
  next
    case False
    with Send_fault [OF l(1,2) _ send_fault(3)] l(3) show ?thesis by (simp add: log_faults_def)
  qed
next
  case check_fault
  show ?thesis by (rule check_except_fault [OF check_fault(4)])
qed

section \<open>The owner of a mutex goes on\<close>

text \<open>Where the message thread needs the mutex of the list to go on.\<close>

fun needs_logs :: "hold \<Rightarrow> bool" where
  "needs_logs (Serves ready (i # is) (Received ret len)) = (ret = READ_SUCCEED \<or> ret = READ_SUCCEED_DATA_AVAILABLE)"
| "needs_logs (Serves ready (i # is) Disconnected) = True"
| "needs_logs _ = False"

definition goes ::
  "'s tls_api \<Rightarrow> 'w os_api \<Rightarrow> 's arrival set \<Rightarrow> ('s, 'w) fine \<Rightarrow> actor \<Rightarrow> bool" where
  "goes tls api arrivals s t \<longleftrightarrow>
     (\<exists>s'. call_step tls api arrivals s t s') \<or> (\<exists>x. call_fault tls api arrivals s t x)"

lemma accepter_goes:
  "accept_call tls arrivals s s' \<Longrightarrow> goes tls api arrivals s Accepter"
  "accept_fault tls arrivals s x \<Longrightarrow> goes tls api arrivals s Accepter"
  unfolding goes_def by (blast intro: call_step.intros call_fault.intros)+

lemma listener_goes:
  "message_call tls api s s' \<Longrightarrow> goes tls api arrivals s Listener"
  "message_fault tls api s x \<Longrightarrow> goes tls api arrivals s Listener"
  unfolding goes_def by (blast intro: call_step.intros call_fault.intros)+

lemma reader_goes:
  "log_call tls api s s' \<Longrightarrow> goes tls api arrivals s Reader"
  "log_fault tls api s x \<Longrightarrow> goes tls api arrivals s Reader"
  unfolding goes_def by (blast intro: call_step.intros call_fault.intros)+

text \<open>The results of functions that return two or four values.\<close>

lemma result_cases:
  obtains (fault) x where "res = Inl x" | (two) a b where "res = Inr (a, b)"
  by (cases res) auto

lemma result4_cases:
  obtains (fault) x where "res = Inl x" | (four) a b c d where "res = Inr (a, b, c, d)"
  by (cases res) auto

lemma client_there:
  assumes "fine_ok (st, q, r)" and "q = Closes (i # is) \<or> q = Serves ready (i # is) pt"
  obtains c where "map_find (clients (web st)) i = Some c"
  using assms by (auto simp: fine_ok_def hold_ok_def in_keys_iff)

lemma shutdown_goes:
  assumes "fine_ok (st, Closes is, r)"
  shows "goes tls api arrivals (st, Closes is, r) Accepter"
proof (cases "is")
  case Nil
  show ?thesis unfolding Nil by (rule accepter_goes(1) [OF clear])
next
  case (Cons i is1)
  obtain c where c: "map_find (clients (web st)) i = Some c" by (rule client_there [OF assms [unfolded Cons]]) simp
  show ?thesis unfolding Cons
    by (cases "Disconnect tls c")
      (rule accepter_goes(1) [OF shut_one [OF c]] accepter_goes(2) [OF shut_fault [OF c]], assumption)+
qed

lemma received_goes:
  assumes c: "map_find (clients (web st)) i = Some c"
    and r: "r = None \<or> \<not> needs_logs (Serves ready (i # is) (Received ret len))"
  shows "goes tls api arrivals (st, Serves ready (i # is) (Received ret len), r) Listener"
proof -
  consider "ret = READ_SUCCEED \<or> ret = READ_SUCCEED_DATA_AVAILABLE" | "ret < 0"
    | "0 \<le> ret" "ret \<noteq> READ_SUCCEED" "ret \<noteq> READ_SUCCEED_DATA_AVAILABLE" by linarith
  then show ?thesis
  proof cases
    case 1
    with r have n: "r = None" by simp
    show ?thesis
    proof (cases "OnMessage api undefined (logsrv st) c (data_buf st) len" rule: result_cases)
      case (fault x)
      show ?thesis unfolding n by (rule listener_goes(2) [OF handle_fault [OF 1 c fault]])
    next
      case (two a c1)
      show ?thesis by (rule listener_goes(1) [OF handle [OF 1 c two disjI1 [OF n]]])
    qed
  next
    case 2
    show ?thesis
      by (cases "Disconnect tls c")
        (rule listener_goes(1) [OF hang_up [OF 2 c]] listener_goes(2) [OF hang_up_fault [OF 2 c]], assumption)+
  next
    case 3
    show ?thesis by (rule listener_goes(1) [OF wait_more [OF 3]])
  qed
qed

lemma serving_goes:
  assumes ok: "fine_ok (st, Serves ready is pt, r)" and r: "r = None \<or> \<not> needs_logs (Serves ready is pt)"
  shows "goes tls api arrivals (st, Serves ready is pt, r) Listener"
proof (cases "is")
  case Nil
  with ok have "pt = At_client" by (simp add: fine_ok_def hold_ok_def serve_point_ok_def)
  show ?thesis unfolding Nil \<open>pt = At_client\<close> by (rule listener_goes(1) [OF end_pass])
next
  case (Cons i is1)
  obtain c where c: "map_find (clients (web st)) i = Some c" by (rule client_there [OF ok [unfolded Cons]]) simp
  show ?thesis
  proof (cases pt)
    case At_client
    show ?thesis unfolding Cons At_client
      by (cases "fd_set_ok (socket c)"; cases "ready (socket c)")
        (rule listener_goes(2) [OF test_fault [OF c]] listener_goes(1) [OF is_ready [OF c]]
          listener_goes(1) [OF not_ready [OF c]], assumption+)+
  next
    case To_receive
    show ?thesis unfolding Cons To_receive
      by (cases "Receive tls c (data_buf st) MSG_BUF_LEN" rule: result4_cases)
        (rule listener_goes(2) [OF receive_fault [OF c]] listener_goes(1) [OF receive [OF c]], assumption)+
  next
    case (Received ret len)
    show ?thesis unfolding Cons Received by (rule received_goes [OF c]) (use r in \<open>simp add: Cons Received\<close>)
  next
    case Disconnected
    with r have n: "r = None" by (simp add: Cons)
    show ?thesis unfolding Cons Disconnected n
      by (cases "OnDisconnect api (logsrv st) c" rule: result_cases)
        (rule listener_goes(2) [OF release_fault [OF c]] listener_goes(1) [OF release [OF c]], assumption)+
  next
    case Released
    show ?thesis unfolding Cons Released by (rule listener_goes(1) [OF erase])
  qed
qed

lemma look_goes:
  assumes k: "k < length (logs (logsrv st))"
  shows "goes tls api arrivals (st, q, Some (rd, ex, k, Look)) Reader"
proof (cases "fd_set_ok (log_fd (logs (logsrv st) ! k))")
  case (Inl x)
  show ?thesis by (rule reader_goes(2) [OF look_fault [OF k refl Inl]])
next
  case (Inr u)
  show ?thesis
  proof (cases "rd (log_fd (logs (logsrv st) ! k))")
    case False
    show ?thesis by (rule reader_goes(1) [OF no_line [where rd = rd, OF k refl Inr False]])
  next
    case True
    show ?thesis
    proof (cases "map_find (clients (web st)) (log_client_id (logs (logsrv st) ! k))")
      case None
      show ?thesis
        by (cases "Cleanup api (logs (logsrv st) ! k) (os (logsrv st))" rule: result_cases)
          (rule reader_goes(2) [OF orphan_fault [where rd = rd, OF k refl Inr True None]]
            reader_goes(1) [OF orphan [where rd = rd, OF k refl Inr True None]], assumption)+
    next
      case (Some c)
      show ?thesis by (rule reader_goes(1) [OF find_client [where rd = rd, OF k refl Inr True Some]])
    qed
  qed
qed

lemma check_goes:
  assumes k: "k < length (logs (logsrv st))"
  shows "goes tls api arrivals (st, q, Some (rd, ex, k, Check)) Reader"
proof (cases "check_except api ex (logs (logsrv st) ! k) (os (logsrv st))" rule: result_cases)
  case (fault x)
  show ?thesis by (rule reader_goes(2) [OF check_fault [OF k refl fault]])
next
  case (two kept w)
  show ?thesis
  proof (cases kept)
    case None
    show ?thesis by (rule reader_goes(1) [OF drop_log [OF k refl two [unfolded None]]])
  next
    case (Some d)
    show ?thesis by (rule reader_goes(1) [OF keep_log [OF k refl two [unfolded Some]]])
  qed
qed

lemma reading_goes:
  assumes ok: "fine_ok (st, q, Some (rd, ex, k, pt))"
  shows "goes tls api arrivals (st, q, Some (rd, ex, k, pt)) Reader"
proof -
  have k: "k \<le> length (logs (logsrv st))" "pt \<noteq> Look \<Longrightarrow> k < length (logs (logsrv st))"
    using ok by (simp_all add: fine_ok_def reading_ok_def)
  show ?thesis
  proof (cases pt)
    case Look
    show ?thesis
    proof (cases "k = length (logs (logsrv st))")
      case True
      show ?thesis unfolding Look True by (rule reader_goes(1) [OF end_logs])
    next
      case False
      with k(1) have "k < length (logs (logsrv st))" by simp
      then show ?thesis unfolding Look by (rule look_goes)
    qed
  next
    case (Found i)
    show ?thesis unfolding Found
      by (cases "GetNextLine api (logs (logsrv st) ! k) (line_buf st) MSG_BUF_LEN (os (logsrv st))" rule: result4_cases)
        (rule reader_goes(2) [OF line_fault [OF k(2) refl]] reader_goes(1) [OF get_line [OF k(2) refl]],
         simp add: Found, assumption)+
  next
    case (Line i)
    show ?thesis
    proof (cases "map_find (clients (web st)) i")
      case None
      show ?thesis unfolding Line by (rule reader_goes(2) [OF dangling [OF None]])
    next
      case (Some c)
      show ?thesis unfolding Line
        by (cases "Send tls c (cstr (line_buf st))" rule: result_cases)
          (rule reader_goes(2) [OF send_fault [OF Some]] reader_goes(1) [OF send_line [OF Some]], assumption)+
    qed
  next
    case Check
    with k(2) check_goes show ?thesis by simp
  qed
qed

section \<open>The log thread gives the list back\<close>

text \<open>
  \<open>log_calls s n s'\<close>: a run of calls from \<open>s\<close> to \<open>s'\<close> in which the log thread makes \<open>n\<close> calls, each
  while it owns the mutex of the list, and the other threads as many as they like.
\<close>

inductive log_calls ::
  "'s tls_api \<Rightarrow> 'w os_api \<Rightarrow> 's arrival set \<Rightarrow> ('s, 'w) fine \<Rightarrow> nat \<Rightarrow> ('s, 'w) fine \<Rightarrow> bool"
  for tls api arrivals where
  no_call: "log_calls tls api arrivals s 0 s"
| other_call: "log_calls tls api arrivals s n s1 \<Longrightarrow> call_step tls api arrivals s1 t s2 \<Longrightarrow> t \<noteq> Reader \<Longrightarrow>
    log_calls tls api arrivals s n s2"
| own_call: "log_calls tls api arrivals s n (st, q, Some x) \<Longrightarrow> call_step tls api arrivals (st, q, Some x) Reader s2 \<Longrightarrow>
    log_calls tls api arrivals s (Suc n) s2"

fun calls_left :: "read_point \<Rightarrow> nat" where
  "calls_left Look = 3" | "calls_left (Found i) = 2" | "calls_left (Line i) = 1" | "calls_left Check = 0"

definition reader_work :: "('s, 'w) fine \<Rightarrow> nat" where
  "reader_work s = (case s of (st, q, r) \<Rightarrow> case r of None \<Rightarrow> 0
     | Some (rd, ex, k, pt) \<Rightarrow> Suc (4 * (length (logs (logsrv st)) - k) + calls_left pt))"

lemma calls_left_le: "calls_left pt \<le> 3"
  by (cases pt) simp_all

lemma reader_work_le: "reader_work (st, q, r) \<le> 4 * length (logs (logsrv st)) + 4"
proof (cases r)
  case (Some x)
  obtain rd ex k pt where x: "x = (rd, ex, k, pt)" by (cases x)
  have "4 * (length (logs (logsrv st)) - k) \<le> 4 * length (logs (logsrv st))" by simp
  with calls_left_le [of pt] show ?thesis by (simp add: Some x reader_work_def)
qed (simp add: reader_work_def)

lemma length_without: "k < length xs \<Longrightarrow> length (without k xs) = length xs - 1"
  by (simp add: without_def)

lemma log_call_work:
  assumes "log_call tls api (st, q, Some x) s'"
  shows "reader_work s' < reader_work (st, q, Some x)"
  using assms by cases (auto simp: reader_work_def length_without split: if_splits)

text \<open>The other threads leave the list alone while the log thread owns its mutex.\<close>

lemma other_call_work:
  assumes "call_step tls api arrivals s t s'" and "t \<noteq> Reader"
  shows "reader_work s' = reader_work s"
  using assms(1)
proof cases
  case accepting
  from accepting(2) show ?thesis by cases (auto simp: reader_work_def)
next
  case listening
  from listening(2) show ?thesis by cases (auto simp: reader_work_def split: option.split)
qed (use assms(2) in \<open>simp_all add: reader_work_def\<close>)

lemma log_calls_work: "log_calls tls api arrivals s n s' \<Longrightarrow> n + reader_work s' \<le> reader_work s"
proof (induction rule: log_calls.induct)
  case (other_call s n s1 t s2)
  with other_call_work show ?case by metis
next
  case (own_call s n st q x s2)
  from own_call.hyps(2) have "log_call tls api (st, q, Some x) s2" by cases
  with log_call_work own_call.IH show ?case by fastforce
qed simp

end
