(* ===== verification/Interleaving_Props.thy ===== *)
theory Interleaving_Props
  imports Interleaving_Sample Interleaving_Faults
begin

text \<open>
  The properties of the whole program, for the calls of its threads in any order: the refinement of
  theory Protocol, the invariant, what is sent, what the missing lock of the log thread does, what
  can stop a call, and that the owner of a mutex goes on.
\<close>

section \<open>Refinement\<close>

text \<open>
  C1: The program is a run of the abstract machine call by call. The three threads run in any order,
  with a change of thread possible between any two calls of a method on the shared data: the log
  thread may come between a client's \<open>Receive\<close>, \<open>Disconnect\<close> and \<open>OnDisconnect\<close>, and the other two
  between its look-up, its read and its \<open>Send\<close>. Still each call is a sequence of the events its
  thread may cause, and the whole history from the start explains the clients and requests.
\<close>

theorem interleaved_refines:
  assumes "ssl_read_ok tls" and "\<forall>ar \<in> arrivals. arrival_ok ar" and "starts st0"
    and "call_run tls api arrivals (st0, Nobody, None) s" and "call_step tls api arrivals s t s'"
  shows "\<exists>history es. happens history ({}, []) = Some (fine_board s) \<and> (\<forall>e \<in> set es. may t e) \<and>
    happens es (fine_board s) = Some (fine_board s')"
proof -
  have "starts_fine (st0, Nobody, None)" using assms(3) by (simp add: starts_fine_def)
  from call_run_history [OF assms(4) this assms(1,2)] obtain history where
    h: "fine_ok s" "happens history ({}, []) = Some (fine_board s)" by blast
  with call_step_outcome [OF assms(5) h(1) assms(1,2)] show ?thesis unfolding explained_def by blast
qed

theorem interleaved_refines_witness:
  "\<exists>s s' history es. call_run queue_tls sample_os sample_arrivals (sample_start, Nobody, None) s \<and>
     call_step queue_tls sample_os sample_arrivals s Accepter s' \<and> fst (fine_board s) = {0} \<and> fst (fine_board s') = {} \<and>
     happens history ({}, []) = Some (fine_board s) \<and> (\<forall>e \<in> set es. may Accepter e) \<and>
     happens es (fine_board s) = Some (fine_board s')"
proof -
  obtain st c rd ex where r:
    "call_run queue_tls sample_os sample_arrivals (sample_start, Nobody, None) (st, Closes [], Some (rd, ex, 0, Line 0))"
    "clients (web st) = [(0, c)]" by (rule sample_shutdown)
  let ?r = "Some (rd, ex, 0, Line 0)"
  have s: "call_step queue_tls sample_os sample_arrivals (st, Closes [], ?r) Accepter
      ((with_clients [] st)\<lparr>ended := True\<rparr>, Nobody, ?r)" by (rule accepting [OF clear])
  have "fst (fine_board (st, Closes [], ?r)) = {0}" "fst (fine_board ((with_clients [] st)\<lparr>ended := True\<rparr>, Nobody, ?r)) = {}"
    by (simp_all add: fine_board_def r(2) keys_def)
  with interleaved_refines [OF queue_tls_ok(1) sample_arrivals_ok(1) sample_starts r(1) s] r(1) s show ?thesis by blast
qed



section \<open>What holds between any two calls\<close>

text \<open>
  C7: Between any two calls the data are in order: every client of the map has its own id and
  buffers of the right sizes, a position inside the buffer until its \<open>Receive\<close> has failed, and a
  socket that fits the set of \<^verbatim>\<open>select\<close> until its \<open>Disconnect\<close>; so the message thread, when it owns the
  mutex, fills its set without writing outside; and each request on the list has a checked name and,
  until the shutdown, an owner that has not been released.
\<close>

theorem interleaved_invariant:
  assumes "ssl_read_ok tls" and "\<forall>ar \<in> arrivals. arrival_ok ar" and "starts st0"
    and "call_run tls api arrivals (st0, Nobody, None) (st, q, r)"
  shows "(\<forall>i c. get_client (web st) i = Some c \<longrightarrow> cl_id c = i \<and> bufs_ok c \<and>
       (\<not> leaving q i \<longrightarrow> client_ok c) \<and> (\<not> closed q i \<longrightarrow> fd_ok c)) \<and>
    (q = Nobody \<longrightarrow> (\<exists>nfds. fill_set (clients (web st)) (-1) = Inr nfds)) \<and>
    (\<forall>(i, n) \<in> set (requests (logsrv st)). \<not> sublist (bytes_of ''..'') n \<and>
       (\<not> ended st \<longrightarrow> i \<in> present q (clients (web st))))"
proof -
  have s0: "starts_fine (st0, Nobody, None)" using assms(3) by (simp add: starts_fine_def)
  from call_run_history [OF assms(4) s0 assms(1,2)] have ok: "members_ok q (clients (web st))"
    by (simp add: fine_ok_def)
  have "\<exists>nfds. fill_set (clients (web st)) (-1) = Inr nfds" if "q = Nobody"
    using ok that fill_set_covers [of "clients (web st)" "-1"]
    by (auto simp: members_clients_ok clients_ok_def entry_ok_def)
  moreover note call_run_requests [OF assms(4) s0 assms(1,2)]
  ultimately show ?thesis
    using ok unfolding members_ok_def member_ok_def get_client_def message_literals by blast
qed

theorem interleaved_invariant_witness:
  "\<exists>st r c. call_run queue_tls sample_os sample_arrivals (sample_start, Nobody, None) (st, Closes [], r) \<and>
     get_client (web st) 0 = Some c \<and> cl_id c = 0 \<and> bufs_ok c"
proof -
  obtain st c rd ex where r:
    "call_run queue_tls sample_os sample_arrivals (sample_start, Nobody, None) (st, Closes [], Some (rd, ex, 0, Line 0))"
    "clients (web st) = [(0, c)]" by (rule sample_shutdown)
  have "get_client (web st) 0 = Some c" using r(2) by (simp add: get_client_def map_find_def)
  with interleaved_invariant [OF queue_tls_ok(1) sample_arrivals_ok(1) sample_starts r(1)] r(1) show ?thesis by blast
qed



section \<open>The log thread without the mutex\<close>

text \<open>
  C4: The iterator the log thread has found a client with stays valid while it reads a line and sends
  it, although it does not own the mutex of the map: a client is only erased when its logs have
  been deleted, which waits for the mutex of the list. But the shutdown clears the map without
  that mutex: the iterator dangles exactly when the shutdown is over, and such states are reached.
\<close>

theorem iterator_dangles_iff:
  assumes "ssl_read_ok tls" and "\<forall>ar \<in> arrivals. arrival_ok ar" and "starts st0"
    and "call_run tls api arrivals (st0, Nobody, None) (st, q, Some (rd, ex, k, pt))" and "pt = Found i \<or> pt = Line i"
  shows "k < length (logs (logsrv st)) \<and> log_client_id (logs (logsrv st) ! k) = i \<and>
    (get_client (web st) i = None \<longleftrightarrow> ended st)"
proof -
  have "starts_fine (st0, Nobody, None)" using assms(3) by (simp add: starts_fine_def)
  from call_run_history [OF assms(4) this assms(1,2)] have "fine_ok (st, q, Some (rd, ex, k, pt))" by blast
  then have "reading_ok (logs (logsrv st)) (keys (clients (web st))) (ended st) (Some (rd, ex, k, pt))"
    "ended st \<longrightarrow> keys (clients (web st)) = {}" by (simp_all add: fine_ok_def)
  moreover note reading_okD [OF this(1) assms(5)]
  moreover have "get_client (web st) i = None \<longleftrightarrow> i \<notin> keys (clients (web st))" by (simp add: get_client_def in_keys_iff)
  ultimately show ?thesis by (cases "ended st") simp_all
qed

theorem iterator_dangles_iff_witness:
  "\<exists>st rd ex. call_run queue_tls sample_os sample_arrivals (sample_start, Nobody, None)
     (st, Nobody, Some (rd, ex, 0, Line 0)) \<and> ended st \<and> get_client (web st) 0 = None \<and> 0 < length (logs (logsrv st))"
proof -
  obtain st c rd ex st' where r:
    "call_run queue_tls sample_os sample_arrivals (sample_start, Nobody, None) (st', Nobody, Some (rd, ex, 0, Line 0))"
    "ended st'" by (rule sample_shutdown)
  from iterator_dangles_iff [OF queue_tls_ok(1) sample_arrivals_ok(1) sample_starts r(1)] r show ?thesis by blast
qed

text \<open>
  C3: When the log thread is about to send a line to the client it has found, the call writes outside
  the sets of \<^verbatim>\<open>select\<close> exactly if the client has been disconnected and not yet erased, by the
  message thread or by the shutdown: its socket is -1 then. Nothing keeps the threads from this,
  and it happens in states that are reached. Otherwise the call can only wait for ever.
\<close>

theorem send_faults_iff:
  assumes "ssl_read_ok tls" and "\<forall>ar \<in> arrivals. arrival_ok ar" and "starts st0"
    and "call_run tls api arrivals (st0, Nobody, None) (st, q, Some (rd, ex, k, Line i))"
    and "get_client (web st) i = Some c"
  shows "(Send tls c (cstr (line_buf st)) = Inl OutOfBounds \<longleftrightarrow> closed q i) \<and>
    (\<forall>x. Send tls c (cstr (line_buf st)) = Inl x \<longrightarrow> \<not> closed q i \<longrightarrow> x = NoReturn)"
proof -
  have s0: "starts_fine (st0, Nobody, None)" using assms(3) by (simp add: starts_fine_def)
  from call_run_history [OF assms(4) s0 assms(1,2)] have ok: "fine_ok (st, q, Some (rd, ex, k, Line i))" by blast
  have f: "map_find (clients (web st)) i = Some c" using assms(5) by (simp add: get_client_def)
  have l: "bufs_ok c" "\<not> closed q i \<Longrightarrow> fd_ok c" "length (cstr (line_buf st)) \<le> 2048"
    using line_client [OF ok _ f] by simp_all
  have "Send tls c (cstr (line_buf st)) = Inl OutOfBounds" if "closed q i"
    using Send_closed [OF l(1)] l(3) sockets_client [OF call_run_sockets [OF assms(4) s0 assms(1,2)] f] that by simp
  moreover have "x = NoReturn" if "Send tls c (cstr (line_buf st)) = Inl x" "\<not> closed q i" for x
    using Send_fault [OF l(1,2) _ that(1)] l(3) that(2) by simp
  ultimately show ?thesis by blast
qed

theorem send_faults_iff_witness:
  "\<exists>st rd ex c. call_run queue_tls sample_os {rude_arrival} (sample_start, Nobody, None)
     (st, Serves (\<lambda>fd. True) [0] Disconnected, Some (rd, ex, 0, Line 0)) \<and> get_client (web st) 0 = Some c \<and>
     Send queue_tls c (cstr (line_buf st)) = Inl OutOfBounds"
proof -
  obtain st c rd ex where r: "call_run queue_tls sample_os {rude_arrival} (sample_start, Nobody, None)
      (st, Serves (\<lambda>fd. True) [0] Disconnected, Some (rd, ex, 0, Line 0))"
    "clients (web st) = [(0, c)]" by (rule sample_race)
  have c: "get_client (web st) 0 = Some c" using r(2) by (simp add: get_client_def map_find_def)
  have "\<forall>ar \<in> {rude_arrival}. arrival_ok ar" by (simp add: rude_client_fields)
  from send_faults_iff [OF queue_tls_ok(1) this sample_starts r(1) c]
  have "Send queue_tls c (cstr (line_buf st)) = Inl OutOfBounds" by simp
  with r(1) c show ?thesis by blast
qed

section \<open>What can stop a call\<close>



text \<open>
  C9: No thread waits for a mutex whose owner cannot go on. Between any two calls the accept thread,
  when it owns the mutex of the clients, and the log thread, when it owns that of the list,
  have a next call, which goes through or ends in a fault; and so has the message thread when it
  owns the mutex of the clients, unless it needs that of the list, which the log thread has.
\<close>

theorem interleaved_progress:
  assumes "ssl_read_ok tls" and "\<forall>ar \<in> arrivals. arrival_ok ar" and "starts st0"
    and "call_run tls api arrivals (st0, Nobody, None) (st, q, r)"
  shows "((\<exists>is. q = Closes is) \<longrightarrow> goes tls api arrivals (st, q, r) Accepter) \<and>
    ((\<exists>ready is pt. q = Serves ready is pt) \<and> (r = None \<or> \<not> needs_logs q) \<longrightarrow>
       goes tls api arrivals (st, q, r) Listener) \<and>
    (r \<noteq> None \<longrightarrow> goes tls api arrivals (st, q, r) Reader)"
proof -
  have "starts_fine (st0, Nobody, None)" using assms(3) by (simp add: starts_fine_def)
  from call_run_history [OF assms(4) this assms(1,2)] have ok: "fine_ok (st, q, r)" by blast
  have "goes tls api arrivals (st, q, r) Accepter" if "q = Closes is" for "is"
    using ok shutdown_goes unfolding that by blast
  moreover have "goes tls api arrivals (st, q, r) Listener"
    if "q = Serves ready is pt" "r = None \<or> \<not> needs_logs q" for ready "is" pt
    using ok serving_goes that(2) unfolding that(1) by blast
  moreover have "goes tls api arrivals (st, q, r) Reader" if "r = Some (rd, ex, k, pt)" for rd ex k pt
    using ok reading_goes unfolding that by blast
  ultimately show ?thesis by (cases r) auto
qed

theorem interleaved_progress_witness:
  "\<exists>st rd ex. call_run queue_tls sample_os {rude_arrival} (sample_start, Nobody, None)
       (st, Serves (\<lambda>fd. True) [0] Disconnected, Some (rd, ex, 0, Line 0)) \<and>
     goes queue_tls sample_os {rude_arrival} (st, Serves (\<lambda>fd. True) [0] Disconnected, Some (rd, ex, 0, Line 0)) Reader"
proof -
  obtain st c rd ex where r: "call_run queue_tls sample_os {rude_arrival} (sample_start, Nobody, None)
      (st, Serves (\<lambda>fd. True) [0] Disconnected, Some (rd, ex, 0, Line 0))" by (rule sample_race)
  have "\<forall>ar \<in> {rude_arrival}. arrival_ok ar" by (simp add: rude_client_fields)
  from interleaved_progress [OF queue_tls_ok(1) this sample_starts r] r show ?thesis by blast
qed

text \<open>
  C10: The log thread gives the mutex of the list back: however its calls and those of the others
  come, it makes at most four calls for each log of the list it has found, and four more, before
  it has let go of the mutex, or one of its calls ends in a fault.
\<close>

theorem reader_lets_go:
  assumes "log_calls tls api arrivals (st, q, r) n s'"
  shows "n \<le> 4 * length (logs (logsrv st)) + 4"
  using log_calls_work [OF assms] reader_work_le [of st q r] by linarith

theorem reader_lets_go_witness:
  "\<exists>st s'. log_calls queue_tls sample_os sample_arrivals (st, Nobody, Some (\<lambda>_. False, \<lambda>_. False, 0, Look)) 3 s' \<and>
     length (logs (logsrv st)) = 1 \<and> (3 :: nat) \<le> 4 * length (logs (logsrv st)) + 4 \<and> snd (snd s') = None"
proof -
  let ?no = "\<lambda>_ :: int. False"
  define st where "st = sample_start\<lparr>logsrv := session_logs\<rparr>"
  have l: "logs (logsrv st) = [session_log]" "fd_set_ok (log_fd session_log) = Inr ()"
    by (simp_all add: st_def session_logs_def session_log_def fd_set_ok_def FD_SETSIZE_def)
  have k: "0 < length (logs (logsrv st))" "session_log = logs (logsrv st) ! 0" by (simp_all add: l(1))
  have e: "check_except sample_os ?no session_log (os (logsrv st)) = Inr (Some session_log, os (logsrv st))"
    by (simp add: check_except_def l(2))
  let ?st = "with_logs [session_log] (os (logsrv st)) st"
  note c1 = no_line [where rd = ?no and ex = ?no, OF k l(2), simplified]
  have c2: "log_call queue_tls sample_os (st, Nobody, Some (?no, ?no, 0, Check)) (?st, Nobody, Some (?no, ?no, 1, Look))"
    using keep_log [OF k e, of queue_tls Nobody ?no] by (simp add: l(1))
  have c3: "log_call queue_tls sample_os (?st, Nobody, Some (?no, ?no, 1, Look)) (?st\<lparr>watched := None\<rparr>, Nobody, None)"
    using end_logs [of queue_tls sample_os ?st Nobody ?no ?no] by simp
  note run = own_call [OF own_call [OF own_call [OF no_call logging [OF c1]] logging [OF c2]] logging [OF c3], of sample_arrivals]
  from reader_lets_go [OF run] run show ?thesis
    by (intro exI [of _ st] exI [of _ "(?st\<lparr>watched := None\<rparr>, Nobody, None)"]) (simp add: l(1) numeral_3_eq_3)
qed

end
