(* ===== verification/Threads.thy ===== *)
theory Threads
  imports Server LogServer
begin

text \<open>
  The three threads of the program and their locks: the accept thread
  (\<open>WebSocketServer::ListenConnections\<close>), the message thread (\<open>WebSocketServer::ListenMessages\<close>,
  which calls the handlers of the log server) and the log thread (\<open>LogServer::Run\<close>), the two
  mutexes \<^verbatim>\<open>clients_mutex\<close> and \<^verbatim>\<open>logs_mutex\<close> and the two condition variables. Each thread is a
  step relation over its program points; of the data only the sizes of the map and of the
  list are kept, which decide about waiting and signalling. What a thread does to the data at
  a point is the subject of theories Server and LogServer.
\<close>

section \<open>Program points\<close>

datatype thread = AcceptT | MessageT | LogT

text \<open>
  Accept thread: setting up, the test of \<^verbatim>\<open>stop\<close>, the blocking \<^verbatim>\<open>accept\<close>, the insertion between
  lock and unlock, and the shutdown of all clients between lock and unlock.
\<close>

datatype accept_point = A_setup | A_loop | A_accept | A_lock | A_insert | A_unlock |
  A_end_lock | A_end_clear | A_end_unlock | A_done

text \<open>
  Message thread: the test of \<^verbatim>\<open>stop\<close>; the wait for clients, which leaves the mutex locked; filling
  the set, \<^verbatim>\<open>select\<close>, serving the clients with the mutex locked, and within that the handlers,
  which lock the list of logs.
\<close>

datatype message_point = M_loop | M_lock | M_test | M_asleep | M_fill | M_unlock | M_select |
  M_lock2 | M_serve | M_logs_lock | M_logs | M_logs_unlock | M_unlock2 | M_done

text \<open>Log thread: the same shape over the list of logs; it reads the map of clients at \<open>L_read\<close>.\<close>

datatype log_point = L_loop | L_lock | L_test | L_asleep | L_fill | L_unlock | L_select |
  L_lock2 | L_read | L_unlock2 | L_done

record threads =
  accept_at :: accept_point
  message_at :: message_point
  log_at :: log_point
  clients_mutex :: "thread option"
  logs_mutex :: "thread option"
  message_signalled :: bool
  log_signalled :: bool
  n_clients :: nat
  n_logs :: nat
  stopping :: bool

definition initial :: "threads \<Rightarrow> bool" where
  "initial s \<longleftrightarrow> accept_at s = A_setup \<and> message_at s = M_loop \<and> log_at s = L_loop \<and>
     clients_mutex s = None \<and> logs_mutex s = None \<and> \<not> message_signalled s \<and> \<not> log_signalled s \<and>
     n_clients s = 0 \<and> n_logs s = 0 \<and> \<not> stopping s"

section \<open>Locks and conditions\<close>

text \<open>Locking blocks, which is \<open>None\<close>, while another thread owns the mutex.\<close>

definition LockClientsList :: "thread \<Rightarrow> threads \<Rightarrow> threads option" where
  "LockClientsList t s = (if clients_mutex s = None then Some (s\<lparr>clients_mutex := Some t\<rparr>) else None)"

definition ReleaseClientsList :: "threads \<Rightarrow> threads" where
  "ReleaseClientsList s = s\<lparr>clients_mutex := None\<rparr>"

definition LockLogsList :: "thread \<Rightarrow> threads \<Rightarrow> threads option" where
  "LockLogsList t s = (if logs_mutex s = None then Some (s\<lparr>logs_mutex := Some t\<rparr>) else None)"

definition ReleaseLogsList :: "threads \<Rightarrow> threads" where
  "ReleaseLogsList s = s\<lparr>logs_mutex := None\<rparr>"

text \<open>A signal reaches the thread that sleeps on the condition, if there is one.\<close>

definition TellThatListIsNotEmpty :: "threads \<Rightarrow> threads" where
  "TellThatListIsNotEmpty s = s\<lparr>message_signalled := message_signalled s \<or> message_at s = M_asleep\<rparr>"

definition TellThatLogsListIsNotEmpty :: "threads \<Rightarrow> threads" where
  "TellThatLogsListIsNotEmpty s = s\<lparr>log_signalled := log_signalled s \<or> log_at s = L_asleep\<rparr>"

text \<open>\<open>WaitUntilListIsNotEmpty\<close> with the mutex locked: sleeping releases it.\<close>

definition WaitUntilListIsNotEmpty :: "threads \<Rightarrow> threads" where
  "WaitUntilListIsNotEmpty s =
     (if n_clients s = 0 then s\<lparr>message_at := M_asleep, message_signalled := False, clients_mutex := None\<rparr>
      else s\<lparr>message_at := M_fill\<rparr>)"

definition WaitUntilLogsListIsNotEmpty :: "threads \<Rightarrow> threads" where
  "WaitUntilLogsListIsNotEmpty s =
     (if n_logs s = 0 then s\<lparr>log_at := L_asleep, log_signalled := False, logs_mutex := None\<rparr>
      else s\<lparr>log_at := L_fill\<rparr>)"

text \<open>Insertions signal when the size has become one.\<close>

definition insert_client :: "threads \<Rightarrow> threads" where
  "insert_client s =
     (let s1 = s\<lparr>n_clients := n_clients s + 1\<rparr> in if n_clients s1 = 1 then TellThatListIsNotEmpty s1 else s1)"

definition push_log :: "threads \<Rightarrow> threads" where
  "push_log s =
     (let s1 = s\<lparr>n_logs := n_logs s + 1\<rparr> in if n_logs s1 = 1 then TellThatLogsListIsNotEmpty s1 else s1)"

section \<open>The threads\<close>

inductive accept_thread :: "threads \<Rightarrow> threads \<Rightarrow> bool" where
  set_up: "accept_at s = A_setup \<Longrightarrow> accept_thread s (s\<lparr>accept_at := A_loop\<rparr>)"
| give_up: "accept_at s = A_setup \<Longrightarrow> accept_thread s (s\<lparr>accept_at := A_done\<rparr>)"
| test: "accept_at s = A_loop \<Longrightarrow>
    accept_thread s (s\<lparr>accept_at := if stopping s then A_end_lock else A_accept\<rparr>)"
| accept: "accept_at s = A_accept \<Longrightarrow> accept_thread s (s\<lparr>accept_at := A_lock\<rparr>)"
| accept_fails: "accept_at s = A_accept \<Longrightarrow> accept_thread s (s\<lparr>accept_at := A_loop\<rparr>)"
| lock: "accept_at s = A_lock \<Longrightarrow> LockClientsList AcceptT s = Some s1 \<Longrightarrow>
    accept_thread s (s1\<lparr>accept_at := A_insert\<rparr>)"
| insert: "accept_at s = A_insert \<Longrightarrow> accept_thread s ((insert_client s)\<lparr>accept_at := A_unlock\<rparr>)"
| no_id: "accept_at s = A_insert \<Longrightarrow> accept_thread s (s\<lparr>accept_at := A_unlock\<rparr>)"
| unlock: "accept_at s = A_unlock \<Longrightarrow> accept_thread s ((ReleaseClientsList s)\<lparr>accept_at := A_loop\<rparr>)"
| end_lock: "accept_at s = A_end_lock \<Longrightarrow> LockClientsList AcceptT s = Some s1 \<Longrightarrow>
    accept_thread s (s1\<lparr>accept_at := A_end_clear\<rparr>)"
| end_clear: "accept_at s = A_end_clear \<Longrightarrow>
    accept_thread s (s\<lparr>n_clients := 0, accept_at := A_end_unlock\<rparr>)"
| end_unlock: "accept_at s = A_end_unlock \<Longrightarrow>
    accept_thread s ((ReleaseClientsList s)\<lparr>accept_at := A_done\<rparr>)"

text \<open>
  The message thread; \<open>spurious\<close> says whether a condition variable may wake a thread without a
  signal. Serving a client may call a handler, or erase clients, any number of times.
\<close>

inductive message_thread :: "bool \<Rightarrow> threads \<Rightarrow> threads \<Rightarrow> bool" for spurious where
  test_stop: "message_at s = M_loop \<Longrightarrow>
    message_thread spurious s (s\<lparr>message_at := if stopping s then M_done else M_lock\<rparr>)"
| wait_lock: "message_at s = M_lock \<Longrightarrow> LockClientsList MessageT s = Some s1 \<Longrightarrow>
    message_thread spurious s (s1\<lparr>message_at := M_test\<rparr>)"
| wait: "message_at s = M_test \<Longrightarrow> message_thread spurious s (WaitUntilListIsNotEmpty s)"
| wake: "message_at s = M_asleep \<Longrightarrow> message_signalled s \<or> spurious \<Longrightarrow> LockClientsList MessageT s = Some s1 \<Longrightarrow>
    message_thread spurious s (s1\<lparr>message_at := M_fill, message_signalled := False\<rparr>)"
| fill: "message_at s = M_fill \<Longrightarrow> message_thread spurious s (s\<lparr>message_at := M_unlock\<rparr>)"
| unlock: "message_at s = M_unlock \<Longrightarrow>
    message_thread spurious s ((ReleaseClientsList s)\<lparr>message_at := M_select\<rparr>)"
| select: "message_at s = M_select \<Longrightarrow> message_thread spurious s (s\<lparr>message_at := M_lock2\<rparr>)"
| lock2: "message_at s = M_lock2 \<Longrightarrow> LockClientsList MessageT s = Some s1 \<Longrightarrow>
    message_thread spurious s (s1\<lparr>message_at := M_serve\<rparr>)"
| erase: "message_at s = M_serve \<Longrightarrow> n \<le> n_clients s \<Longrightarrow>
    message_thread spurious s (s\<lparr>n_clients := n\<rparr>)"
| handler: "message_at s = M_serve \<Longrightarrow> message_thread spurious s (s\<lparr>message_at := M_logs_lock\<rparr>)"
| logs_lock: "message_at s = M_logs_lock \<Longrightarrow> LockLogsList MessageT s = Some s1 \<Longrightarrow>
    message_thread spurious s (s1\<lparr>message_at := M_logs\<rparr>)"
| push: "message_at s = M_logs \<Longrightarrow> message_thread spurious s ((push_log s)\<lparr>message_at := M_logs_unlock\<rparr>)"
| drop: "message_at s = M_logs \<Longrightarrow> n \<le> n_logs s \<Longrightarrow>
    message_thread spurious s (s\<lparr>n_logs := n, message_at := M_logs_unlock\<rparr>)"
| logs_unlock: "message_at s = M_logs_unlock \<Longrightarrow>
    message_thread spurious s ((ReleaseLogsList s)\<lparr>message_at := M_serve\<rparr>)"
| served: "message_at s = M_serve \<Longrightarrow> message_thread spurious s (s\<lparr>message_at := M_unlock2\<rparr>)"
| unlock2: "message_at s = M_unlock2 \<Longrightarrow>
    message_thread spurious s ((ReleaseClientsList s)\<lparr>message_at := M_loop\<rparr>)"

text \<open>The log thread: after an error of \<^verbatim>\<open>select\<close> or a time-out it starts again.\<close>

inductive log_thread :: "bool \<Rightarrow> threads \<Rightarrow> threads \<Rightarrow> bool" for spurious where
  test_stop: "log_at s = L_loop \<Longrightarrow>
    log_thread spurious s (s\<lparr>log_at := if stopping s then L_done else L_lock\<rparr>)"
| wait_lock: "log_at s = L_lock \<Longrightarrow> LockLogsList LogT s = Some s1 \<Longrightarrow>
    log_thread spurious s (s1\<lparr>log_at := L_test\<rparr>)"
| wait: "log_at s = L_test \<Longrightarrow> log_thread spurious s (WaitUntilLogsListIsNotEmpty s)"
| wake: "log_at s = L_asleep \<Longrightarrow> log_signalled s \<or> spurious \<Longrightarrow> LockLogsList LogT s = Some s1 \<Longrightarrow>
    log_thread spurious s (s1\<lparr>log_at := L_fill, log_signalled := False\<rparr>)"
| fill: "log_at s = L_fill \<Longrightarrow> log_thread spurious s (s\<lparr>log_at := L_unlock\<rparr>)"
| unlock: "log_at s = L_unlock \<Longrightarrow> log_thread spurious s ((ReleaseLogsList s)\<lparr>log_at := L_select\<rparr>)"
| select: "log_at s = L_select \<Longrightarrow> log_thread spurious s (s\<lparr>log_at := L_lock2\<rparr>)"
| select_again: "log_at s = L_select \<Longrightarrow> log_thread spurious s (s\<lparr>log_at := L_loop\<rparr>)"
| lock2: "log_at s = L_lock2 \<Longrightarrow> LockLogsList LogT s = Some s1 \<Longrightarrow>
    log_thread spurious s (s1\<lparr>log_at := L_read\<rparr>)"
| read: "log_at s = L_read \<Longrightarrow> n \<le> n_logs s \<Longrightarrow>
    log_thread spurious s (s\<lparr>n_logs := n, log_at := L_unlock2\<rparr>)"
| unlock2: "log_at s = L_unlock2 \<Longrightarrow> log_thread spurious s ((ReleaseLogsList s)\<lparr>log_at := L_loop\<rparr>)"

text \<open>A step of the program: of one of its threads, or the call of \<open>Stop\<close> from outside.\<close>

inductive thread_step :: "bool \<Rightarrow> thread option \<Rightarrow> threads \<Rightarrow> threads \<Rightarrow> bool" for spurious where
  accept_step: "accept_thread s s' \<Longrightarrow> thread_step spurious (Some AcceptT) s s'"
| message_step: "message_thread spurious s s' \<Longrightarrow> thread_step spurious (Some MessageT) s s'"
| log_step: "log_thread spurious s s' \<Longrightarrow> thread_step spurious (Some LogT) s s'"
| stop_call: "thread_step spurious None s (s\<lparr>stopping := True\<rparr>)"

inductive reachable :: "bool \<Rightarrow> threads \<Rightarrow> bool" for spurious where
  start: "initial s \<Longrightarrow> reachable spurious s"
| step: "reachable spurious s \<Longrightarrow> thread_step spurious t s s' \<Longrightarrow> reachable spurious s'"

inductive steps :: "bool \<Rightarrow> threads \<Rightarrow> threads \<Rightarrow> bool" for spurious where
  none: "steps spurious s s"
| more: "steps spurious s s1 \<Longrightarrow> thread_step spurious t s1 s2 \<Longrightarrow> steps spurious s s2"

inductive_cases accept_threadE: "accept_thread s s'"
inductive_cases message_threadE: "message_thread spurious s s'"
inductive_cases log_threadE: "log_thread spurious s s'"
inductive_cases thread_stepE: "thread_step spurious t s s'"
inductive_simps thread_step_simps:
  "thread_step spurious (Some AcceptT) s s'" "thread_step spurious (Some MessageT) s s'"
  "thread_step spurious (Some LogT) s s'"

lemma LockClientsList_Some:
  "LockClientsList t s = Some s1 \<longleftrightarrow> clients_mutex s = None \<and> s1 = s\<lparr>clients_mutex := Some t\<rparr>"
  by (auto simp: LockClientsList_def)

lemma LockLogsList_Some:
  "LockLogsList t s = Some s1 \<longleftrightarrow> logs_mutex s = None \<and> s1 = s\<lparr>logs_mutex := Some t\<rparr>"
  by (auto simp: LockLogsList_def)

lemmas lock_defs = LockClientsList_Some ReleaseClientsList_def LockLogsList_Some ReleaseLogsList_def
  TellThatListIsNotEmpty_def TellThatLogsListIsNotEmpty_def WaitUntilListIsNotEmpty_def
  WaitUntilLogsListIsNotEmpty_def insert_client_def push_log_def Let_def

section \<open>The invariant\<close>

text \<open>The program points at which a thread owns a mutex.\<close>

fun accept_owns :: "accept_point \<Rightarrow> bool" where
  "accept_owns A_insert = True"
| "accept_owns A_unlock = True"
| "accept_owns A_end_clear = True"
| "accept_owns A_end_unlock = True"
| "accept_owns _ = False"

fun message_owns_clients :: "message_point \<Rightarrow> bool" where
  "message_owns_clients M_test = True"
| "message_owns_clients M_fill = True"
| "message_owns_clients M_unlock = True"
| "message_owns_clients M_serve = True"
| "message_owns_clients M_logs_lock = True"
| "message_owns_clients M_logs = True"
| "message_owns_clients M_logs_unlock = True"
| "message_owns_clients M_unlock2 = True"
| "message_owns_clients _ = False"

fun message_owns_logs :: "message_point \<Rightarrow> bool" where
  "message_owns_logs M_logs = True"
| "message_owns_logs M_logs_unlock = True"
| "message_owns_logs _ = False"

fun log_owns :: "log_point \<Rightarrow> bool" where
  "log_owns L_test = True"
| "log_owns L_fill = True"
| "log_owns L_unlock = True"
| "log_owns L_read = True"
| "log_owns L_unlock2 = True"
| "log_owns _ = False"

text \<open>The owners are the threads at these points, and a thread sleeps unsignalled over nothing only.\<close>

definition clients_lock_ok :: "threads \<Rightarrow> bool" where
  "clients_lock_ok s \<longleftrightarrow>
     clients_mutex s = (if accept_owns (accept_at s) then Some AcceptT
       else if message_owns_clients (message_at s) then Some MessageT else None) \<and>
     \<not> (accept_owns (accept_at s) \<and> message_owns_clients (message_at s))"

definition logs_lock_ok :: "threads \<Rightarrow> bool" where
  "logs_lock_ok s \<longleftrightarrow>
     logs_mutex s = (if message_owns_logs (message_at s) then Some MessageT
       else if log_owns (log_at s) then Some LogT else None) \<and>
     \<not> (message_owns_logs (message_at s) \<and> log_owns (log_at s))"

definition sleep_ok :: "threads \<Rightarrow> bool" where
  "sleep_ok s \<longleftrightarrow>
     (message_at s = M_asleep \<and> \<not> message_signalled s \<longrightarrow> n_clients s = 0) \<and>
     (log_at s = L_asleep \<and> \<not> log_signalled s \<longrightarrow> n_logs s = 0)"

definition threads_ok :: "threads \<Rightarrow> bool" where
  "threads_ok s \<longleftrightarrow> clients_lock_ok s \<and> logs_lock_ok s \<and> sleep_ok s"

lemmas ok_defs = threads_ok_def clients_lock_ok_def logs_lock_ok_def sleep_ok_def

lemma accept_keeps: "accept_thread s s' \<Longrightarrow> threads_ok s \<Longrightarrow> threads_ok s'"
  by (cases rule: accept_thread.cases, assumption) (clarsimp simp: ok_defs lock_defs split: if_splits)+

lemma message_keeps: "message_thread spurious s s' \<Longrightarrow> threads_ok s \<Longrightarrow> threads_ok s'"
  by (cases rule: message_thread.cases, assumption) (clarsimp simp: ok_defs lock_defs split: if_splits)+

lemma log_keeps: "log_thread spurious s s' \<Longrightarrow> threads_ok s \<Longrightarrow> threads_ok s'"
  by (cases rule: log_thread.cases, assumption) (clarsimp simp: ok_defs lock_defs split: if_splits)+

lemma reachable_ok: "reachable spurious s \<Longrightarrow> threads_ok s"
proof (induction rule: reachable.induct)
  case (start s)
  then show ?case by (simp add: initial_def ok_defs)
next
  case (step s t s')
  from step(2) show ?case
  proof (cases rule: thread_step.cases)
    case accept_step
    with step(3) accept_keeps show ?thesis by blast
  next
    case message_step
    with step(3) message_keeps show ?thesis by blast
  next
    case log_step
    with step(3) log_keeps show ?thesis by blast
  next
    case stop_call
    with step(3) show ?thesis by (simp add: ok_defs)
  qed
qed

section \<open>Moves\<close>

text \<open>A thread that owns a mutex can go on, except a handler that waits for the list of logs.\<close>

lemma accept_owner_steps: "accept_owns (accept_at s) \<Longrightarrow> \<exists>s'. accept_thread s s'"
  by (cases "accept_at s") (auto intro: accept_thread.intros)

lemma message_owner_steps:
  assumes "message_owns_clients (message_at s)" and "message_at s = M_logs_lock \<longrightarrow> logs_mutex s = None"
  shows "\<exists>s'. message_thread spurious s s'"
proof (cases "message_at s = M_logs_lock")
  case True
  with assms(2) have "LockLogsList MessageT s = Some (s\<lparr>logs_mutex := Some MessageT\<rparr>)"
    by (simp add: LockLogsList_Some)
  with True show ?thesis by (blast intro: message_thread.logs_lock)
next
  case False
  with assms(1) show ?thesis by (cases "message_at s") (auto intro: message_thread.intros)
qed

lemma log_owner_steps: "log_owns (log_at s) \<Longrightarrow> \<exists>s'. log_thread spurious s s'"
  by (cases "log_at s") (auto intro: log_thread.intros)

lemmas thread_reachable = reachable.step [OF _ thread_step.accept_step]
  reachable.step [OF _ thread_step.message_step] reachable.step [OF _ thread_step.log_step]

text \<open>Longer moves of one thread that the others let through.\<close>

lemma accept_enters:
  assumes "reachable spurious s" and "accept_at s = A_loop" and "\<not> stopping s" and "clients_mutex s = None"
  shows "reachable spurious (s\<lparr>clients_mutex := Some AcceptT, accept_at := A_insert\<rparr>)"
proof -
  have 1: "reachable spurious (s\<lparr>accept_at := A_accept\<rparr>)"
    using thread_reachable(1) [OF assms(1) accept_thread.test [OF assms(2)]] assms(3) by simp
  have "reachable spurious (s\<lparr>accept_at := A_lock\<rparr>)"
    using thread_reachable(1) [OF 1 accept_thread.accept] by simp
  from thread_reachable(1) [OF this accept_thread.lock, of "s\<lparr>accept_at := A_lock, clients_mutex := Some AcceptT\<rparr>"]
  show ?thesis using assms(4) by (simp add: LockClientsList_Some)
qed

lemma accept_leaves:
  assumes "reachable spurious s" and "accept_at s = A_insert"
  shows "reachable spurious ((insert_client s)\<lparr>clients_mutex := None, accept_at := A_loop\<rparr>)"
proof -
  have "reachable spurious ((insert_client s)\<lparr>accept_at := A_unlock\<rparr>)"
    by (rule thread_reachable(1) [OF assms(1) accept_thread.insert [OF assms(2)]])
  from thread_reachable(1) [OF this accept_thread.unlock] show ?thesis
    by (simp add: ReleaseClientsList_def)
qed

lemma message_serves:
  assumes "reachable spurious s" and "message_at s = M_loop" and "\<not> stopping s" and "clients_mutex s = None"
    and "0 < n_clients s"
  shows "reachable spurious (s\<lparr>clients_mutex := Some MessageT, message_at := M_serve\<rparr>)"
proof -
  have 1: "reachable spurious (s\<lparr>message_at := M_lock\<rparr>)"
    using thread_reachable(2) [OF assms(1) message_thread.test_stop [OF assms(2)]] assms(3) by simp
  have 2: "reachable spurious (s\<lparr>clients_mutex := Some MessageT, message_at := M_test\<rparr>)"
    using thread_reachable(2) [OF 1 message_thread.wait_lock, of "s\<lparr>message_at := M_lock, clients_mutex := Some MessageT\<rparr>"]
      assms(4) by (simp add: LockClientsList_Some)
  have 3: "reachable spurious (s\<lparr>clients_mutex := Some MessageT, message_at := M_fill\<rparr>)"
    using thread_reachable(2) [OF 2 message_thread.wait] assms(5) by (simp add: WaitUntilListIsNotEmpty_def)
  have 4: "reachable spurious (s\<lparr>clients_mutex := None, message_at := M_select\<rparr>)"
    using thread_reachable(2) [OF thread_reachable(2) [OF 3 message_thread.fill] message_thread.unlock]
    by (simp add: ReleaseClientsList_def)
  have 5: "reachable spurious (s\<lparr>clients_mutex := None, message_at := M_lock2\<rparr>)"
    using thread_reachable(2) [OF 4 message_thread.select] by simp
  show ?thesis
    using thread_reachable(2) [OF 5 message_thread.lock2, of "s\<lparr>message_at := M_lock2, clients_mutex := Some MessageT\<rparr>"]
    by (simp add: LockClientsList_Some)
qed

lemma message_pushes:
  assumes "reachable spurious s" and "message_at s = M_serve" and "logs_mutex s = None"
  shows "reachable spurious ((push_log (s\<lparr>logs_mutex := Some MessageT, message_at := M_logs\<rparr>))
    \<lparr>logs_mutex := None, message_at := M_serve\<rparr>)"
proof -
  have 1: "reachable spurious (s\<lparr>message_at := M_logs_lock\<rparr>)"
    by (rule thread_reachable(2) [OF assms(1) message_thread.handler [OF assms(2)]])
  have 2: "reachable spurious (s\<lparr>logs_mutex := Some MessageT, message_at := M_logs\<rparr>)"
    using thread_reachable(2) [OF 1 message_thread.logs_lock, of "s\<lparr>message_at := M_logs_lock, logs_mutex := Some MessageT\<rparr>"]
      assms(3) by (simp add: LockLogsList_Some)
  show ?thesis
    using thread_reachable(2) [OF thread_reachable(2) [OF 2 message_thread.push] message_thread.logs_unlock]
    by (simp add: ReleaseLogsList_def)
qed

lemma message_leaves:
  assumes "reachable spurious s" and "message_at s = M_serve"
  shows "reachable spurious (s\<lparr>clients_mutex := None, message_at := M_loop\<rparr>)"
  using thread_reachable(2) [OF thread_reachable(2) [OF assms(1) message_thread.served [OF assms(2)]] message_thread.unlock2]
  by (simp add: ReleaseClientsList_def)

lemma log_reads:
  assumes "reachable spurious s" and "log_at s = L_loop" and "\<not> stopping s" and "logs_mutex s = None"
    and "0 < n_logs s"
  shows "reachable spurious (s\<lparr>logs_mutex := Some LogT, log_at := L_read\<rparr>)"
proof -
  have 1: "reachable spurious (s\<lparr>log_at := L_lock\<rparr>)"
    using thread_reachable(3) [OF assms(1) log_thread.test_stop [OF assms(2)]] assms(3) by simp
  have 2: "reachable spurious (s\<lparr>logs_mutex := Some LogT, log_at := L_test\<rparr>)"
    using thread_reachable(3) [OF 1 log_thread.wait_lock, of "s\<lparr>log_at := L_lock, logs_mutex := Some LogT\<rparr>"]
      assms(4) by (simp add: LockLogsList_Some)
  have 3: "reachable spurious (s\<lparr>logs_mutex := Some LogT, log_at := L_fill\<rparr>)"
    using thread_reachable(3) [OF 2 log_thread.wait] assms(5) by (simp add: WaitUntilLogsListIsNotEmpty_def)
  have 4: "reachable spurious (s\<lparr>logs_mutex := None, log_at := L_select\<rparr>)"
    using thread_reachable(3) [OF thread_reachable(3) [OF 3 log_thread.fill] log_thread.unlock]
    by (simp add: ReleaseLogsList_def)
  have 5: "reachable spurious (s\<lparr>logs_mutex := None, log_at := L_lock2\<rparr>)"
    using thread_reachable(3) [OF 4 log_thread.select] by simp
  show ?thesis
    using thread_reachable(3) [OF 5 log_thread.lock2, of "s\<lparr>log_at := L_lock2, logs_mutex := Some LogT\<rparr>"]
    by (simp add: LockLogsList_Some)
qed

text \<open>The first states: a client has come, and its handler has put a log on the list.\<close>

definition first_state :: threads where
  "first_state = \<lparr>accept_at = A_setup, message_at = M_loop, log_at = L_loop, clients_mutex = None,
     logs_mutex = None, message_signalled = False, log_signalled = False, n_clients = 0, n_logs = 0,
     stopping = False\<rparr>"

lemma first_reachable: "reachable spurious first_state"
  by (rule reachable.start) (simp add: initial_def first_state_def)

lemma serving_reachable:
  "reachable spurious (first_state\<lparr>accept_at := A_loop, n_clients := 1, message_at := M_serve, n_logs := 1,
     clients_mutex := Some MessageT\<rparr>)"
proof -
  have "reachable spurious (first_state\<lparr>accept_at := A_loop\<rparr>)"
    by (rule thread_reachable(1) [OF first_reachable accept_thread.set_up]) (simp add: first_state_def)
  from accept_enters [OF this] have
    "reachable spurious (first_state\<lparr>accept_at := A_insert, clients_mutex := Some AcceptT\<rparr>)"
    by (simp add: first_state_def)
  from accept_leaves [OF this] have "reachable spurious (first_state\<lparr>accept_at := A_loop, n_clients := 1\<rparr>)"
    by (simp add: first_state_def insert_client_def TellThatListIsNotEmpty_def)
  from message_serves [OF this] have "reachable spurious
      (first_state\<lparr>accept_at := A_loop, n_clients := 1, message_at := M_serve, clients_mutex := Some MessageT\<rparr>)"
    by (simp add: first_state_def)
  from message_pushes [OF this] show ?thesis
    by (simp add: first_state_def push_log_def TellThatLogsListIsNotEmpty_def)
qed

section \<open>Properties\<close>

text \<open>
  C20: The two mutexes do what they are for. The accept thread and the message thread are never both
  at a point between locking and releasing the map of clients, nor the message thread and the
  log thread for the list of logs; and the locks cannot deadlock: the owner of the list can
  always go on, and so can the owner of the map, unless it is a handler that waits for the list
  while the log thread has it.
\<close>

theorem locks_exclude:
  assumes "reachable spurious s"
  shows "\<not> (accept_owns (accept_at s) \<and> message_owns_clients (message_at s)) \<and>
    \<not> (message_owns_logs (message_at s) \<and> log_owns (log_at s)) \<and>
    (\<forall>t. logs_mutex s = Some t \<longrightarrow> (\<exists>s'. thread_step spurious (Some t) s s')) \<and>
    (\<forall>t. clients_mutex s = Some t \<longrightarrow> (\<exists>s'. thread_step spurious (Some t) s s') \<or>
      t = MessageT \<and> message_at s = M_logs_lock \<and> logs_mutex s = Some LogT)"
proof -
  have ok: "clients_lock_ok s" "logs_lock_ok s" using reachable_ok [OF assms] by (simp_all add: threads_ok_def)
  have logs: "\<exists>s'. thread_step spurious (Some t) s s'" if "logs_mutex s = Some t" for t
  proof (cases "message_owns_logs (message_at s)")
    case True
    then have "message_owns_clients (message_at s)" "message_at s \<noteq> M_logs_lock" by (cases "message_at s"; simp)+
    with message_owner_steps [of s spurious] True ok(2) that show ?thesis
      by (auto simp: logs_lock_ok_def thread_step_simps)
  next
    case False
    with ok(2) that log_owner_steps [of s spurious] show ?thesis
      by (auto simp: logs_lock_ok_def thread_step_simps split: if_splits)
  qed
  have "(\<exists>s'. thread_step spurious (Some t) s s') \<or> t = MessageT \<and> message_at s = M_logs_lock \<and> logs_mutex s = Some LogT"
    if "clients_mutex s = Some t" for t
  proof (cases "accept_owns (accept_at s)")
    case True
    with accept_owner_steps [of s] ok(1) that show ?thesis
      by (auto simp: clients_lock_ok_def thread_step_simps)
  next
    case False
    with ok(1) that have m: "message_owns_clients (message_at s)" "t = MessageT"
      by (auto simp: clients_lock_ok_def split: if_splits)
    with message_owner_steps [of s spurious] ok(2) show ?thesis
      by (auto simp: logs_lock_ok_def thread_step_simps split: if_splits)
  qed
  with logs ok show ?thesis by (simp add: clients_lock_ok_def logs_lock_ok_def)
qed

theorem locks_exclude_witness:
  "\<exists>s'. thread_step False (Some MessageT) (first_state\<lparr>accept_at := A_loop, n_clients := 1, message_at := M_serve,
     n_logs := 1, clients_mutex := Some MessageT\<rparr>) s'"
  using locks_exclude [OF serving_reachable, of False] by (auto simp: first_state_def)

text \<open>
  C21: No wake-up is lost. A thread that sleeps on its condition while there is something for it to
  do has been signalled, and can go on as soon as the mutex is free: the message thread once
  a client is in the map, the log thread once a log is on the list.
\<close>

theorem sleepers_are_woken:
  assumes "reachable spurious s"
  shows "(message_at s = M_asleep \<and> 0 < n_clients s \<longrightarrow>
      message_signalled s \<and> (clients_mutex s = None \<longrightarrow> (\<exists>s'. message_thread False s s' \<and> message_at s' = M_fill))) \<and>
    (log_at s = L_asleep \<and> 0 < n_logs s \<longrightarrow>
      log_signalled s \<and> (logs_mutex s = None \<longrightarrow> (\<exists>s'. log_thread False s s' \<and> log_at s' = L_fill)))"
proof -
  have ok: "sleep_ok s" using reachable_ok [OF assms] by (simp add: threads_ok_def)
  have m: "\<exists>s'. message_thread False s s' \<and> message_at s' = M_fill"
    if "message_at s = M_asleep" "message_signalled s" "clients_mutex s = None"
  proof -
    have "LockClientsList MessageT s = Some (s\<lparr>clients_mutex := Some MessageT\<rparr>)"
      using that(3) by (simp add: LockClientsList_Some)
    from message_thread.wake [OF that(1) _ this, of False] that(2) show ?thesis by force
  qed
  have l: "\<exists>s'. log_thread False s s' \<and> log_at s' = L_fill"
    if "log_at s = L_asleep" "log_signalled s" "logs_mutex s = None"
  proof -
    have "LockLogsList LogT s = Some (s\<lparr>logs_mutex := Some LogT\<rparr>)"
      using that(3) by (simp add: LockLogsList_Some)
    from log_thread.wake [OF that(1) _ this, of False] that(2) show ?thesis by force
  qed
  from ok m l show ?thesis by (auto simp: sleep_ok_def)
qed

lemma asleep_reachable: "reachable spurious (first_state\<lparr>message_at := M_asleep\<rparr>)"
proof -
  have 1: "reachable spurious (first_state\<lparr>message_at := M_lock\<rparr>)"
    using thread_reachable(2) [OF first_reachable message_thread.test_stop] by (simp add: first_state_def)
  have 2: "reachable spurious (first_state\<lparr>message_at := M_test, clients_mutex := Some MessageT\<rparr>)"
    using thread_reachable(2) [OF 1 message_thread.wait_lock, of "first_state\<lparr>message_at := M_lock, clients_mutex := Some MessageT\<rparr>"]
    by (simp add: LockClientsList_Some first_state_def)
  show ?thesis
    using thread_reachable(2) [OF 2 message_thread.wait] by (simp add: WaitUntilListIsNotEmpty_def first_state_def)
qed

lemma woken_reachable:
  "reachable spurious (first_state\<lparr>accept_at := A_loop, message_at := M_asleep, message_signalled := True, n_clients := 1\<rparr>)"
proof -
  have "reachable spurious (first_state\<lparr>accept_at := A_loop, message_at := M_asleep\<rparr>)"
    using thread_reachable(1) [OF asleep_reachable accept_thread.set_up] by (simp add: first_state_def)
  from accept_enters [OF this] have "reachable spurious
      (first_state\<lparr>accept_at := A_insert, message_at := M_asleep, clients_mutex := Some AcceptT\<rparr>)"
    by (simp add: first_state_def)
  from accept_leaves [OF this] show ?thesis
    by (simp add: first_state_def insert_client_def TellThatListIsNotEmpty_def)
qed

theorem sleepers_are_woken_witness:
  "\<exists>s'. message_thread False (first_state\<lparr>accept_at := A_loop, message_at := M_asleep, message_signalled := True,
     n_clients := 1\<rparr>) s' \<and> message_at s' = M_fill"
  using sleepers_are_woken [OF woken_reachable] by (simp add: first_state_def)

text \<open>
  C37: \<open>Stop\<close> can wait for ever. It joins both listeners, but nothing signals the condition variable:
  once the accept thread has ended while the message thread sleeps without a signal, no step
  of any thread (without a spurious wake-up) ever wakes the message thread.
\<close>

theorem stop_never_returns:
  assumes "steps False s s'" and "accept_at s = A_done" and "message_at s = M_asleep" and "\<not> message_signalled s"
  shows "message_at s' = M_asleep \<and> \<not> message_signalled s'"
proof -
  have "accept_at s' = A_done \<and> message_at s' = M_asleep \<and> \<not> message_signalled s'"
    using assms
  proof (induction rule: steps.induct)
    case (more s s1 t s2)
    then have a: "accept_at s1 = A_done" "message_at s1 = M_asleep" "\<not> message_signalled s1" by simp_all
    from more.hyps(2) show ?case
    proof (cases rule: thread_step.cases)
      case accept_step
      with a show ?thesis by (auto elim: accept_threadE)
    next
      case message_step
      with a show ?thesis by (auto elim: message_threadE)
    next
      case log_step
      from log_step(2) a show ?thesis
        by (cases rule: log_thread.cases) (clarsimp simp: lock_defs split: if_splits)+
    next
      case stop_call
      with a show ?thesis by simp
    qed
  qed simp
  then show ?thesis by simp
qed

text \<open>The state in which \<open>Stop\<close> has been called and the accept thread has gone.\<close>

lemma stopped_reachable:
  "reachable spurious (first_state\<lparr>accept_at := A_done, message_at := M_asleep, stopping := True\<rparr>)"
proof -
  have 1: "reachable spurious (first_state\<lparr>accept_at := A_loop, message_at := M_asleep, stopping := True\<rparr>)"
    using reachable.step [OF thread_reachable(1) [OF asleep_reachable accept_thread.set_up] thread_step.stop_call]
    by (simp add: first_state_def)
  have 2: "reachable spurious (first_state\<lparr>accept_at := A_end_lock, message_at := M_asleep, stopping := True\<rparr>)"
    using thread_reachable(1) [OF 1 accept_thread.test] by (simp add: first_state_def)
  have 3: "reachable spurious (first_state\<lparr>accept_at := A_end_clear, message_at := M_asleep, stopping := True,
      clients_mutex := Some AcceptT\<rparr>)"
    using thread_reachable(1) [OF 2 accept_thread.end_lock, of "first_state\<lparr>accept_at := A_end_lock, message_at := M_asleep,
      stopping := True, clients_mutex := Some AcceptT\<rparr>"] by (simp add: LockClientsList_Some first_state_def)
  show ?thesis
    using thread_reachable(1) [OF thread_reachable(1) [OF 3 accept_thread.end_clear] accept_thread.end_unlock]
    by (simp add: ReleaseClientsList_def first_state_def)
qed

theorem stop_never_returns_witness:
  "\<exists>s. reachable False s \<and> stopping s \<and> accept_at s = A_done \<and> message_at s = M_asleep \<and>
     {s'. steps False s s' \<and> message_at s' = M_done} = {}"
proof -
  let ?s = "first_state\<lparr>accept_at := A_done, message_at := M_asleep, stopping := True\<rparr>"
  have "message_at s' = M_asleep" if "steps False ?s s'" for s'
    using stop_never_returns [OF that] by (simp add: first_state_def)
  then have "{s'. steps False ?s s' \<and> message_at s' = M_done} = {}" by force
  with stopped_reachable [of False] show ?thesis
    by (intro exI [of _ ?s]) (simp add: first_state_def)
qed

text \<open>
  The log thread reads and writes the map of clients without its mutex: runs exist in which it is
  looking up and sending to a client while the message thread serves and erases clients, and
  while the accept thread inserts one, each time under a lock that the log thread does not have.
\<close>

theorem clients_race:
  "(\<exists>s. reachable spurious s \<and> log_at s = L_read \<and> message_at s = M_serve \<and> clients_mutex s = Some MessageT) \<and>
   (\<exists>s. reachable spurious s \<and> log_at s = L_read \<and> accept_at s = A_insert \<and> clients_mutex s = Some AcceptT)"
proof
  let ?s = "first_state\<lparr>accept_at := A_loop, n_clients := 1, message_at := M_serve, n_logs := 1,
     clients_mutex := Some MessageT\<rparr>"
  have r: "reachable spurious (?s\<lparr>logs_mutex := Some LogT, log_at := L_read\<rparr>)"
    by (rule log_reads [OF serving_reachable]) (simp_all add: first_state_def)
  then show "\<exists>s. reachable spurious s \<and> log_at s = L_read \<and> message_at s = M_serve \<and> clients_mutex s = Some MessageT"
    by (intro exI conjI) (assumption, simp_all add: first_state_def)
  have "reachable spurious (?s\<lparr>logs_mutex := Some LogT, log_at := L_read, clients_mutex := None, message_at := M_loop\<rparr>)"
    using message_leaves [OF r] by (simp add: first_state_def)
  from accept_enters [OF this] show
    "\<exists>s. reachable spurious s \<and> log_at s = L_read \<and> accept_at s = A_insert \<and> clients_mutex s = Some AcceptT"
    by (intro exI conjI) (assumption | simp add: first_state_def)+
qed

end
